(* ===== verification/Prelude.thy ===== *)
theory Prelude
  imports Main "HOL-Library.Word"
begin

text \<open>
  Shared vocabulary of the development: the machine integer types of the C
  sources, run-time faults as values, bounds-checked arrays, the register
  helpers that several devices define again and again, and the generic list and
  word lemmas the component theories rest on.
\<close>

unbundle bit_operations_syntax

section \<open>Machine integers\<close>

type_synonym u8 = "8 word"
type_synonym u16 = "16 word"
type_synonym u32 = "32 word"
type_synonym u64 = "64 word"

named_theorems unat_simps \<open>from word arithmetic to arithmetic on natural numbers\<close>
named_theorems res_simps \<open>symbolic execution of fallible operations\<close>

section \<open>Faults as values\<close>

text \<open>
  What stops the C program (a failed assertion, an access outside an array, a
  null or dangling pointer, a signed overflow, a division by zero, a call of the abort routine of
  the emulator, the use of a variable never set, a loop that makes no progress) is the left
  summand of a result.
\<close>

datatype fault =
    AssertFail | OutOfBounds | NullDeref | UseAfterFree | IntOverflow | DivByZero | CpuAbort | Uninit | Hang

type_synonym 'a res = "fault + 'a"

definition rbind :: "'a res \<Rightarrow> ('a \<Rightarrow> 'b res) \<Rightarrow> 'b res" where
  "rbind m f = (case m of Inl e \<Rightarrow> Inl e | Inr x \<Rightarrow> f x)"

definition assert_then :: "bool \<Rightarrow> 'a res \<Rightarrow> 'a res" where
  "assert_then b m = (if b then m else Inl AssertFail)"

definition returns :: "'a res \<Rightarrow> bool" where
  "returns m = (case m of Inl _ \<Rightarrow> False | Inr _ \<Rightarrow> True)"

lemma rbind_simps [simp, res_simps]:
  "rbind (Inr x) f = f x"
  "rbind (Inl e) f = Inl e"
  by (simp_all add: rbind_def)

lemma assert_then_simps [simp, res_simps]:
  "assert_then True m = m"
  "assert_then False m = Inl AssertFail"
  by (simp_all add: assert_then_def)

lemma rbind_assoc: "rbind (rbind m f) g = rbind m (\<lambda>x. rbind (f x) g)"
  by (cases m) simp_all

lemma rbind_eq_Inr_iff: "rbind m f = Inr y \<longleftrightarrow> (\<exists>x. m = Inr x \<and> f x = Inr y)"
  by (cases m) auto

lemma assert_then_eq_Inr_iff: "assert_then b m = Inr y \<longleftrightarrow> b \<and> m = Inr y"
  by (simp add: assert_then_def)

lemma returns_simps [simp]: "returns (Inr x)" "\<not> returns (Inl e)"
  by (simp_all add: returns_def)

lemma returns_iff: "returns m \<longleftrightarrow> (\<exists>x. m = Inr x)"
  by (cases m) auto

section \<open>Arrays\<close>

definition aread :: "'a list \<Rightarrow> nat \<Rightarrow> 'a res" where
  "aread xs i = (if i < length xs then Inr (xs ! i) else Inl OutOfBounds)"

definition awrite :: "'a list \<Rightarrow> nat \<Rightarrow> 'a \<Rightarrow> 'a list res" where
  "awrite xs i v = (if i < length xs then Inr (xs[i := v]) else Inl OutOfBounds)"

text \<open>\<^verbatim>\<open>memmove(&xs[dst], &xs[src], n)\<close>, counted in elements.\<close>

definition memmove :: "nat \<Rightarrow> nat \<Rightarrow> nat \<Rightarrow> 'a list \<Rightarrow> 'a list res" where
  "memmove dst src n xs =
     (if dst + n \<le> length xs \<and> src + n \<le> length xs
      then Inr (take dst xs @ take n (drop src xs) @ drop (dst + n) xs)
      else Inl OutOfBounds)"

text \<open>\<^verbatim>\<open>memcpy(&xs[off], data, n)\<close> and \<^verbatim>\<open>memcpy(data, &xs[off], n)\<close>.\<close>

definition memcpy_to :: "'a list \<Rightarrow> nat \<Rightarrow> 'a list \<Rightarrow> 'a list res" where
  "memcpy_to xs off data =
     (if off + length data \<le> length xs
      then Inr (take off xs @ data @ drop (off + length data) xs)
      else Inl OutOfBounds)"

definition memcpy_from :: "'a list \<Rightarrow> nat \<Rightarrow> nat \<Rightarrow> 'a list res" where
  "memcpy_from xs off n = (if off + n \<le> length xs then Inr (take n (drop off xs)) else Inl OutOfBounds)"

lemma aread_ok [res_simps]: "i < length xs \<Longrightarrow> aread xs i = Inr (xs ! i)"
  by (simp add: aread_def)

lemma awrite_ok [res_simps]: "i < length xs \<Longrightarrow> awrite xs i v = Inr (xs[i := v])"
  by (simp add: awrite_def)

lemma memmove_ok [res_simps]:
  "dst + n \<le> length xs \<Longrightarrow> src + n \<le> length xs \<Longrightarrow>
   memmove dst src n xs = Inr (take dst xs @ take n (drop src xs) @ drop (dst + n) xs)"
  by (simp add: memmove_def)

lemma length_memmove: "memmove dst src n xs = Inr ys \<Longrightarrow> length ys = length xs"
  by (auto simp: memmove_def split: if_splits)

text \<open>
  The two array idioms of the sources: opening a gap of one or two cells after
  index \<open>i\<close> among the first \<open>n\<close> cells and filling it, and closing a gap of
  \<open>k\<close> cells at \<open>i\<close>.
\<close>

lemma take_append_exact: "length xs = n \<Longrightarrow> take n (xs @ ys) = xs"
  by simp

lemma overwrite_tail_2:
  assumes "i + 2 \<le> length xs"
  shows "(take (i + 2) xs)[i := p, Suc i := q] = take i xs @ [p, q]"
  using assms by (auto intro!: nth_equalityI simp: nth_append nth_list_update nth_Cons')

lemma overwrite_tail_3:
  assumes "i + 3 \<le> length xs"
  shows "(take (i + 3) xs)[i := p, Suc i := q, Suc (Suc i) := r] = take i xs @ [p, q, r]"
  using assms by (auto intro!: nth_equalityI simp: nth_append nth_list_update nth_Cons')

lemma take_open_gap_1:
  assumes "i < n" "n + 1 \<le> length xs"
  shows "take (Suc n) ((take (i + 2) xs @ take (n - i - 1) (drop (i + 1) xs) @ drop (n + 1) xs)
           [i := p, Suc i := q]) =
         take i (take n xs) @ [p, q] @ drop (Suc i) (take n xs)"
proof -
  let ?B = "drop (Suc i) (take n xs)"
  have B: "take (n - i - 1) (drop (i + 1) xs) = ?B"
    by (simp add: drop_take)
  have "(take (i + 2) xs @ ?B @ drop (n + 1) xs)[i := p, Suc i := q] =
        (take i xs @ [p, q] @ ?B) @ drop (n + 1) xs"
    using assms overwrite_tail_2 [of i xs p q] by (simp add: list_update_append)
  moreover have "length (take i xs @ [p, q] @ ?B) = Suc n"
    using assms by simp
  ultimately have "take (Suc n) ((take (i + 2) xs @ ?B @ drop (n + 1) xs)[i := p, Suc i := q]) =
      take i xs @ [p, q] @ ?B"
    using take_append_exact by metis
  then show ?thesis
    using assms unfolding B by (simp add: min.absorb1)
qed

lemma take_open_gap_2:
  assumes "i < n" "n + 2 \<le> length xs"
  shows "take (Suc (Suc n)) ((take (i + 3) xs @ take (n - i - 1) (drop (i + 1) xs) @ drop (n + 2) xs)
           [i := p, Suc i := q, Suc (Suc i) := r]) =
         take i (take n xs) @ [p, q, r] @ drop (Suc i) (take n xs)"
proof -
  let ?B = "drop (Suc i) (take n xs)"
  have B: "take (n - i - 1) (drop (i + 1) xs) = ?B"
    by (simp add: drop_take)
  have "(take (i + 3) xs @ ?B @ drop (n + 2) xs)[i := p, Suc i := q, Suc (Suc i) := r] =
        (take i xs @ [p, q, r] @ ?B) @ drop (n + 2) xs"
    using assms overwrite_tail_3 [of i xs p q r] by (simp add: list_update_append)
  moreover have "length (take i xs @ [p, q, r] @ ?B) = Suc (Suc n)"
    using assms by simp
  ultimately have "take (Suc (Suc n)) ((take (i + 3) xs @ ?B @ drop (n + 2) xs)
      [i := p, Suc i := q, Suc (Suc i) := r]) = take i xs @ [p, q, r] @ ?B"
    using take_append_exact by metis
  then show ?thesis
    using assms unfolding B by (simp add: min.absorb1)
qed

lemma take_close_gap:
  assumes "i + k \<le> n" "n \<le> length xs"
  shows "take (n - k) (take i xs @ take (n - k - i) (drop (i + k) xs) @ drop (n - k) xs) =
    take i (take n xs) @ drop (i + k) (take n xs)"
proof -
  have B: "take (n - k - i) (drop (i + k) xs) = drop (i + k) (take n xs)"
    by (simp add: drop_take algebra_simps)
  have len: "length (take i xs @ drop (i + k) (take n xs)) = n - k"
    using assms by simp
  show ?thesis
    unfolding B append_assoc [symmetric] take_append_exact [OF len]
    using assms by (simp add: min.absorb1)
qed

lemma update_last: "xs \<noteq> [] \<Longrightarrow> xs[length xs - 1 := x] = butlast xs @ [x]"
  by (induction xs rule: rev_induct) simp_all

lemma concat_map_last:
  "xs \<noteq> [] \<Longrightarrow> concat (map f xs) = concat (map f (butlast xs)) @ f (last xs)"
  by (induction xs rule: rev_induct) simp_all

section \<open>C strings\<close>

text \<open>
  A \<^verbatim>\<open>const char*\<close> is given by the bytes it points to; what \<^verbatim>\<open>strlen\<close> counts are those in front of
  the first zero byte. A list without one stands for memory with the terminator behind it.
\<close>

definition cstr :: "u8 list \<Rightarrow> u8 list" where
  "cstr bs = takeWhile (\<lambda>c. c \<noteq> 0) bs"

lemma cstr_id: "0 \<notin> set bs \<Longrightarrow> cstr bs = bs"
  by (auto simp: cstr_def takeWhile_eq_all_conv)

lemma length_cstr_le: "length (cstr bs) \<le> length bs"
  by (simp add: cstr_def length_takeWhile_le)

lemma take_length_cstr: "take (length (cstr bs)) bs = cstr bs"
  by (simp add: cstr_def takeWhile_eq_take [symmetric])

lemma cstr_append_zero: "0 \<notin> set bs \<Longrightarrow> cstr (bs @ 0 # cs) = bs"
  by (metis (mono_tags) cstr_def takeWhile_tail takeWhile_eq_all_conv append_Nil2)

section \<open>Registers and interrupt lines\<close>

text \<open>\<^verbatim>\<open>merge_u64\<close>, \<^verbatim>\<open>lower_32_bits\<close>, \<^verbatim>\<open>upper_32_bits\<close> of the sources.\<close>

definition merge_u64 :: "u32 \<Rightarrow> u32 \<Rightarrow> u64" where
  "merge_u64 low high = ucast low OR push_bit 32 (ucast high)"

definition lower_32_bits :: "u64 \<Rightarrow> u32" where
  "lower_32_bits x = ucast x"

definition upper_32_bits :: "u64 \<Rightarrow> u32" where
  "upper_32_bits x = ucast (drop_bit 32 x)"

lemma merge_lower_upper [simp]: "merge_u64 (lower_32_bits x) (upper_32_bits x) = x"
  unfolding merge_u64_def lower_32_bits_def upper_32_bits_def
  by (rule bit_word_eqI) (auto simp: bit_simps)

lemma lower_merge [simp]: "lower_32_bits (merge_u64 l h) = l"
  unfolding merge_u64_def lower_32_bits_def
  by (rule bit_word_eqI) (auto simp: bit_simps)

lemma upper_merge [simp]: "upper_32_bits (merge_u64 l h) = h"
  unfolding merge_u64_def upper_32_bits_def
  by (rule bit_word_eqI) (auto simp: bit_simps dest: bit_imp_le_length)

text \<open>Error numbers used by both sides of the register interfaces.\<close>

abbreviation (input) EIO :: nat where "EIO \<equiv> 5"
abbreviation (input) EINVAL :: nat where "EINVAL \<equiv> 22"
abbreviation (input) ENOMEM :: nat where "ENOMEM \<equiv> 12"
abbreviation (input) ENOSYS :: nat where "ENOSYS \<equiv> 38"

section \<open>Word arithmetic without overflow\<close>

lemma ucast_up_down:
  assumes "LENGTH('a::len) \<le> LENGTH('b::len)"
  shows "ucast (ucast (v :: 'a word) :: 'b word) = v"
  by (rule bit_word_eqI) (use assms in \<open>auto simp: bit_simps dest: bit_imp_le_length\<close>)

lemma unat_plus_no_overflow [unat_simps]:
  fixes x y :: "'a::len word"
  assumes "unat x + unat y < 2 ^ LENGTH('a)"
  shows "unat (x + y) = unat x + unat y"
  using assms by (simp add: unat_word_ariths)

lemma unat_minus_no_underflow [unat_simps]:
  fixes x y :: "'a::len word"
  assumes "unat y \<le> unat x"
  shows "unat (x - y) = unat x - unat y"
  using assms by (simp add: unat_sub word_le_nat_alt)

lemma unat_mult_no_overflow [unat_simps]:
  fixes x y :: "'a::len word"
  assumes "unat x * unat y < 2 ^ LENGTH('a)"
  shows "unat (x * y) = unat x * unat y"
  using assms by (simp add: unat_word_ariths)

lemma unat_inj_iff: "unat x = unat y \<longleftrightarrow> x = y"
  by (simp add: word_unat_eq_iff)

lemma unat_take_bit_small [unat_simps]:
  fixes x :: "'a::len word"
  assumes "unat x < 2 ^ k"
  shows "take_bit k x = x"
proof -
  have "unat (take_bit k x) = take_bit k (unat x)"
    by (simp add: unsigned_take_bit_eq)
  also have "\<dots> = unat x"
    using assms by (simp add: take_bit_nat_eq_self)
  finally show ?thesis by (rule unsigned_word_eqI)
qed

lemma not_bit_small:
  fixes x :: "'a::len word"
  assumes "unat x < 2 ^ k"
  shows "\<not> bit x k"
proof -
  have "\<not> bit (take_bit k x) k" by (simp add: bit_take_bit_iff)
  then show ?thesis unfolding unat_take_bit_small [OF assms] .
qed

end
