(* ===== verification/Interfaces.thy ===== *)
theory Interfaces
  imports Prelude
begin

text \<open>
  The contracts between components, as locales: what a client may rely on, and
  the client lemmas that follow. Each is interpreted, in the theory of the
  component that provides it, on the operations of that component.
\<close>

section \<open>Range allocators\<close>

text \<open>
  Ranges are pairs of a start and a length. An allocator hands out ranges of an
  area; the address space device, and through it the guest driver, is its client.
\<close>

definition overlap :: "nat \<times> nat \<Rightarrow> nat \<times> nat \<Rightarrow> bool" where
  "overlap r s \<longleftrightarrow> fst r < fst s + snd s \<and> fst s < fst r + snd r"

definition range_in :: "nat \<Rightarrow> nat \<times> nat \<Rightarrow> bool" where
  "range_in n r \<longleftrightarrow> 0 < snd r \<and> fst r + snd r \<le> n"

text \<open>Giving back a list of ranges, by their starts, as a client does when it goes away.\<close>

fun free_all :: "('s \<Rightarrow> u64 \<Rightarrow> ('s \<times> 'e) res) \<Rightarrow> 's \<Rightarrow> u64 list \<Rightarrow> ('s \<times> 'e list) res" where
  "free_all free s [] = Inr (s, [])"
| "free_all free s (p # ps) =
     rbind (free s p) (\<lambda>(s, e). rbind (free_all free s ps) (\<lambda>(s, es). Inr (s, e # es)))"

text \<open>
  What giving back promises, whoever does it: the allocator itself answers with an error
  number, the guest driver, through the registers of the device, with a negated one.
\<close>

locale range_release =
  fixes inv :: "'s \<Rightarrow> bool"
    and area :: "'s \<Rightarrow> nat"
    and allocated :: "'s \<Rightarrow> (nat \<times> nat) set"
    and free :: "'s \<Rightarrow> u64 \<Rightarrow> ('s \<times> 'e::zero) res"
  assumes free_returns: "inv s \<Longrightarrow> \<exists>s' e. free s p = Inr (s', e)"
    and free_law:
      "inv s \<Longrightarrow> free s p = Inr (s', e) \<Longrightarrow>
       inv s' \<and> area s' = area s \<and>
       (if \<exists>n. (unat p, n) \<in> allocated s
        then e = 0 \<and> allocated s' = allocated s - {r. fst r = unat p}
        else e \<noteq> 0 \<and> allocated s' = allocated s)"
begin

lemma free_all_owned:
  assumes "inv s" "distinct ps" "\<forall>p \<in> set ps. \<exists>n. (unat p, n) \<in> allocated s"
  shows "\<exists>s'. free_all free s ps = Inr (s', replicate (length ps) 0) \<and> inv s' \<and> area s' = area s \<and>
     allocated s' = {r \<in> allocated s. \<forall>p \<in> set ps. fst r \<noteq> unat p}"
  using assms
proof (induction ps arbitrary: s)
  case Nil
  then show ?case by simp
next
  case (Cons p ps)
  obtain s1 e where f: "free s p = Inr (s1, e)"
    using free_returns [OF Cons.prems(1)] by blast
  have s1: "inv s1" "area s1 = area s" "e = 0" "allocated s1 = allocated s - {r. fst r = unat p}"
    using free_law [OF Cons.prems(1) f] Cons.prems(3) by auto
  have "\<forall>q \<in> set ps. \<exists>n. (unat q, n) \<in> allocated s1"
    using Cons.prems(2,3) unfolding s1(4) by (auto simp: unat_inj_iff)
  from Cons.IH [OF s1(1) _ this] Cons.prems(2) obtain s' where
    "free_all free s1 ps = Inr (s', replicate (length ps) 0)" "inv s'" "area s' = area s1"
    "allocated s' = {r \<in> allocated s1. \<forall>q \<in> set ps. fst r \<noteq> unat q}"
    by auto
  then show ?case
    using f s1 by auto
qed

end

locale range_allocator = range_release inv area allocated free
  for inv :: "'s \<Rightarrow> bool"
    and area :: "'s \<Rightarrow> nat"
    and allocated :: "'s \<Rightarrow> (nat \<times> nat) set"
    and free :: "'s \<Rightarrow> u64 \<Rightarrow> ('s \<times> nat) res" +
  fixes room :: "'s \<Rightarrow> bool"
    and allocate :: "'s \<Rightarrow> u64 \<Rightarrow> ('s \<times> u64) res"
    and bad :: u64
  assumes allocate_returns:
      "inv s \<Longrightarrow> room s \<Longrightarrow> 0 < n \<Longrightarrow> \<exists>s' p. allocate s n = Inr (s', p)"
    and allocate_law:
      "inv s \<Longrightarrow> room s \<Longrightarrow> 0 < n \<Longrightarrow> allocate s n = Inr (s', p) \<Longrightarrow>
       inv s' \<and> area s' = area s \<and>
       (if p = bad then s' = s
        else allocated s' = insert (unat p, unat n) (allocated s) \<and> range_in (area s) (unat p, unat n) \<and>
          (\<forall>r \<in> allocated s. \<not> overlap (unat p, unat n) r))"
    and allocated_in_area: "inv s \<Longrightarrow> r \<in> allocated s \<Longrightarrow> range_in (area s) r"
begin

lemma allocate_then_free:
  assumes "inv s" "room s" "0 < n" "allocate s n = Inr (s1, p)" "p \<noteq> bad"
  shows "\<exists>s2. free s1 p = Inr (s2, 0) \<and> inv s2 \<and> allocated s2 = allocated s"
proof -
  have inv1: "inv s1" and al: "allocated s1 = insert (unat p, unat n) (allocated s)"
    and fresh: "range_in (area s) (unat p, unat n)" "\<forall>r \<in> allocated s. \<not> overlap (unat p, unat n) r"
    using allocate_law [OF assms(1-4)] assms(5) by auto
  obtain s2 e where f: "free s1 p = Inr (s2, e)"
    using free_returns [OF inv1] by blast
  have "fst r \<noteq> unat p" if "r \<in> allocated s" for r
    using fresh that allocated_in_area [OF assms(1) that] by (auto simp: overlap_def range_in_def)
  then show ?thesis
    using free_law [OF inv1 f] f al by (auto split: if_splits)
qed

end

section \<open>Bounded queues\<close>

text \<open>
  A queue of bounded capacity, written and read in chunks: a chunk that does not
  fit, or that is not there yet, is refused as a whole and changes nothing. Its
  client lemma is the property a channel is used for: whatever the order of
  writes and reads, the chunks read followed by what is left are what was there
  followed by the chunks accepted.
\<close>

datatype 'a queue_op = Push "'a list" | Pop nat

text \<open>Runs operations, collecting what was accepted and what was taken out.\<close>

fun run_queue ::
  "('q \<Rightarrow> 'a list \<Rightarrow> ('q \<times> bool) res) \<Rightarrow> ('q \<Rightarrow> nat \<Rightarrow> ('q \<times> 'a list option) res) \<Rightarrow>
   'q \<Rightarrow> 'a queue_op list \<Rightarrow> ('q \<times> 'a list \<times> 'a list) res" where
  "run_queue push pop q [] = Inr (q, [], [])"
| "run_queue push pop q (Push xs # ops) =
     rbind (push q xs) (\<lambda>(q, accepted).
     rbind (run_queue push pop q ops) (\<lambda>(q, ins, outs).
       Inr (q, (if accepted then xs @ ins else ins), outs)))"
| "run_queue push pop q (Pop n # ops) =
     rbind (pop q n) (\<lambda>(q, r).
     rbind (run_queue push pop q ops) (\<lambda>(q, ins, outs).
       Inr (q, ins, (case r of None \<Rightarrow> outs | Some ys \<Rightarrow> ys @ outs))))"

fun op_length :: "'a queue_op \<Rightarrow> nat" where
  "op_length (Push xs) = length xs"
| "op_length (Pop n) = n"

locale bounded_queue =
  fixes inv :: "'q \<Rightarrow> bool"
    and contents :: "'q \<Rightarrow> 'a list"
    and cap :: "'q \<Rightarrow> nat"
    and push :: "'q \<Rightarrow> 'a list \<Rightarrow> ('q \<times> bool) res"
    and pop :: "'q \<Rightarrow> nat \<Rightarrow> ('q \<times> 'a list option) res"
    and chunk :: nat
  assumes push_law:
      "inv q \<Longrightarrow> length xs < chunk \<Longrightarrow>
       (if length (contents q) + length xs \<le> cap q
        then \<exists>q'. push q xs = Inr (q', True) \<and> inv q' \<and> contents q' = contents q @ xs \<and> cap q' = cap q
        else push q xs = Inr (q, False))"
    and pop_law:
      "inv q \<Longrightarrow> n < chunk \<Longrightarrow>
       (if n \<le> length (contents q)
        then \<exists>q'. pop q n = Inr (q', Some (take n (contents q))) \<and> inv q' \<and>
          contents q' = drop n (contents q) \<and> cap q' = cap q
        else pop q n = Inr (q, None))"
    and bounded: "inv q \<Longrightarrow> length (contents q) \<le> cap q"
begin

lemma fifo:
  assumes "inv q" "\<forall>x \<in> set ops. op_length x < chunk"
  shows "\<exists>q' ins outs. run_queue push pop q ops = Inr (q', ins, outs) \<and> inv q' \<and> cap q' = cap q \<and>
     outs @ contents q' = contents q @ ins"
  using assms
proof (induction ops arbitrary: q)
  case Nil
  then show ?case by simp
next
  case (Cons x ops)
  have rest: "\<forall>x \<in> set ops. op_length x < chunk" using Cons.prems(2) by simp
  show ?case
  proof (cases x)
    case (Push xs)
    then have xs: "length xs < chunk" using Cons.prems(2) by simp
    show ?thesis
    proof (cases "length (contents q) + length xs \<le> cap q")
      case True
      then obtain q1 where q1: "push q xs = Inr (q1, True)" "inv q1" "contents q1 = contents q @ xs" "cap q1 = cap q"
        using push_law [OF Cons.prems(1) xs] by auto
      from Cons.IH [OF q1(2) rest] q1 Push show ?thesis by auto
    next
      case False
      then have "push q xs = Inr (q, False)"
        using push_law [OF Cons.prems(1) xs] by simp
      with Cons.IH [OF Cons.prems(1) rest] Push show ?thesis by auto
    qed
  next
    case (Pop n)
    then have n: "n < chunk" using Cons.prems(2) by simp
    show ?thesis
    proof (cases "n \<le> length (contents q)")
      case True
      then obtain q1 where q1: "pop q n = Inr (q1, Some (take n (contents q)))" "inv q1"
        "contents q1 = drop n (contents q)" "cap q1 = cap q"
        using pop_law [OF Cons.prems(1) n] by auto
      from Cons.IH [OF q1(2) rest] obtain q' ins outs where
        r: "run_queue push pop q1 ops = Inr (q', ins, outs)" "inv q'" "cap q' = cap q1"
          "outs @ contents q' = contents q1 @ ins"
        by blast
      have "(take n (contents q) @ outs) @ contents q' = contents q @ ins"
        using r(4) q1(3) by (metis append.assoc append_take_drop_id)
      with r q1 Pop show ?thesis by auto
    next
      case False
      then have "pop q n = Inr (q, None)"
        using pop_law [OF Cons.prems(1) n] by simp
      with Cons.IH [OF Cons.prems(1) rest] Pop show ?thesis by auto
    qed
  qed
qed

end

section \<open>Interrupt lines\<close>

text \<open>
  A device is driven by operations: register accesses of the guest and events of the
  host. What the emulated machine relies on is that a device never forgets to raise its
  interrupt line while it has something to say (\<open>irq_source\<close>); a device with a level
  triggered line also takes it back (\<open>level_irq\<close>).
\<close>

fun run_ops :: "('op \<Rightarrow> 's \<Rightarrow> 's res) \<Rightarrow> 'op list \<Rightarrow> 's \<Rightarrow> 's res" where
  "run_ops step [] s = Inr s"
| "run_ops step (x # xs) s = rbind (step x s) (run_ops step xs)"

lemma run_ops_append: "run_ops step (xs @ ys) s = rbind (run_ops step xs s) (run_ops step ys)"
  by (induction xs arbitrary: s) (simp_all add: rbind_def split: sum.splits)

locale irq_source =
  fixes inv :: "'s \<Rightarrow> bool"
    and line :: "'s \<Rightarrow> bool"
    and pending :: "'s \<Rightarrow> bool"
    and step :: "'op \<Rightarrow> 's \<Rightarrow> 's res"
  assumes keeps: "inv s \<Longrightarrow> step x s = Inr s' \<Longrightarrow> inv s'"
    and raised: "inv s \<Longrightarrow> pending s \<Longrightarrow> line s"
begin

lemma run_keeps: "inv s \<Longrightarrow> run_ops step xs s = Inr s' \<Longrightarrow> inv s'"
  by (induction xs arbitrary: s) (auto simp: rbind_eq_Inr_iff intro: keeps)

lemma never_lost: "inv s \<Longrightarrow> run_ops step xs s = Inr s' \<Longrightarrow> pending s' \<Longrightarrow> line s'"
  using run_keeps raised by blast

end

locale level_irq = irq_source +
  assumes lowered: "inv s \<Longrightarrow> line s \<Longrightarrow> pending s"
begin

lemma line_is_pending: "inv s \<Longrightarrow> run_ops step xs s = Inr s' \<Longrightarrow> line s' = pending s'"
  using run_keeps raised lowered by blast

end

end
