(* ===== verification/Address_Allocator.thy ===== *)
theory Address_Allocator
  imports Interfaces
begin

text \<open>
  The address space allocator of \<^verbatim>\<open>aemu/base/include/aemu/base/address_space.h\<close>:
  a dynamic array of address blocks, each marked available or allocated, which
  hands out the smallest block that fits and merges neighbours on release. The
  array is modelled cell by cell (capacity, growth by doubling, \<^verbatim>\<open>memmove\<close>),
  with every assertion and every access checked; the lemmas relate it to the
  list of its live blocks.
\<close>

section \<open>Data\<close>

text \<open>
  The size is a bit field of 63 bits beside the one bit flag: a store into it
  keeps the low 63 bits.
\<close>

record address_block =
  blk_offset :: u64
  blk_size :: u64
  blk_available :: bool

definition bitfield63 :: "u64 \<Rightarrow> u64" where
  "bitfield63 x = take_bit 63 x"

text \<open>
  \<open>blocks\<close> is the heap array, \<open>capacity\<close> its length in cells, \<open>nblocks\<close> the
  field \<^verbatim>\<open>size\<close>: how many cells are in use.
\<close>

record address_space_allocator =
  blocks :: "address_block list"
  nblocks :: nat
  capacity :: nat
  total_bytes :: u64

definition BAD_OFFSET :: u64 where
  "BAD_OFFSET = NOT 0"

text \<open>The cells \<^verbatim>\<open>realloc\<close> adds; no operation reads one before writing it.\<close>

definition fresh_block :: address_block where
  "fresh_block = \<lparr>blk_offset = 0, blk_size = 0, blk_available = False\<rparr>"

definition address_space_realloc :: "address_block list \<Rightarrow> nat \<Rightarrow> address_block list" where
  "address_space_realloc bs n = take n bs @ replicate (n - length bs) fresh_block"

section \<open>Search\<close>

text \<open>An index of the source is \<open>Some i\<close>, its \<^verbatim>\<open>-1\<close> is \<open>None\<close>.\<close>

fun find_available_loop ::
  "address_block list \<Rightarrow> u64 \<Rightarrow> nat \<Rightarrow> nat option \<Rightarrow> u64 \<Rightarrow> nat option res" where
  "find_available_loop [] size_at_least i index size_at_index = Inr index"
| "find_available_loop (b # bs) size_at_least i index size_at_index =
     assert_then (blk_size b > 0)
      (if blk_size b \<ge> size_at_least \<and> blk_available b \<and>
          (index = None \<or> blk_size b < size_at_index)
       then find_available_loop bs size_at_least (Suc i) (Some i) (blk_size b)
       else find_available_loop bs size_at_least (Suc i) index size_at_index)"

definition address_space_allocator_find_available_block ::
  "address_block list \<Rightarrow> nat \<Rightarrow> u64 \<Rightarrow> nat option res" where
  "address_space_allocator_find_available_block bs n_blocks size_at_least =
     assert_then (n_blocks \<ge> 1)
      (if n_blocks \<le> length bs
       then find_available_loop (take n_blocks bs) size_at_least 0 None 0
       else Inl OutOfBounds)"

fun find_at_offset_loop :: "address_block list \<Rightarrow> u64 \<Rightarrow> u64 \<Rightarrow> nat \<Rightarrow> nat option" where
  "find_at_offset_loop [] size_at_least off i = None"
| "find_at_offset_loop (b # bs) size_at_least off i =
     (if blk_size b \<le> 0 then None
      else if blk_size b \<ge> size_at_least \<and> blk_available b \<and>
              off \<ge> blk_offset b \<and> off < blk_offset b + blk_size b
      then Some i
      else find_at_offset_loop bs size_at_least off (Suc i))"

definition address_space_allocator_find_available_block_at_offset ::
  "address_block list \<Rightarrow> nat \<Rightarrow> u64 \<Rightarrow> u64 \<Rightarrow> nat option res" where
  "address_space_allocator_find_available_block_at_offset bs n_blocks size_at_least off =
     (if n_blocks = 0 then Inr None
      else if n_blocks \<le> length bs
      then Inr (find_at_offset_loop (take n_blocks bs) size_at_least off 0)
      else Inl OutOfBounds)"

section \<open>Splitting a block\<close>

text \<open>The capacity is a C \<^verbatim>\<open>int\<close>: doubling past its range is undefined.\<close>

definition address_space_allocator_grow_capacity :: "nat \<Rightarrow> nat res" where
  "address_space_allocator_grow_capacity old_capacity =
     assert_then (old_capacity \<ge> 1)
      (if old_capacity + old_capacity < 2 ^ 31 then Inr (old_capacity + old_capacity)
       else Inl IntOverflow)"

definition grow_to :: "address_space_allocator \<Rightarrow> nat \<Rightarrow> address_space_allocator res" where
  "grow_to a old_capacity =
     rbind (address_space_allocator_grow_capacity old_capacity) (\<lambda>new_capacity.
       Inr (a\<lparr>blocks := address_space_realloc (blocks a) new_capacity,
              capacity := new_capacity\<rparr>))"

text \<open>The assertions both splitting routines open with.\<close>

definition split_asserts :: "address_space_allocator \<Rightarrow> nat \<Rightarrow> u64 \<Rightarrow> bool" where
  "split_asserts a i sz \<longleftrightarrow>
     capacity a \<ge> 1 \<and> nblocks a \<ge> 1 \<and> nblocks a \<le> capacity a \<and>
     i < nblocks a \<and> i < length (blocks a) \<and> sz < blk_size (blocks a ! i)"

text \<open>The result carries the index of the block whose address the source returns.\<close>

definition address_space_allocator_split_block ::
  "address_space_allocator \<Rightarrow> nat \<Rightarrow> u64 \<Rightarrow> (address_space_allocator \<times> nat) res" where
  "address_space_allocator_split_block a i sz =
     assert_then (split_asserts a i sz)
      (rbind (if nblocks a = capacity a then grow_to a (capacity a) else Inr a) (\<lambda>a.
       rbind (memmove (i + 2) (i + 1) (nblocks a - i - 1) (blocks a)) (\<lambda>bs.
       rbind (aread bs i) (\<lambda>to_borrow_from.
         let new_size = blk_size to_borrow_from - sz in
         rbind (awrite bs i (to_borrow_from\<lparr>blk_size := bitfield63 new_size\<rparr>)) (\<lambda>bs.
         rbind (awrite bs (i + 1)
                  \<lparr>blk_offset = blk_offset to_borrow_from + new_size,
                   blk_size = bitfield63 sz, blk_available = True\<rparr>) (\<lambda>bs.
           Inr (a\<lparr>blocks := bs, nblocks := nblocks a + 1\<rparr>, i + 1)))))))"

text \<open>The part of the second splitting routine after its special case.\<close>

definition split_middle ::
  "address_space_allocator \<Rightarrow> nat \<Rightarrow> u64 \<Rightarrow> u64 \<Rightarrow> (address_space_allocator \<times> nat) res" where
  "split_middle a i sz off =
    (let b = blocks a ! i;
         need_extra_block = (blk_size b - sz - (off - blk_offset b) \<noteq> 0);
         new_block_index_offset = (if need_extra_block then 1 else 0) in
     rbind (if nblocks a + new_block_index_offset \<ge> capacity a
            then grow_to a (capacity a + new_block_index_offset) else Inr a) (\<lambda>a.
     rbind (memmove (i + 2 + new_block_index_offset) (i + 1) (nblocks a - i - 1) (blocks a)) (\<lambda>bs.
     rbind (aread bs i) (\<lambda>to_borrow_from.
       let old_block_size = blk_size to_borrow_from;
           kept_size = bitfield63 (off - blk_offset to_borrow_from) in
       rbind (awrite bs i (to_borrow_from\<lparr>blk_size := kept_size\<rparr>)) (\<lambda>bs.
       rbind (awrite bs (i + 1)
                \<lparr>blk_offset = off, blk_size = bitfield63 sz, blk_available = True\<rparr>) (\<lambda>bs.
       rbind (if need_extra_block
              then awrite bs (i + 2)
                     \<lparr>blk_offset = off + sz,
                      blk_size = bitfield63 (old_block_size - sz - kept_size),
                      blk_available = True\<rparr>
              else Inr bs) (\<lambda>bs.
         Inr (a\<lparr>blocks := bs, nblocks := nblocks a + 1 + new_block_index_offset\<rparr>, i + 1))))))))"

function address_space_allocator_split_block_at_offset ::
  "address_space_allocator \<Rightarrow> nat \<Rightarrow> u64 \<Rightarrow> u64 \<Rightarrow> (address_space_allocator \<times> nat) res" where
  "address_space_allocator_split_block_at_offset a i sz off =
     (if split_asserts a i sz \<and> off \<ge> blk_offset (blocks a ! i)
      then if off = blk_offset (blocks a ! i)
           then if sz < blk_size (blocks a ! i)
                then rbind (address_space_allocator_split_block_at_offset a i
                              (blk_size (blocks a ! i) - sz) (off + sz))
                       (\<lambda>(a, _). Inr (a, i))
                else Inr (a, i)
           else split_middle a i sz off
      else Inl AssertFail)"
  by pat_completeness auto
termination
proof (relation "measure (\<lambda>(a, i, sz, off).
    if split_asserts a i sz \<and> off = blk_offset (blocks a ! i) then 1 else 0)", goal_cases)
  case 1
  show ?case by simp
next
  case (2 a i sz off)
  then have "sz \<noteq> 0 \<Longrightarrow> off + sz \<noteq> blk_offset (blocks a ! i)" by simp
  moreover have "\<not> split_asserts a i (blk_size (blocks a ! i) - 0)"
    by (simp add: split_asserts_def)
  ultimately show ?case
    using 2 by (cases "sz = 0") auto
qed

section \<open>Releasing a block\<close>

definition address_space_allocator_release_block ::
  "address_space_allocator \<Rightarrow> nat \<Rightarrow> address_space_allocator res" where
  "address_space_allocator_release_block a i =
    (let sz = nblocks a; after = i + 1 in
     assert_then (i < sz)
      (rbind (aread (blocks a) i) (\<lambda>b.
       rbind (awrite (blocks a) i (b\<lparr>blk_available := True\<rparr>)) (\<lambda>bs.
       rbind (if i = 0 then Inr False else rbind (aread bs (i - 1)) (\<lambda>p. Inr (blk_available p))) (\<lambda>merge_before.
       rbind (if after < sz then rbind (aread bs after) (\<lambda>n. Inr (blk_available n)) else Inr False) (\<lambda>merge_after.
         if merge_before then
           if merge_after then
             rbind (aread bs (i - 1)) (\<lambda>p. rbind (aread bs i) (\<lambda>b. rbind (aread bs after) (\<lambda>n.
             rbind (awrite bs (i - 1) (p\<lparr>blk_size := bitfield63 (blk_size p + (blk_size b + blk_size n))\<rparr>)) (\<lambda>bs.
             rbind (memmove i (i + 2) (sz - 2 - i) bs) (\<lambda>bs.
               Inr (a\<lparr>blocks := bs, nblocks := sz - 2\<rparr>))))))
           else
             rbind (aread bs (i - 1)) (\<lambda>p. rbind (aread bs i) (\<lambda>b.
             rbind (awrite bs (i - 1) (p\<lparr>blk_size := bitfield63 (blk_size p + blk_size b)\<rparr>)) (\<lambda>bs.
             rbind (memmove i (i + 1) (sz - 1 - i) bs) (\<lambda>bs.
               Inr (a\<lparr>blocks := bs, nblocks := sz - 1\<rparr>)))))
         else if merge_after then
           rbind (aread bs i) (\<lambda>b. rbind (aread bs after) (\<lambda>n.
           rbind (awrite bs i (b\<lparr>blk_size := bitfield63 (blk_size b + blk_size n)\<rparr>)) (\<lambda>bs.
           rbind (memmove after (after + 1) (sz - 1 - after) bs) (\<lambda>bs.
             Inr (a\<lparr>blocks := bs, nblocks := sz - 1\<rparr>)))))
         else Inr (a\<lparr>blocks := bs\<rparr>)))))))"

section \<open>The interface\<close>

definition mark_allocated ::
  "address_space_allocator \<Rightarrow> nat \<Rightarrow> u64 \<Rightarrow> (address_space_allocator \<times> u64) res" where
  "mark_allocated a i sz =
     rbind (aread (blocks a) i) (\<lambda>b.
       assert_then (blk_size b = sz)
        (rbind (awrite (blocks a) i (b\<lparr>blk_available := False\<rparr>)) (\<lambda>bs.
          Inr (a\<lparr>blocks := bs\<rparr>, blk_offset b))))"

definition address_space_allocator_allocate ::
  "address_space_allocator \<Rightarrow> u64 \<Rightarrow> (address_space_allocator \<times> u64) res" where
  "address_space_allocator_allocate a sz =
     rbind (address_space_allocator_find_available_block (blocks a) (nblocks a) sz) (\<lambda>index.
       case index of
         None \<Rightarrow> Inr (a, BAD_OFFSET)
       | Some i \<Rightarrow>
           assert_then (i < nblocks a)
            (rbind (aread (blocks a) i) (\<lambda>b.
             assert_then (blk_size b \<ge> sz)
              (rbind (if blk_size b > sz then address_space_allocator_split_block a i sz
                      else Inr (a, i)) (\<lambda>(a, j).
                 mark_allocated a j sz)))))"

definition address_space_allocator_allocate_fixed ::
  "address_space_allocator \<Rightarrow> u64 \<Rightarrow> u64 \<Rightarrow> (address_space_allocator \<times> int) res" where
  "address_space_allocator_allocate_fixed a sz off =
     rbind (address_space_allocator_find_available_block_at_offset (blocks a) (nblocks a) sz off)
      (\<lambda>index.
        case index of
          None \<Rightarrow> Inr (a, -1)
        | Some i \<Rightarrow>
            assert_then (i < nblocks a)
             (rbind (aread (blocks a) i) (\<lambda>b.
              assert_then (blk_size b \<ge> sz)
               (rbind (if blk_size b > sz
                       then address_space_allocator_split_block_at_offset a i sz off
                       else Inr (a, i)) (\<lambda>(a, j).
                rbind (mark_allocated a j sz) (\<lambda>(a, _). Inr (a, 0)))))))"

fun deallocate_loop ::
  "address_space_allocator \<Rightarrow> address_block list \<Rightarrow> u64 \<Rightarrow> nat \<Rightarrow> (address_space_allocator \<times> nat) res" where
  "deallocate_loop a [] off i = Inr (a, EINVAL)"
| "deallocate_loop a (b # bs) off i =
     (if blk_offset b = off
      then if blk_available b then Inr (a, EINVAL)
           else rbind (address_space_allocator_release_block a i) (\<lambda>a. Inr (a, 0))
      else deallocate_loop a bs off (Suc i))"

definition address_space_allocator_deallocate ::
  "address_space_allocator \<Rightarrow> u64 \<Rightarrow> (address_space_allocator \<times> nat) res" where
  "address_space_allocator_deallocate a off =
     assert_then (nblocks a \<ge> 1)
      (if nblocks a \<le> length (blocks a)
       then deallocate_loop a (take (nblocks a) (blocks a)) off 0
       else Inl OutOfBounds)"

text \<open>The uninitialised allocator the caller passes in is overwritten in every field.\<close>

definition address_space_allocator_init ::
  "u64 \<Rightarrow> nat \<Rightarrow> address_space_allocator res" where
  "address_space_allocator_init sz initial_capacity =
     assert_then (initial_capacity \<ge> 1)
      (rbind (awrite (replicate initial_capacity fresh_block) 0
               \<lparr>blk_offset = 0, blk_size = bitfield63 sz, blk_available = True\<rparr>) (\<lambda>bs.
        Inr \<lparr>blocks = bs, nblocks = 1, capacity = initial_capacity, total_bytes = sz\<rparr>))"

text \<open>Destruction frees the array: what is left is that its assertions hold.\<close>

definition address_space_allocator_destroy :: "address_space_allocator \<Rightarrow> unit res" where
  "address_space_allocator_destroy a =
     assert_then (nblocks a = 1)
      (assert_then (capacity a \<ge> nblocks a)
        (rbind (aread (blocks a) 0) (\<lambda>b. assert_then (blk_available b) (Inr ()))))"

definition address_space_allocator_reset ::
  "address_space_allocator \<Rightarrow> address_space_allocator res" where
  "address_space_allocator_reset a =
     assert_then (nblocks a \<ge> 1)
      (rbind (awrite (blocks a) 0
               \<lparr>blk_offset = 0, blk_size = bitfield63 (total_bytes a), blk_available = True\<rparr>) (\<lambda>bs.
        Inr (a\<lparr>nblocks := 1, blocks := bs\<rparr>)))"

text \<open>
  Both callbacks may change what they are given; the number of blocks visited is
  read after the first one has run.
\<close>

fun run_blocks ::
  "(address_block \<Rightarrow> 'c \<Rightarrow> (address_block \<times> 'c) res) \<Rightarrow> address_block list \<Rightarrow> nat \<Rightarrow> nat \<Rightarrow> 'c \<Rightarrow>
   (address_block list \<times> 'c) res" where
  "run_blocks block_func bs i 0 context = Inr (bs, context)"
| "run_blocks block_func bs i (Suc n) context =
     rbind (aread bs i) (\<lambda>b.
     rbind (block_func b context) (\<lambda>(b, context).
     rbind (awrite bs i b) (\<lambda>bs.
       run_blocks block_func bs (i + 1) n context)))"

definition address_space_allocator_run ::
  "address_space_allocator \<Rightarrow> 'c \<Rightarrow>
   (address_space_allocator \<Rightarrow> 'c \<Rightarrow> (address_space_allocator \<times> 'c) res) \<Rightarrow>
   (address_block \<Rightarrow> 'c \<Rightarrow> (address_block \<times> 'c) res) \<Rightarrow> (address_space_allocator \<times> 'c) res" where
  "address_space_allocator_run a context allocator_func block_func =
     rbind (allocator_func a context) (\<lambda>(a, context).
       assert_then (nblocks a \<ge> 1)
        (rbind (run_blocks block_func (blocks a) 0 (nblocks a) context) (\<lambda>(bs, context).
          Inr (a\<lparr>blocks := bs\<rparr>, context))))"

section \<open>Invariant and abstraction\<close>

text \<open>
  The live blocks tile the area from 0 to \<open>total_bytes\<close> without gaps, no block
  is empty and no two neighbours are both available.
\<close>

definition live :: "address_space_allocator \<Rightarrow> address_block list" where
  "live a = take (nblocks a) (blocks a)"

fun chain :: "nat \<Rightarrow> address_block list \<Rightarrow> bool" where
  "chain p [] \<longleftrightarrow> True"
| "chain p (b # bs) \<longleftrightarrow>
     unat (blk_offset b) = p \<and> 0 < blk_size b \<and> chain (p + unat (blk_size b)) bs"

definition bytes :: "address_block list \<Rightarrow> nat" where
  "bytes bs = sum_list (map (\<lambda>b. unat (blk_size b)) bs)"

fun coalesced :: "address_block list \<Rightarrow> bool" where
  "coalesced (b # c # bs) \<longleftrightarrow> \<not> (blk_available b \<and> blk_available c) \<and> coalesced (c # bs)"
| "coalesced _ \<longleftrightarrow> True"

definition array_ok :: "address_space_allocator \<Rightarrow> bool" where
  "array_ok a \<longleftrightarrow> length (blocks a) = capacity a \<and> 1 \<le> nblocks a \<and> nblocks a \<le> capacity a"

definition alloc_inv :: "address_space_allocator \<Rightarrow> bool" where
  "alloc_inv a \<longleftrightarrow> array_ok a \<and> chain 0 (live a) \<and> coalesced (live a) \<and>
     bytes (live a) = unat (total_bytes a) \<and> unat (total_bytes a) < 2 ^ 63"

text \<open>What clients see: the allocated ranges, as (offset, length).\<close>

definition range_of :: "address_block \<Rightarrow> nat \<times> nat" where
  "range_of b = (unat (blk_offset b), unat (blk_size b))"

definition ranges :: "address_block list \<Rightarrow> (nat \<times> nat) set" where
  "ranges bs = range_of ` set (filter (\<lambda>b. \<not> blk_available b) bs)"

definition regions :: "address_space_allocator \<Rightarrow> (nat \<times> nat) set" where
  "regions a = ranges (live a)"

lemma finite_regions [simp]: "finite (regions a)"
  by (simp add: regions_def ranges_def)

definition fits :: "u64 \<Rightarrow> address_block \<Rightarrow> bool" where
  "fits sz b \<longleftrightarrow> blk_available b \<and> sz \<le> blk_size b"

lemma bytes_simps [simp]:
  "bytes [] = 0"
  "bytes (b # bs) = unat (blk_size b) + bytes bs"
  "bytes (xs @ ys) = bytes xs + bytes ys"
  by (simp_all add: bytes_def)

lemma ranges_simps [simp]:
  "ranges [] = {}"
  "ranges (b # bs) = (if blk_available b then ranges bs else insert (range_of b) (ranges bs))"
  "ranges (xs @ ys) = ranges xs \<union> ranges ys"
  by (auto simp: ranges_def)

lemma range_of_update [simp]:
  "range_of (b\<lparr>blk_available := v\<rparr>) = range_of b"
  "range_of \<lparr>blk_offset = p, blk_size = n, blk_available = v\<rparr> = (unat p, unat n)"
  by (simp_all add: range_of_def)

lemma chain_append [simp]: "chain p (xs @ ys) \<longleftrightarrow> chain p xs \<and> chain (p + bytes xs) ys"
  by (induction xs arbitrary: p) (auto simp: add.assoc)

lemma coalesced_Cons:
  "coalesced (b # bs) \<longleftrightarrow>
     coalesced bs \<and> (bs \<noteq> [] \<longrightarrow> \<not> (blk_available b \<and> blk_available (hd bs)))"
  by (cases bs) auto

lemma coalesced_append:
  "coalesced (xs @ ys) \<longleftrightarrow> coalesced xs \<and> coalesced ys \<and>
     (xs \<noteq> [] \<and> ys \<noteq> [] \<longrightarrow> \<not> (blk_available (last xs) \<and> blk_available (hd ys)))"
  by (induction xs) (auto simp: coalesced_Cons hd_append)

lemma chain_bounds:
  assumes "chain p bs" "b \<in> set bs"
  shows "p \<le> unat (blk_offset b)"
    and "unat (blk_offset b) + unat (blk_size b) \<le> p + bytes bs"
    and "0 < unat (blk_size b)"
  using assms by (induction bs arbitrary: p) (fastforce simp: word_less_nat_alt)+

lemma chain_disjoint:
  assumes "chain p (xs @ b # ys)" "c \<in> set xs \<union> set ys"
  shows "\<not> overlap (range_of b) (range_of c)"
proof -
  from assms(1) have xs: "chain p xs" and b: "unat (blk_offset b) = p + bytes xs"
    and ys: "chain (p + bytes xs + unat (blk_size b)) ys"
    by auto
  show ?thesis
    using assms(2) chain_bounds [OF xs, of c] chain_bounds [OF ys, of c] b
    by (auto simp: overlap_def range_of_def)
qed

lemma live_nth: "array_ok a \<Longrightarrow> i < nblocks a \<Longrightarrow> live a ! i = blocks a ! i"
  by (simp add: live_def array_ok_def)

lemma length_live [simp]: "array_ok a \<Longrightarrow> length (live a) = nblocks a"
  by (simp add: live_def array_ok_def)

lemma live_split:
  assumes "array_ok a" "i < nblocks a"
  shows "live a = take i (live a) @ blocks a ! i # drop (Suc i) (live a)"
  using assms id_take_nth_drop [of i "live a"] by (simp add: live_nth)

lemma bitfield63_small [unat_simps]: "unat x < 2 ^ 63 \<Longrightarrow> bitfield63 x = x"
  by (simp add: bitfield63_def unat_simps)

lemma alloc_invD:
  assumes "alloc_inv a"
  shows "array_ok a" "chain 0 (live a)" "coalesced (live a)"
    "bytes (live a) = unat (total_bytes a)" "unat (total_bytes a) < 2 ^ 63"
  using assms by (auto simp: alloc_inv_def)

lemma live_block_bounds:
  assumes "alloc_inv a" "i < nblocks a"
  shows "unat (blk_offset (blocks a ! i)) + unat (blk_size (blocks a ! i)) \<le> unat (total_bytes a)"
    and "0 < unat (blk_size (blocks a ! i))"
proof -
  from assms have "blocks a ! i \<in> set (live a)"
    by (metis alloc_invD(1) length_live live_nth nth_mem)
  then show "unat (blk_offset (blocks a ! i)) + unat (blk_size (blocks a ! i)) \<le> unat (total_bytes a)"
    and "0 < unat (blk_size (blocks a ! i))"
    using chain_bounds [OF alloc_invD(2) [OF assms(1)]] alloc_invD(4) [OF assms(1)] by auto
qed

section \<open>Search: best fit\<close>

definition best :: "u64 \<Rightarrow> address_block list \<Rightarrow> nat option \<Rightarrow> u64 \<Rightarrow> bool" where
  "best sz bs index size_at_index \<longleftrightarrow>
    (case index of
       None \<Rightarrow> (\<forall>b \<in> set bs. \<not> fits sz b)
     | Some k \<Rightarrow> k < length bs \<and> fits sz (bs ! k) \<and> size_at_index = blk_size (bs ! k) \<and>
         (\<forall>b \<in> set bs. fits sz b \<longrightarrow> size_at_index \<le> blk_size b))"

lemma best_Nil: "best sz [] None s"
  by (simp add: best_def)

lemma find_available_loop_best:
  assumes "\<forall>b \<in> set bs. 0 < blk_size b" "best sz pre index s"
  shows "\<exists>r s'. find_available_loop bs sz (length pre) index s = Inr r \<and> best sz (pre @ bs) r s'"
  using assms
proof (induction bs arbitrary: pre index s)
  case Nil
  then show ?case by auto
next
  case (Cons b bs)
  let ?hit = "sz \<le> blk_size b \<and> blk_available b \<and> (index = None \<or> blk_size b < s)"
  have "best sz (pre @ [b]) (if ?hit then Some (length pre) else index)
          (if ?hit then blk_size b else s)"
    using Cons.prems(2)
    by (auto simp: best_def fits_def nth_append split: option.splits)
  from Cons.IH [OF _ this] Cons.prems(1) show ?case
    by (auto split: if_splits)
qed

lemma find_available_block_best:
  assumes "alloc_inv a"
  shows "\<exists>r s. address_space_allocator_find_available_block (blocks a) (nblocks a) sz = Inr r \<and>
           best sz (live a) r s"
proof -
  have "\<forall>b \<in> set (live a). 0 < blk_size b"
    using chain_bounds(3) [OF alloc_invD(2) [OF assms]] by (auto simp: word_less_nat_alt)
  from find_available_loop_best [OF this best_Nil] alloc_invD(1) [OF assms] show ?thesis
    by (auto simp: address_space_allocator_find_available_block_def array_ok_def live_def)
qed

section \<open>The array routines on the list of live blocks\<close>

lemma length_realloc: "length bs \<le> n \<Longrightarrow> length (address_space_realloc bs n) = n"
  by (simp add: address_space_realloc_def)

lemma take_realloc: "m \<le> length bs \<Longrightarrow> length bs \<le> n \<Longrightarrow> take m (address_space_realloc bs n) = take m bs"
  by (simp add: address_space_realloc_def)

lemma grow_to_ok:
  assumes "array_ok a" "capacity a \<le> c" "1 \<le> c" "c < 2 ^ 30"
  obtains a' where "grow_to a c = Inr a'" "array_ok a'" "live a' = live a"
    "nblocks a' = nblocks a" "capacity a' = 2 * c" "total_bytes a' = total_bytes a"
proof -
  let ?a = "a\<lparr>blocks := address_space_realloc (blocks a) (2 * c), capacity := 2 * c\<rparr>"
  have "grow_to a c = Inr ?a"
    using assms by (simp add: grow_to_def address_space_allocator_grow_capacity_def mult_2)
  moreover have "array_ok ?a" "live ?a = live a"
    using assms by (simp_all add: array_ok_def live_def length_realloc take_realloc)
  ultimately show thesis using that by simp
qed

lemma live_update:
  assumes "array_ok a" "i < nblocks a"
  shows "live (a\<lparr>blocks := (blocks a)[i := b]\<rparr>) = (live a)[i := b]"
  using assms by (simp add: live_def take_update_swap)

lemma split_block_live:
  assumes a: "array_ok a" and cap: "capacity a < 2 ^ 30"
    and i: "i < nblocks a" and sz: "sz < blk_size (blocks a ! i)"
  defines "b \<equiv> blocks a ! i"
  shows "\<exists>a'. address_space_allocator_split_block a i sz = Inr (a', i + 1) \<and>
     array_ok a' \<and> total_bytes a' = total_bytes a \<and>
     live a' = take i (live a) @
       [b\<lparr>blk_size := bitfield63 (blk_size b - sz)\<rparr>,
        \<lparr>blk_offset = blk_offset b + (blk_size b - sz), blk_size = bitfield63 sz, blk_available = True\<rparr>]
       @ drop (Suc i) (live a)"
proof -
  have asserts: "split_asserts a i sz"
    using a i sz by (simp add: split_asserts_def array_ok_def)
  obtain a1 where a1: "(if nblocks a = capacity a then grow_to a (capacity a) else Inr a) = Inr a1"
    "array_ok a1" "live a1 = live a" "nblocks a1 = nblocks a" "nblocks a1 < capacity a1"
    "total_bytes a1 = total_bytes a"
  proof (cases "nblocks a = capacity a")
    case True
    have pre: "capacity a \<le> capacity a" "1 \<le> capacity a"
      using a by (auto simp: array_ok_def)
    obtain a1 where "grow_to a (capacity a) = Inr a1" "array_ok a1" "live a1 = live a"
      "nblocks a1 = nblocks a" "capacity a1 = 2 * capacity a" "total_bytes a1 = total_bytes a"
      by (rule grow_to_ok [OF a pre cap])
    with True pre show thesis using that [of a1] by simp
  next
    case False
    with a show thesis using that [of a] by (simp add: array_ok_def)
  qed
  have b: "blocks a1 ! i = b"
    unfolding b_def using live_nth [OF a i] live_nth [OF a1(2), of i] a1(3,4) i by simp
  let ?n = "nblocks a1" and ?xs = "blocks a1"
  let ?p = "b\<lparr>blk_size := bitfield63 (blk_size b - sz)\<rparr>"
  let ?q = "\<lparr>blk_offset = blk_offset b + (blk_size b - sz), blk_size = bitfield63 sz, blk_available = True\<rparr>"
  let ?ys = "take (i + 2) ?xs @ take (?n - i - 1) (drop (i + 1) ?xs) @ drop (?n + 1) ?xs"
  have len: "length ?xs = capacity a1" "?n + 1 \<le> length ?xs" "i < ?n"
    using a1 i by (auto simp: array_ok_def)
  have mm: "memmove (i + 2) (i + 1) (?n - i - 1) ?xs = Inr ?ys"
    using len by (simp add: memmove_ok)
  have ylen: "length ?ys = length ?xs"
    using len by simp
  have "?ys ! i = b"
    using len b by (simp add: nth_append)
  then have run: "address_space_allocator_split_block a i sz =
      Inr (a1\<lparr>blocks := ?ys[i := ?p, Suc i := ?q], nblocks := ?n + 1\<rparr>, i + 1)"
    using asserts a1(1) mm ylen len
    by (simp add: address_space_allocator_split_block_def Let_def aread_ok awrite_ok del: append_assoc)
  show ?thesis
    unfolding run
  proof (intro exI conjI)
    show "live (a1\<lparr>blocks := ?ys[i := ?p, Suc i := ?q], nblocks := ?n + 1\<rparr>) =
        take i (live a) @ [?p, ?q] @ drop (Suc i) (live a)"
      unfolding a1(3) [symmetric]
      using take_open_gap_1 [OF len(3,2), of ?p ?q] by (simp add: live_def)
  qed (use a1 ylen len in \<open>auto simp: array_ok_def\<close>)
qed

lemma mark_allocated_live:
  assumes "array_ok a" "i < nblocks a" "blk_size (live a ! i) = sz"
  shows "\<exists>a'. mark_allocated a i sz = Inr (a', blk_offset (live a ! i)) \<and> array_ok a' \<and>
     total_bytes a' = total_bytes a \<and>
     live a' = (live a)[i := (live a ! i)\<lparr>blk_available := False\<rparr>]"
  using assms live_update [OF assms(1,2)] live_nth [OF assms(1,2)]
  by (auto simp: mark_allocated_def aread_ok awrite_ok array_ok_def)

section \<open>Allocation\<close>

text \<open>
  Both ways to serve a request, on the list: the whole block, or its tail.
\<close>

lemma serve_whole:
  assumes L: "live a = xs @ b # ys" and inv: "alloc_inv a" and av: "blk_available b"
    and a': "array_ok a'" "total_bytes a' = total_bytes a"
      "live a' = xs @ b\<lparr>blk_available := False\<rparr> # ys"
  shows "alloc_inv a'" and "regions a' = insert (range_of b) (regions a)"
proof -
  have "chain 0 (live a')" "bytes (live a') = bytes (live a)"
    using alloc_invD(2) [OF inv] unfolding L a'(3) by simp_all
  moreover have "coalesced (live a')"
    using alloc_invD(3) [OF inv] unfolding L a'(3)
    by (simp add: coalesced_append coalesced_Cons)
  ultimately show "alloc_inv a'"
    using inv a'(1,2) by (simp add: alloc_inv_def)
  show "regions a' = insert (range_of b) (regions a)"
    unfolding regions_def L a'(3) using av by simp
qed

lemma serve_tail:
  assumes L: "live a = xs @ b # ys" and inv: "alloc_inv a" and av: "blk_available b"
    and sz: "0 < sz" "sz < blk_size b"
    and a': "array_ok a'" "total_bytes a' = total_bytes a"
      "live a' = xs @ b\<lparr>blk_size := bitfield63 (blk_size b - sz)\<rparr> #
        \<lparr>blk_offset = blk_offset b + (blk_size b - sz), blk_size = bitfield63 sz,
         blk_available = False\<rparr> # ys"
  shows "alloc_inv a'"
    and "regions a' = insert (unat (blk_offset b + (blk_size b - sz)), unat sz) (regions a)"
    and "unat (blk_offset b + (blk_size b - sz)) = unat (blk_offset b) + (unat (blk_size b) - unat sz)"
proof -
  have bound: "unat (blk_offset b) + unat (blk_size b) \<le> unat (total_bytes a)"
    using chain_bounds(2) [OF alloc_invD(2) [OF inv], of b] alloc_invD(4) [OF inv] L by simp
  then have small: "unat (blk_offset b) + unat (blk_size b) < 2 ^ 63"
    using alloc_invD(5) [OF inv] by linarith
  have sz': "0 < unat sz" "unat sz < unat (blk_size b)"
    using sz by (auto simp: word_less_nat_alt)
  have diff: "unat (blk_size b - sz) = unat (blk_size b) - unat sz"
    using sz' by (simp add: unat_simps)
  have bf: "bitfield63 (blk_size b - sz) = blk_size b - sz" "bitfield63 sz = sz"
    using small sz' by (auto intro!: bitfield63_small simp: diff)
  show off: "unat (blk_offset b + (blk_size b - sz)) = unat (blk_offset b) + (unat (blk_size b) - unat sz)"
    using small sz' by (subst unat_plus_no_overflow) (simp_all add: diff)
  have chain: "chain 0 (live a')"
    using alloc_invD(2) [OF inv] sz' unfolding L a'(3) bf
    by (simp add: off diff word_less_nat_alt add.assoc)
  have coal: "coalesced (live a')"
    using alloc_invD(3) [OF inv] unfolding L a'(3)
    by (simp add: coalesced_append coalesced_Cons)
  have "bytes (live a') = bytes (live a)"
    using sz' unfolding L a'(3) bf by (simp add: diff)
  with chain coal inv a'(1,2) show "alloc_inv a'"
    by (simp add: alloc_inv_def)
  show "regions a' = insert (unat (blk_offset b + (blk_size b - sz)), unat sz) (regions a)"
    unfolding regions_def L a'(3) bf using av by simp
qed

lemma take_drop_live:
  assumes "alloc_inv a" "i < nblocks a"
  shows "live a = take i (live a) @ live a ! i # drop (Suc i) (live a)"
    "live a ! i \<in> set (live a)"
  using id_take_nth_drop [of i "live a"] assms alloc_invD(1) [OF assms(1)] by simp_all

lemma update_second: "(xs @ [p, q] @ ys)[Suc (length xs) := r] = xs @ p # r # ys"
  by (simp add: list_update_append)

text \<open>What one allocation request of a positive size does, found or not.\<close>

lemma allocate_cases:
  assumes inv: "alloc_inv a" and sz: "0 < sz" and cap: "capacity a < 2 ^ 30"
  obtains
    (full) "\<forall>b \<in> set (live a). \<not> fits sz b"
      "address_space_allocator_allocate a sz = Inr (a, BAD_OFFSET)"
  | (whole) xs b ys a' where "live a = xs @ b # ys" "fits sz b" "blk_size b = sz"
      "\<forall>c \<in> set (live a). fits sz c \<longrightarrow> blk_size b \<le> blk_size c"
      "address_space_allocator_allocate a sz = Inr (a', blk_offset b)"
      "array_ok a'" "total_bytes a' = total_bytes a"
      "live a' = xs @ b\<lparr>blk_available := False\<rparr> # ys"
  | (tail) xs b ys a' where "live a = xs @ b # ys" "fits sz b" "sz < blk_size b"
      "\<forall>c \<in> set (live a). fits sz c \<longrightarrow> blk_size b \<le> blk_size c"
      "address_space_allocator_allocate a sz = Inr (a', blk_offset b + (blk_size b - sz))"
      "array_ok a'" "total_bytes a' = total_bytes a"
      "live a' = xs @ b\<lparr>blk_size := bitfield63 (blk_size b - sz)\<rparr> #
        \<lparr>blk_offset = blk_offset b + (blk_size b - sz), blk_size = bitfield63 sz,
         blk_available = False\<rparr> # ys"
proof -
  note ok = alloc_invD(1) [OF inv]
  obtain r s where find: "address_space_allocator_find_available_block (blocks a) (nblocks a) sz = Inr r"
    and best: "best sz (live a) r s"
    using find_available_block_best [OF inv] by blast
  show thesis
  proof (cases r)
    case None
    with find best show thesis
      by (intro full) (auto simp: best_def address_space_allocator_allocate_def)
  next
    case (Some i)
    let ?b = "live a ! i" and ?xs = "take i (live a)" and ?ys = "drop (Suc i) (live a)"
    from best Some ok have i: "i < nblocks a" and fit: "fits sz ?b"
      and least: "\<forall>c \<in> set (live a). fits sz c \<longrightarrow> blk_size ?b \<le> blk_size c"
      by (auto simp: best_def)
    have b: "blocks a ! i = ?b" and len: "i < length (blocks a)" "length ?xs = i"
      using live_nth [OF ok i] ok i by (auto simp: array_ok_def)
    have L: "live a = ?xs @ ?b # ?ys"
      using take_drop_live(1) [OF inv i] .
    have run: "address_space_allocator_allocate a sz =
        rbind (if sz < blk_size ?b then address_space_allocator_split_block a i sz else Inr (a, i))
          (\<lambda>(a, j). mark_allocated a j sz)"
      using find Some i fit len b
      by (simp add: address_space_allocator_allocate_def aread_ok fits_def)
    show thesis
    proof (cases "sz < blk_size ?b")
      case False
      with fit have eq: "blk_size ?b = sz" by (simp add: fits_def)
      from mark_allocated_live [OF ok i eq] obtain a' where a':
        "mark_allocated a i sz = Inr (a', blk_offset ?b)" "array_ok a'"
        "total_bytes a' = total_bytes a" "live a' = (live a)[i := ?b\<lparr>blk_available := False\<rparr>]"
        by blast
      have upd: "(live a)[i := ?b\<lparr>blk_available := False\<rparr>] = ?xs @ ?b\<lparr>blk_available := False\<rparr> # ?ys"
        using i ok by (simp add: upd_conv_take_nth_drop)
      show thesis
        using run False a' upd by (intro whole [OF L fit eq least, of a']) simp_all
    next
      case True
      let ?p = "?b\<lparr>blk_size := bitfield63 (blk_size ?b - sz)\<rparr>"
      let ?q = "\<lparr>blk_offset = blk_offset ?b + (blk_size ?b - sz), blk_size = bitfield63 sz,
          blk_available = True\<rparr>"
      from split_block_live [OF ok cap i] True obtain a1 where a1:
        "address_space_allocator_split_block a i sz = Inr (a1, i + 1)" "array_ok a1"
        "total_bytes a1 = total_bytes a" "live a1 = ?xs @ [?p, ?q] @ ?ys"
        unfolding b by blast
      have "unat sz < 2 ^ 63"
        using True live_block_bounds(1) [OF inv i] alloc_invD(5) [OF inv]
        unfolding b by (simp add: word_less_nat_alt)
      then have q: "live a1 ! (i + 1) = ?q" "blk_size (live a1 ! (i + 1)) = sz"
        using a1(4) len by (simp_all add: nth_append bitfield63_small)
      have i1: "i + 1 < nblocks a1"
        using a1(4) len length_live [OF a1(2)] by simp
      from mark_allocated_live [OF a1(2) i1 q(2)] obtain a' where a':
        "mark_allocated a1 (i + 1) sz = Inr (a', blk_offset ?q)" "array_ok a'"
        "total_bytes a' = total_bytes a1" "live a' = (live a1)[i + 1 := ?q\<lparr>blk_available := False\<rparr>]"
        unfolding q(1) by blast
      have upd: "live a' = ?xs @ ?p # ?q\<lparr>blk_available := False\<rparr> # ?ys"
        using update_second [of ?xs ?p ?q ?ys] len unfolding a'(4) a1(4) by simp
      show thesis
        using run True a1 a' upd by (intro tail [OF L fit True least, of a']) simp_all
    qed
  qed
qed

text \<open>
  The contract of an allocation: it never faults; a refusal leaves the state
  alone and happens only when no available block fits; a success returns a range
  inside the area that meets no allocated range, and allocates exactly it.
\<close>

abbreviation in_area :: "address_space_allocator \<Rightarrow> nat \<times> nat \<Rightarrow> bool" where
  "in_area a \<equiv> range_in (unat (total_bytes a))"

definition allocation_ok ::
  "address_space_allocator \<Rightarrow> u64 \<Rightarrow> address_space_allocator \<Rightarrow> u64 \<Rightarrow> bool" where
  "allocation_ok a sz a' off \<longleftrightarrow>
     (if off = BAD_OFFSET then a' = a \<and> (\<forall>b \<in> set (live a). \<not> fits sz b)
      else total_bytes a' = total_bytes a \<and>
        regions a' = insert (unat off, unat sz) (regions a) \<and>
        in_area a (unat off, unat sz) \<and>
        (\<forall>r \<in> regions a. \<not> overlap (unat off, unat sz) r))"

lemma not_BAD_OFFSET: "unat off < 2 ^ 63 \<Longrightarrow> off \<noteq> BAD_OFFSET"
  by (auto simp: BAD_OFFSET_def unsigned_minus_1_eq_mask mask_eq_exp_minus_1)

lemma regions_subset: "r \<in> regions a \<Longrightarrow> \<exists>b \<in> set (live a). \<not> blk_available b \<and> r = range_of b"
  by (auto simp: regions_def ranges_def)

lemma region_of_other:
  assumes "live a = xs @ b # ys" "blk_available b" "r \<in> regions a"
  shows "\<exists>c \<in> set xs \<union> set ys. r = range_of c"
  using regions_subset [OF assms(3)] assms(1,2) by auto

lemma allocate_ok:
  assumes inv: "alloc_inv a" and sz: "0 < sz" and cap: "capacity a < 2 ^ 30"
  shows "\<exists>a' off. address_space_allocator_allocate a sz = Inr (a', off) \<and>
     alloc_inv a' \<and> allocation_ok a sz a' off"
  using inv sz cap
proof (cases rule: allocate_cases)
  case full
  with inv show ?thesis by (simp add: allocation_ok_def)
next
  case (whole xs b ys a')
  have b: "blk_available b" using whole(2) by (simp add: fits_def)
  note served = serve_whole [OF whole(1) inv b whole(6,7,8)]
  have bb: "in_area a (range_of b)"
    using chain_bounds(2,3) [OF alloc_invD(2) [OF inv], of b] alloc_invD(4) [OF inv] whole(1)
    by (simp add: range_in_def range_of_def)
  have rg: "range_of b = (unat (blk_offset b), unat sz)"
    using whole(3) by (simp add: range_of_def)
  have "blk_offset b \<noteq> BAD_OFFSET"
    using bb alloc_invD(5) [OF inv] by (intro not_BAD_OFFSET) (simp add: range_in_def range_of_def)
  moreover have "\<forall>r \<in> regions a. \<not> overlap (range_of b) r"
    using region_of_other [OF whole(1) b] chain_disjoint [OF alloc_invD(2) [OF inv, unfolded whole(1)]]
    by blast
  ultimately show ?thesis
    using served bb whole(5,7) unfolding rg by (auto simp: allocation_ok_def)
next
  case (tail xs b ys a')
  let ?off = "blk_offset b + (blk_size b - sz)"
  have b: "blk_available b" using tail(2) by (simp add: fits_def)
  note served = serve_tail [OF tail(1) inv b sz tail(3,6,7,8)]
  have bb: "unat (blk_offset b) + unat (blk_size b) \<le> unat (total_bytes a)"
    using chain_bounds(2) [OF alloc_invD(2) [OF inv], of b] alloc_invD(4) [OF inv] tail(1) by simp
  have sz': "0 < unat sz" "unat sz < unat (blk_size b)"
    using sz tail(3) by (auto simp: word_less_nat_alt)
  have "unat ?off < 2 ^ 63"
    unfolding served(3) using bb sz' alloc_invD(5) [OF inv] by linarith
  then have "?off \<noteq> BAD_OFFSET" by (rule not_BAD_OFFSET)
  moreover have "\<not> overlap (unat ?off, unat sz) r" if "r \<in> regions a" for r
  proof -
    obtain c where "c \<in> set xs \<union> set ys" and r: "r = range_of c"
      using region_of_other [OF tail(1) b \<open>r \<in> regions a\<close>] by blast
    then have "\<not> overlap (range_of b) r"
      using chain_disjoint [OF alloc_invD(2) [OF inv, unfolded tail(1)]] by blast
    then show ?thesis
      using sz' unfolding served(3) by (auto simp: overlap_def range_of_def)
  qed
  moreover have "in_area a (unat ?off, unat sz)"
    unfolding served(3) range_in_def using bb sz' by simp
  ultimately show ?thesis
    using served(1,2) tail(5,7) by (auto simp: allocation_ok_def)
qed

section \<open>Release\<close>

lemma live_close_gap:
  assumes "array_ok a" "j + k \<le> nblocks a" "length bs = length (blocks a)" "0 < k" "k < nblocks a"
  shows "memmove j (j + k) (nblocks a - k - j) bs =
      Inr (take j bs @ take (nblocks a - k - j) (drop (j + k) bs) @ drop (nblocks a - k) bs)"
    and "live (a\<lparr>blocks := take j bs @ take (nblocks a - k - j) (drop (j + k) bs) @ drop (nblocks a - k) bs,
               nblocks := nblocks a - k\<rparr>) =
      take j (take (nblocks a) bs) @ drop (j + k) (take (nblocks a) bs)"
    and "array_ok (a\<lparr>blocks := take j bs @ take (nblocks a - k - j) (drop (j + k) bs) @ drop (nblocks a - k) bs,
               nblocks := nblocks a - k\<rparr>)"
proof -
  have n: "nblocks a \<le> length bs"
    using assms by (simp add: array_ok_def)
  show mm: "memmove j (j + k) (nblocks a - k - j) bs =
      Inr (take j bs @ take (nblocks a - k - j) (drop (j + k) bs) @ drop (nblocks a - k) bs)"
    using assms n by (simp add: memmove_def)
  show "live (a\<lparr>blocks := take j bs @ take (nblocks a - k - j) (drop (j + k) bs) @ drop (nblocks a - k) bs,
               nblocks := nblocks a - k\<rparr>) =
      take j (take (nblocks a) bs) @ drop (j + k) (take (nblocks a) bs)"
    using take_close_gap [OF assms(2) n] by (simp add: live_def)
  show "array_ok (a\<lparr>blocks := take j bs @ take (nblocks a - k - j) (drop (j + k) bs) @ drop (nblocks a - k) bs,
               nblocks := nblocks a - k\<rparr>)"
    using assms n length_memmove [OF mm] by (auto simp: array_ok_def)
qed

text \<open>The four ways a released block meets its neighbours.\<close>

definition merged :: "address_block \<Rightarrow> u64 \<Rightarrow> address_block" where
  "merged b n = b\<lparr>blk_size := bitfield63 (blk_size b + n)\<rparr>"

lemma release_both:
  assumes ok: "array_ok a" and L: "live a = xs @ p # b # n # ys"
    and av: "blk_available p" "blk_available n"
  shows "\<exists>a'. address_space_allocator_release_block a (Suc (length xs)) = Inr a' \<and>
     array_ok a' \<and> total_bytes a' = total_bytes a \<and> capacity a' = capacity a \<and>
     live a' = xs @ merged p (blk_size b + blk_size n) # ys"
proof -
  let ?i = "Suc (length xs)"
  let ?bs = "(blocks a)[?i := b\<lparr>blk_available := True\<rparr>]"
  let ?cs = "?bs[length xs := merged p (blk_size b + blk_size n)]"
  have n: "nblocks a = length xs + 3 + length ys"
    using length_live [OF ok] unfolding L by simp
  have len: "nblocks a \<le> length (blocks a)"
    using ok by (simp add: array_ok_def)
  have nth: "blocks a ! length xs = p" "blocks a ! ?i = b" "blocks a ! Suc ?i = n"
    using live_nth [OF ok, of "length xs"] live_nth [OF ok, of ?i] live_nth [OF ok, of "Suc ?i"]
    unfolding L using n by (simp_all add: nth_append)
  have gap: "array_ok a" "?i + 2 \<le> nblocks a" "length ?cs = length (blocks a)" "0 < (2::nat)" "2 < nblocks a"
    using ok n by simp_all
  have "take (nblocks a) ?cs = xs @ merged p (blk_size b + blk_size n) # b\<lparr>blk_available := True\<rparr> # n # ys"
    using L by (simp add: live_def take_update_swap list_update_append)
  then have "take ?i (take (nblocks a) ?cs) @ drop (?i + 2) (take (nblocks a) ?cs) =
      xs @ merged p (blk_size b + blk_size n) # ys"
    by (simp add: numeral_3_eq_3 numeral_2_eq_2)
  moreover have "nblocks a - Suc (Suc ?i) = nblocks a - 2 - ?i" by simp
  ultimately show ?thesis
    using live_close_gap [OF gap] nth av len n
    by (simp add: address_space_allocator_release_block_def Let_def aread_ok awrite_ok merged_def
        nth_list_update)
qed

lemma release_before:
  assumes ok: "array_ok a" and L: "live a = xs @ p # b # ys"
    and av: "blk_available p" "ys = [] \<or> \<not> blk_available (hd ys)"
  shows "\<exists>a'. address_space_allocator_release_block a (Suc (length xs)) = Inr a' \<and>
     array_ok a' \<and> total_bytes a' = total_bytes a \<and> capacity a' = capacity a \<and>
     live a' = xs @ merged p (blk_size b) # ys"
proof -
  let ?i = "Suc (length xs)"
  let ?bs = "(blocks a)[?i := b\<lparr>blk_available := True\<rparr>]"
  let ?cs = "?bs[length xs := merged p (blk_size b)]"
  have n: "nblocks a = length xs + 2 + length ys"
    using length_live [OF ok] unfolding L by simp
  have len: "nblocks a \<le> length (blocks a)"
    using ok by (simp add: array_ok_def)
  have nth: "blocks a ! length xs = p" "blocks a ! ?i = b"
    "Suc ?i < nblocks a \<Longrightarrow> \<not> blk_available (blocks a ! Suc ?i)"
    using live_nth [OF ok, of "length xs"] live_nth [OF ok, of ?i] live_nth [OF ok, of "Suc ?i"]
      av(2) n unfolding L by (auto simp: nth_append hd_conv_nth)
  have gap: "array_ok a" "?i + 1 \<le> nblocks a" "length ?cs = length (blocks a)" "0 < (1::nat)" "1 < nblocks a"
    using ok n by simp_all
  have "take (nblocks a) ?cs = xs @ merged p (blk_size b) # b\<lparr>blk_available := True\<rparr> # ys"
    using L by (simp add: live_def take_update_swap list_update_append)
  then have "take ?i (take (nblocks a) ?cs) @ drop (?i + 1) (take (nblocks a) ?cs) =
      xs @ merged p (blk_size b) # ys"
    by simp
  moreover have "nblocks a - Suc ?i = nblocks a - 1 - ?i" by simp
  ultimately show ?thesis
    using live_close_gap [OF gap] nth av(1) len n
    by (cases ys)
      (simp_all add: address_space_allocator_release_block_def Let_def aread_ok awrite_ok merged_def
        nth_list_update)
qed

lemma release_after:
  assumes ok: "array_ok a" and L: "live a = xs @ b # n # ys"
    and av: "xs = [] \<or> \<not> blk_available (last xs)" "blk_available n"
  shows "\<exists>a'. address_space_allocator_release_block a (length xs) = Inr a' \<and>
     array_ok a' \<and> total_bytes a' = total_bytes a \<and> capacity a' = capacity a \<and>
     live a' = xs @ merged (b\<lparr>blk_available := True\<rparr>) (blk_size n) # ys"
proof -
  let ?i = "length xs"
  let ?bs = "(blocks a)[?i := b\<lparr>blk_available := True\<rparr>]"
  let ?cs = "?bs[?i := merged (b\<lparr>blk_available := True\<rparr>) (blk_size n)]"
  have n: "nblocks a = length xs + 2 + length ys"
    using length_live [OF ok] unfolding L by simp
  have len: "nblocks a \<le> length (blocks a)"
    using ok by (simp add: array_ok_def)
  have ne: "blocks a \<noteq> []"
    using n len by auto
  have nth: "blocks a ! ?i = b" "blocks a ! Suc ?i = n"
    "0 < ?i \<Longrightarrow> \<not> blk_available (blocks a ! (?i - 1))"
    using live_nth [OF ok, of ?i] live_nth [OF ok, of "Suc ?i"] live_nth [OF ok, of "?i - 1"]
      av(1) n unfolding L by (auto simp: nth_append last_conv_nth)
  have gap: "array_ok a" "Suc ?i + 1 \<le> nblocks a" "length ?cs = length (blocks a)" "0 < (1::nat)" "1 < nblocks a"
    using ok n by simp_all
  have "take (nblocks a) ?cs = xs @ merged (b\<lparr>blk_available := True\<rparr>) (blk_size n) # n # ys"
    using L by (simp add: live_def take_update_swap list_update_append)
  then have "take (Suc ?i) (take (nblocks a) ?cs) @ drop (Suc ?i + 1) (take (nblocks a) ?cs) =
      xs @ merged (b\<lparr>blk_available := True\<rparr>) (blk_size n) # ys"
    by simp
  moreover have "nblocks a - Suc (Suc ?i) = nblocks a - 1 - Suc ?i" by simp
  ultimately show ?thesis
    using live_close_gap [OF gap] nth av(2) len n ne
    by (cases xs rule: rev_cases)
      (simp_all add: address_space_allocator_release_block_def Let_def aread_ok awrite_ok merged_def
        nth_list_update)
qed

lemma release_alone:
  assumes ok: "array_ok a" and L: "live a = xs @ b # ys"
    and av: "xs = [] \<or> \<not> blk_available (last xs)" "ys = [] \<or> \<not> blk_available (hd ys)"
  shows "\<exists>a'. address_space_allocator_release_block a (length xs) = Inr a' \<and>
     array_ok a' \<and> total_bytes a' = total_bytes a \<and> capacity a' = capacity a \<and>
     live a' = xs @ b\<lparr>blk_available := True\<rparr> # ys"
proof -
  let ?i = "length xs"
  have n: "nblocks a = length xs + 1 + length ys"
    using length_live [OF ok] unfolding L by simp
  have len: "nblocks a \<le> length (blocks a)"
    using ok by (simp add: array_ok_def)
  have nth: "blocks a ! ?i = b" "0 < ?i \<Longrightarrow> \<not> blk_available (blocks a ! (?i - 1))"
    "Suc ?i < nblocks a \<Longrightarrow> \<not> blk_available (blocks a ! Suc ?i)"
    using live_nth [OF ok, of ?i] live_nth [OF ok, of "?i - 1"] live_nth [OF ok, of "Suc ?i"]
      av n unfolding L by (auto simp: nth_append last_conv_nth hd_conv_nth)
  have "live (a\<lparr>blocks := (blocks a)[?i := b\<lparr>blk_available := True\<rparr>]\<rparr>) = xs @ b\<lparr>blk_available := True\<rparr> # ys"
    using live_update [OF ok, of ?i] n unfolding L by (simp add: list_update_append)
  moreover have ne: "blocks a \<noteq> []"
    using n len by auto
  moreover have "array_ok (a\<lparr>blocks := (blocks a)[?i := b\<lparr>blk_available := True\<rparr>]\<rparr>)"
    using ok by (simp add: array_ok_def)
  ultimately show ?thesis
    using nth len n ne
    by (cases xs rule: rev_cases; cases ys)
      (simp_all add: address_space_allocator_release_block_def Let_def aread_ok awrite_ok
        nth_list_update)
qed

text \<open>
  On the list, releasing \<open>b\<close> frees its range and nothing else: the tiling is
  kept whichever neighbours it is merged with.
\<close>

lemma unat_merge:
  assumes "chain p (b # c # bs)" "p + bytes (b # c # bs) < 2 ^ 63"
  shows "unat (blk_size b + blk_size c) = unat (blk_size b) + unat (blk_size c)"
    and "bitfield63 (blk_size b + blk_size c) = blk_size b + blk_size c"
proof -
  show sum: "unat (blk_size b + blk_size c) = unat (blk_size b) + unat (blk_size c)"
    using assms by (intro unat_plus_no_overflow) simp
  show "bitfield63 (blk_size b + blk_size c) = blk_size b + blk_size c"
    using assms by (intro bitfield63_small) (simp add: sum)
qed

lemma chain_merge:
  assumes "chain p (b # c # bs)" "p + bytes (b # c # bs) < 2 ^ 63"
  shows "chain p (merged b (blk_size c) # bs)"
    and "bytes (merged b (blk_size c) # bs) = bytes (b # c # bs)"
  using assms unat_merge [OF assms] by (auto simp: merged_def word_less_nat_alt add.assoc)

lemma chain_merge3:
  assumes "chain p (b # c # d # bs)" "p + bytes (b # c # d # bs) < 2 ^ 63"
  shows "chain p (merged b (blk_size c + blk_size d) # bs)"
    and "bytes (merged b (blk_size c + blk_size d) # bs) = bytes (b # c # d # bs)"
proof -
  have cd: "unat (blk_size c + blk_size d) = unat (blk_size c) + unat (blk_size d)"
    using assms by (intro unat_plus_no_overflow) simp
  have sum: "unat (blk_size b + (blk_size c + blk_size d)) =
      unat (blk_size b) + (unat (blk_size c) + unat (blk_size d))"
    using assms by (subst unat_plus_no_overflow) (simp_all add: cd)
  have bf: "bitfield63 (blk_size b + (blk_size c + blk_size d)) = blk_size b + (blk_size c + blk_size d)"
    using assms by (intro bitfield63_small) (simp add: sum)
  show "chain p (merged b (blk_size c + blk_size d) # bs)"
    "bytes (merged b (blk_size c + blk_size d) # bs) = bytes (b # c # d # bs)"
    using assms by (auto simp: merged_def bf sum word_less_nat_alt add.assoc)
qed

text \<open>What is left to show once the new list of live blocks is known.\<close>

lemma released:
  assumes inv: "alloc_inv a" and a': "array_ok a'" "total_bytes a' = total_bytes a"
    and L': "chain 0 (live a')" "bytes (live a') = bytes (live a)" "coalesced (live a')"
      "ranges (live a') = regions a - {range_of b}"
  shows "alloc_inv a' \<and> total_bytes a' = total_bytes a \<and> regions a' = regions a - {range_of b}"
  using assms by (simp add: alloc_inv_def regions_def)

lemma ranges_chain_bounds:
  assumes "chain p bs" "r \<in> ranges bs"
  shows "p \<le> fst r" "fst r + snd r \<le> p + bytes bs" "0 < snd r"
  using assms chain_bounds [OF assms(1)] by (auto simp: ranges_def range_of_def)

lemma ranges_remove:
  assumes "chain p (xs @ b # ys)" "\<not> blk_available b"
  shows "ranges (xs @ b # ys) - {range_of b} = ranges xs \<union> ranges ys"
proof -
  have "range_of b \<notin> ranges xs"
    using assms ranges_chain_bounds [of p xs "range_of b"] by (auto simp: range_of_def)
  moreover have "range_of b \<notin> ranges ys"
    using assms ranges_chain_bounds [of "p + bytes xs + unat (blk_size b)" ys "range_of b"]
    by (auto simp: range_of_def)
  ultimately show ?thesis
    using assms(2) by auto
qed

lemma release_block_ok:
  assumes inv: "alloc_inv a" and L: "live a = xs @ b # ys" and b: "\<not> blk_available b"
  shows "\<exists>a'. address_space_allocator_release_block a (length xs) = Inr a' \<and>
     alloc_inv a' \<and> capacity a' = capacity a \<and> total_bytes a' = total_bytes a \<and>
     regions a' = regions a - {range_of b}"
proof -
  note ok = alloc_invD(1) [OF inv]
  have bytes: "bytes (xs @ b # ys) < 2 ^ 63"
    using alloc_invD(4,5) [OF inv] unfolding L by simp
  have ch: "chain 0 (xs @ b # ys)" and co: "coalesced (xs @ b # ys)"
    using alloc_invD(2,3) [OF inv] unfolding L by simp_all
  have reg: "regions a - {range_of b} = ranges xs \<union> ranges ys"
    unfolding regions_def L by (rule ranges_remove [OF ch b])
  have fin: ?thesis
    if "address_space_allocator_release_block a (length xs) = Inr a' \<and> array_ok a' \<and>
      total_bytes a' = total_bytes a \<and> capacity a' = capacity a \<and> live a' = zs"
      "chain 0 zs" "bytes zs = bytes (xs @ b # ys)" "coalesced zs" "ranges zs = ranges xs \<union> ranges ys"
    for a' zs
    using that released [OF inv, of a' b] reg L by auto
  consider (both) us p n vs where "xs = us @ [p]" "ys = n # vs" "blk_available p" "blk_available n"
    | (before) us p where "xs = us @ [p]" "blk_available p" "ys = [] \<or> \<not> blk_available (hd ys)"
    | (after) n vs where "ys = n # vs" "blk_available n" "xs = [] \<or> \<not> blk_available (last xs)"
    | (alone) "xs = [] \<or> \<not> blk_available (last xs)" "ys = [] \<or> \<not> blk_available (hd ys)"
    by (cases xs rule: rev_cases; cases ys) auto
  then show ?thesis
  proof cases
    case both
    have L3: "live a = us @ p # b # n # vs" using L both by simp
    have c3: "chain (bytes us) (p # b # n # vs)" "bytes us + bytes (p # b # n # vs) < 2 ^ 63"
      using ch bytes both by simp_all
    obtain a' where a': "address_space_allocator_release_block a (length xs) = Inr a' \<and> array_ok a' \<and>
        total_bytes a' = total_bytes a \<and> capacity a' = capacity a \<and>
        live a' = us @ merged p (blk_size b + blk_size n) # vs"
      using release_both [OF ok L3 both(3,4)] both(1) by auto
    show ?thesis
      using ch co both chain_merge3 [OF c3]
      by (intro fin [OF a']) (auto simp: coalesced_append coalesced_Cons merged_def simp del: chain.simps)
  next
    case before
    have L2: "live a = us @ p # b # ys" using L before by simp
    have c2: "chain (bytes us) (p # b # ys)" "bytes us + bytes (p # b # ys) < 2 ^ 63"
      using ch bytes before by simp_all
    obtain a' where a': "address_space_allocator_release_block a (length xs) = Inr a' \<and> array_ok a' \<and>
        total_bytes a' = total_bytes a \<and> capacity a' = capacity a \<and>
        live a' = us @ merged p (blk_size b) # ys"
      using release_before [OF ok L2 before(2,3)] before(1) by auto
    show ?thesis
      using ch co before chain_merge [OF c2]
      by (intro fin [OF a']) (auto simp: coalesced_append coalesced_Cons merged_def simp del: chain.simps)
  next
    case after
    let ?b = "b\<lparr>blk_available := True\<rparr>"
    have L2: "live a = xs @ b # n # vs" using L after by simp
    have c2: "chain (bytes xs) (?b # n # vs)" "bytes xs + bytes (?b # n # vs) < 2 ^ 63"
      using ch bytes after by simp_all
    obtain a' where a': "address_space_allocator_release_block a (length xs) = Inr a' \<and> array_ok a' \<and>
        total_bytes a' = total_bytes a \<and> capacity a' = capacity a \<and>
        live a' = xs @ merged ?b (blk_size n) # vs"
      using release_after [OF ok L2 after(3,2)] by auto
    show ?thesis
      using ch co after chain_merge [OF c2]
      by (intro fin [OF a']) (auto simp: coalesced_append coalesced_Cons merged_def simp del: chain.simps)
  next
    case alone
    obtain a' where a': "address_space_allocator_release_block a (length xs) = Inr a' \<and> array_ok a' \<and>
        total_bytes a' = total_bytes a \<and> capacity a' = capacity a \<and>
        live a' = xs @ b\<lparr>blk_available := True\<rparr> # ys"
      using release_alone [OF ok L alone] by auto
    show ?thesis
      using ch co alone by (intro fin [OF a']) (auto simp: coalesced_append coalesced_Cons)
  qed
qed

text \<open>
  The loop of the deallocation stops at the one block that starts at the
  offset.
\<close>

lemma deallocate_loop_miss:
  "\<forall>b \<in> set bs. blk_offset b \<noteq> off \<Longrightarrow> deallocate_loop a bs off i = Inr (a, EINVAL)"
  by (induction bs arbitrary: i) auto

lemma deallocate_loop_skip:
  "\<forall>b \<in> set xs. blk_offset b \<noteq> off \<Longrightarrow>
   deallocate_loop a (xs @ ys) off i = deallocate_loop a ys off (i + length xs)"
  by (induction xs arbitrary: i) auto

lemma chain_offset_unique:
  assumes "chain p (xs @ b # ys)" "c \<in> set xs \<union> set ys"
  shows "blk_offset c \<noteq> blk_offset b"
proof -
  have "0 < unat (blk_size b)" "0 < unat (blk_size c)"
    using chain_bounds(3) [OF assms(1)] assms(2) by auto
  with chain_disjoint [OF assms] show ?thesis
    by (auto simp: overlap_def range_of_def)
qed

definition deallocation_ok ::
  "address_space_allocator \<Rightarrow> u64 \<Rightarrow> address_space_allocator \<Rightarrow> nat \<Rightarrow> bool" where
  "deallocation_ok a off a' err \<longleftrightarrow>
     (if \<exists>n. (unat off, n) \<in> regions a
      then err = 0 \<and> total_bytes a' = total_bytes a \<and>
        regions a' = regions a - {r. fst r = unat off}
      else err = EINVAL \<and> a' = a)"

lemma deallocate_ok:
  assumes inv: "alloc_inv a"
  shows "\<exists>a' err. address_space_allocator_deallocate a off = Inr (a', err) \<and>
     alloc_inv a' \<and> capacity a' = capacity a \<and> deallocation_ok a off a' err"
proof -
  have run: "address_space_allocator_deallocate a off = deallocate_loop a (live a) off 0"
    using alloc_invD(1) [OF inv]
    by (simp add: address_space_allocator_deallocate_def array_ok_def live_def)
  show ?thesis
  proof (cases "\<exists>b \<in> set (live a). blk_offset b = off")
    case False
    then have "\<nexists>n. (unat off, n) \<in> regions a"
      by (auto simp: regions_def ranges_def range_of_def unat_inj_iff)
    with False inv show ?thesis
      by (simp add: run deallocate_loop_miss deallocation_ok_def)
  next
    case True
    then obtain b where "b \<in> set (live a)" and off: "blk_offset b = off" by blast
    then obtain xs ys where L: "live a = xs @ b # ys" by (auto dest: split_list)
    have uniq: "\<forall>c \<in> set xs \<union> set ys. blk_offset c \<noteq> off"
    proof
      fix c assume "c \<in> set xs \<union> set ys"
      with chain_offset_unique [OF alloc_invD(2) [OF inv, unfolded L]] off
      show "blk_offset c \<noteq> off" by simp
    qed
    then have loop: "address_space_allocator_deallocate a off = deallocate_loop a (b # ys) off (length xs)"
      unfolding run L by (simp add: deallocate_loop_skip)
    have "(unat off, n) \<notin> ranges xs \<union> ranges ys" for n
      using uniq by (auto simp: ranges_def range_of_def unat_inj_iff)
    then have reg: "(unat off, n) \<in> regions a \<longleftrightarrow> \<not> blk_available b \<and> (unat off, n) = range_of b" for n
      unfolding regions_def L by simp
    show ?thesis
    proof (cases "blk_available b")
      case True
      with inv show ?thesis by (simp add: loop off reg deallocation_ok_def)
    next
      case False
      obtain a' where a': "address_space_allocator_release_block a (length xs) = Inr a'" "alloc_inv a'"
        "capacity a' = capacity a" "total_bytes a' = total_bytes a" "regions a' = regions a - {range_of b}"
        using release_block_ok [OF inv L False] by blast
      have "r = range_of b \<longleftrightarrow> fst r = unat off" if "r \<in> regions a" for r
        using reg [of "snd r"] that off by (cases r) (auto simp: range_of_def)
      then have "regions a' = regions a - {r. fst r = unat off}"
        unfolding a'(5) by blast
      moreover have "\<exists>n. (unat off, n) \<in> regions a"
        using reg False off by (simp add: range_of_def)
      ultimately show ?thesis
        using a' False by (simp add: loop off deallocation_ok_def)
    qed
  qed
qed

section \<open>The contract\<close>

definition alloc_area :: "address_space_allocator \<Rightarrow> nat" where
  "alloc_area a = unat (total_bytes a)"

definition alloc_room :: "address_space_allocator \<Rightarrow> bool" where
  "alloc_room a \<longleftrightarrow> capacity a < 2 ^ 30"

lemma regions_in_area:
  assumes "alloc_inv a" "r \<in> regions a"
  shows "range_in (alloc_area a) r"
  using ranges_chain_bounds [OF alloc_invD(2) [OF assms(1)]] assms(2) alloc_invD(4) [OF assms(1)]
  by (auto simp: regions_def range_in_def alloc_area_def)

interpretation as_alloc: range_allocator alloc_inv alloc_area regions
  address_space_allocator_deallocate alloc_room address_space_allocator_allocate BAD_OFFSET
proof unfold_locales
  fix s and n :: u64 assume "alloc_inv s" "alloc_room s" "0 < n"
  from allocate_ok [OF this(1,3)] this(2)
  have ok: "\<exists>s' p. address_space_allocator_allocate s n = Inr (s', p) \<and> alloc_inv s' \<and> allocation_ok s n s' p"
    by (simp add: alloc_room_def)
  then show "\<exists>s' p. address_space_allocator_allocate s n = Inr (s', p)"
    by blast
  fix s' p assume "address_space_allocator_allocate s n = Inr (s', p)"
  with ok show "alloc_inv s' \<and> alloc_area s' = alloc_area s \<and>
      (if p = BAD_OFFSET then s' = s
       else regions s' = insert (unat p, unat n) (regions s) \<and> range_in (alloc_area s) (unat p, unat n) \<and>
         (\<forall>r \<in> regions s. \<not> overlap (unat p, unat n) r))"
    by (auto simp: allocation_ok_def alloc_area_def)
next
  fix s and p :: u64 assume "alloc_inv s"
  from deallocate_ok [OF this, of p]
  have ok: "\<exists>s' e. address_space_allocator_deallocate s p = Inr (s', e) \<and> alloc_inv s' \<and>
      deallocation_ok s p s' e"
    by blast
  then show "\<exists>s' e. address_space_allocator_deallocate s p = Inr (s', e)"
    by blast
  fix s' e assume "address_space_allocator_deallocate s p = Inr (s', e)"
  with ok show "alloc_inv s' \<and> alloc_area s' = alloc_area s \<and>
      (if \<exists>n. (unat p, n) \<in> regions s
       then e = 0 \<and> regions s' = regions s - {r. fst r = unat p}
       else e \<noteq> 0 \<and> regions s' = regions s)"
    by (auto simp: deallocation_ok_def alloc_area_def split: if_splits)
next
  fix s r assume "alloc_inv s" "r \<in> regions s"
  then show "range_in (alloc_area s) r" by (rule regions_in_area)
qed

section \<open>Creation, reset and destruction\<close>

lemma single_block_inv:
  assumes "array_ok a" "live a = [\<lparr>blk_offset = 0, blk_size = bitfield63 (total_bytes a), blk_available = True\<rparr>]"
    "0 < total_bytes a" "unat (total_bytes a) < 2 ^ 63"
  shows "alloc_inv a \<and> regions a = {}"
  using assms by (simp add: alloc_inv_def regions_def bitfield63_small)

lemma init_ok:
  assumes "0 < sz" "unat sz < 2 ^ 63" "1 \<le> cap"
  shows "\<exists>a. address_space_allocator_init sz cap = Inr a \<and> alloc_inv a \<and> regions a = {} \<and>
     total_bytes a = sz \<and> capacity a = cap"
proof -
  let ?b = "\<lparr>blk_offset = 0, blk_size = bitfield63 sz, blk_available = True\<rparr>"
  let ?a = "\<lparr>blocks = (replicate cap fresh_block)[0 := ?b], nblocks = 1, capacity = cap, total_bytes = sz\<rparr>"
  have run: "address_space_allocator_init sz cap = Inr ?a"
    using assms(3) by (simp add: address_space_allocator_init_def awrite_ok)
  have "live ?a = [?b]" "array_ok ?a"
    using assms(3) by (cases cap; simp add: live_def array_ok_def)+
  with single_block_inv [of ?a] assms run show ?thesis by simp
qed

lemma reset_ok:
  assumes "alloc_inv a"
  shows "\<exists>a'. address_space_allocator_reset a = Inr a' \<and> alloc_inv a' \<and> regions a' = {} \<and>
     total_bytes a' = total_bytes a \<and> capacity a' = capacity a"
proof -
  let ?b = "\<lparr>blk_offset = 0, blk_size = bitfield63 (total_bytes a), blk_available = True\<rparr>"
  let ?a = "a\<lparr>nblocks := 1, blocks := (blocks a)[0 := ?b]\<rparr>"
  note inv = alloc_invD [OF assms]
  have len: "0 < length (blocks a)" "1 \<le> nblocks a"
    using inv(1) by (auto simp: array_ok_def)
  then have run: "address_space_allocator_reset a = Inr ?a"
    by (simp add: address_space_allocator_reset_def awrite_ok)
  have "live ?a = [?b]" "array_ok ?a"
    using inv(1) len by (cases "blocks a"; simp add: live_def array_ok_def)+
  moreover have "0 < total_bytes a"
    using live_block_bounds [OF assms, of 0] len by (simp add: word_less_nat_alt)
  ultimately show ?thesis
    using single_block_inv [of ?a] inv(5) run by simp
qed

lemma destroy_iff:
  assumes inv: "alloc_inv a"
  shows "address_space_allocator_destroy a = (if regions a = {} then Inr () else Inl AssertFail)"
proof -
  note ok = alloc_invD(1) [OF inv]
  have "regions a = {} \<longleftrightarrow> nblocks a = 1 \<and> blk_available (blocks a ! 0)"
  proof
    assume "regions a = {}"
    then have av: "\<forall>b \<in> set (live a). blk_available b"
      by (auto simp: regions_def ranges_def)
    obtain b bs where L: "live a = b # bs"
      using ok length_live [OF ok] by (cases "live a") (auto simp: array_ok_def)
    then have "bs = []"
      using alloc_invD(3) [OF inv] av by (cases bs) auto
    then show "nblocks a = 1 \<and> blk_available (blocks a ! 0)"
      using L av length_live [OF ok] live_nth [OF ok, of 0] by auto
  next
    assume 1: "nblocks a = 1 \<and> blk_available (blocks a ! 0)"
    then have "live a = [blocks a ! 0]"
      using live_split [OF ok, of 0] length_live [OF ok] by (cases "live a") auto
    then show "regions a = {}"
      using 1 by (simp add: regions_def)
  qed
  then show ?thesis
    using ok by (auto simp: address_space_allocator_destroy_def array_ok_def aread_def assert_then_def)
qed

section \<open>Allocation at a given offset\<close>

definition holds_range :: "u64 \<Rightarrow> u64 \<Rightarrow> address_block \<Rightarrow> bool" where
  "holds_range sz off b \<longleftrightarrow> blk_available b \<and> blk_offset b \<le> off \<and>
     unat off + unat sz \<le> unat (blk_offset b) + unat (blk_size b)"

text \<open>The blocks around a range cut out of the middle of \<open>b\<close>.\<close>

definition cut_before :: "address_block \<Rightarrow> u64 \<Rightarrow> address_block list" where
  "cut_before b off =
     (if off = blk_offset b then [] else [b\<lparr>blk_size := off - blk_offset b\<rparr>])"

definition cut_after :: "address_block \<Rightarrow> u64 \<Rightarrow> u64 \<Rightarrow> address_block list" where
  "cut_after b sz off =
     (if off + sz = blk_offset b + blk_size b then []
      else [\<lparr>blk_offset = off + sz, blk_size = blk_offset b + blk_size b - (off + sz), blk_available = True\<rparr>])"

lemma holds_range_arith:
  assumes "unat (blk_offset b) + unat (blk_size b) < 2 ^ 63" "holds_range sz off b"
  shows "unat (off + sz) = unat off + unat sz"
    "unat (blk_offset b + blk_size b) = unat (blk_offset b) + unat (blk_size b)"
    "unat (off - blk_offset b) = unat off - unat (blk_offset b)"
    "unat (blk_offset b + blk_size b - (off + sz)) =
       unat (blk_offset b) + unat (blk_size b) - (unat off + unat sz)"
    "unat (blk_offset b) \<le> unat off"
proof -
  show le: "unat (blk_offset b) \<le> unat off"
    using assms by (simp add: holds_range_def word_le_nat_alt)
  show s: "unat (off + sz) = unat off + unat sz"
    "unat (blk_offset b + blk_size b) = unat (blk_offset b) + unat (blk_size b)"
    using assms by (auto intro!: unat_plus_no_overflow simp: holds_range_def)
  show "unat (off - blk_offset b) = unat off - unat (blk_offset b)"
    using le by (rule unat_minus_no_underflow)
  have "unat (off + sz) \<le> unat (blk_offset b + blk_size b)"
    using assms(2) by (simp add: s holds_range_def)
  then show "unat (blk_offset b + blk_size b - (off + sz)) =
       unat (blk_offset b) + unat (blk_size b) - (unat off + unat sz)"
    by (subst unat_minus_no_underflow) (simp_all add: s)
qed

lemma serve_range:
  assumes L: "live a = xs @ b # ys" and inv: "alloc_inv a" and h: "holds_range sz off b" and sz: "0 < sz"
    and a': "array_ok a'" "total_bytes a' = total_bytes a"
      "live a' = xs @ cut_before b off @
         \<lparr>blk_offset = off, blk_size = sz, blk_available = False\<rparr> # cut_after b sz off @ ys"
  shows "alloc_inv a'" and "regions a' = insert (unat off, unat sz) (regions a)"
    and "\<forall>r \<in> regions a. \<not> overlap (unat off, unat sz) r"
proof -
  have av: "blk_available b" using h by (simp add: holds_range_def)
  have "unat (blk_offset b) + unat (blk_size b) < 2 ^ 63"
    using chain_bounds(2) [OF alloc_invD(2) [OF inv], of b] alloc_invD(4,5) [OF inv] L by simp
  note ar = holds_range_arith [OF this h]
  have fit: "unat off + unat sz \<le> unat (blk_offset b) + unat (blk_size b)"
    using h by (simp add: holds_range_def)
  have eqs: "off = blk_offset b \<longleftrightarrow> unat off = unat (blk_offset b)"
    "off + sz = blk_offset b + blk_size b \<longleftrightarrow> unat off + unat sz = unat (blk_offset b) + unat (blk_size b)"
    by (metis unat_inj_iff) (metis ar(1,2) unat_inj_iff)
  have bytes: "bytes (cut_before b off) = unat off - unat (blk_offset b)"
    "bytes (cut_after b sz off) = unat (blk_offset b) + unat (blk_size b) - (unat off + unat sz)"
    using ar fit by (simp_all add: cut_before_def cut_after_def eqs)
  have chains: "chain (unat (blk_offset b)) (cut_before b off)"
    "chain (unat off + unat sz) (cut_after b sz off)"
    using ar fit by (auto simp: cut_before_def cut_after_def eqs word_less_nat_alt)
  have Lch: "chain 0 xs" "unat (blk_offset b) = bytes xs" "chain (bytes xs + unat (blk_size b)) ys"
    using alloc_invD(2) [OF inv] unfolding L by simp_all
  have ends: "bytes xs + (unat off - unat (blk_offset b)) = unat off"
    "unat off + (unat sz + (bytes xs + unat (blk_size b) - (unat off + unat sz))) = bytes xs + unat (blk_size b)"
    using ar(5) fit Lch(2) by simp_all
  have chain: "chain 0 (live a')"
    using Lch chains sz ends unfolding a'(3) by (simp add: bytes add.assoc)
  have coal: "coalesced (live a')"
    using alloc_invD(3) [OF inv] av unfolding L a'(3)
    by (auto simp: coalesced_append coalesced_Cons cut_before_def cut_after_def)
  have "bytes (live a') = bytes (live a)"
    using ar(5) fit unfolding L a'(3) by (simp add: bytes)
  with chain coal inv a'(1,2) show "alloc_inv a'"
    by (simp add: alloc_inv_def)
  show "regions a' = insert (unat off, unat sz) (regions a)"
    unfolding regions_def L a'(3) using av by (simp add: cut_before_def cut_after_def)
  show "\<forall>r \<in> regions a. \<not> overlap (unat off, unat sz) r"
  proof
    fix r assume "r \<in> regions a"
    then obtain c where "c \<in> set xs \<union> set ys" and r: "r = range_of c"
      using region_of_other [OF L av] by blast
    then have "\<not> overlap (range_of b) r"
      using chain_disjoint [OF alloc_invD(2) [OF inv, unfolded L]] by blast
    then show "\<not> overlap (unat off, unat sz) r"
      using ar(5) fit by (auto simp: overlap_def range_of_def)
  qed
qed

text \<open>The array side: growing, opening a gap of one or two cells, filling it.\<close>

lemma grow_for_split:
  assumes a: "array_ok a" and cap: "capacity a < 2 ^ 29" and k: "k \<le> 1"
  obtains a1 where "(if nblocks a + k \<ge> capacity a then grow_to a (capacity a + k) else Inr a) = Inr a1"
    "array_ok a1" "live a1 = live a" "nblocks a1 = nblocks a" "nblocks a1 + 1 + k \<le> length (blocks a1)"
    "total_bytes a1 = total_bytes a"
proof (cases "nblocks a + k \<ge> capacity a")
  case True
  have pre: "capacity a \<le> capacity a + k" "1 \<le> capacity a + k" "capacity a + k < 2 ^ 30"
    using a cap k by (auto simp: array_ok_def)
  obtain a1 where "grow_to a (capacity a + k) = Inr a1" "array_ok a1" "live a1 = live a"
    "nblocks a1 = nblocks a" "capacity a1 = 2 * (capacity a + k)" "total_bytes a1 = total_bytes a"
    by (rule grow_to_ok [OF a pre])
  with True a pre show thesis using that [of a1] by (simp add: array_ok_def)
next
  case False
  with a show thesis using that [of a] by (simp add: array_ok_def)
qed

lemma split_middle_live:
  fixes sz off :: u64
  assumes a: "array_ok a" and cap: "capacity a < 2 ^ 29" and i: "i < nblocks a"
  defines "b \<equiv> blocks a ! i"
  defines "extra \<equiv> blk_size b - sz - (off - blk_offset b) \<noteq> 0"
  shows "\<exists>a'. split_middle a i sz off = Inr (a', i + 1) \<and> array_ok a' \<and> total_bytes a' = total_bytes a \<and>
     live a' = take i (live a) @
       [b\<lparr>blk_size := bitfield63 (off - blk_offset b)\<rparr>,
        \<lparr>blk_offset = off, blk_size = bitfield63 sz, blk_available = True\<rparr>] @
       (if extra
        then [\<lparr>blk_offset = off + sz, blk_size = bitfield63 (blk_size b - sz - bitfield63 (off - blk_offset b)),
               blk_available = True\<rparr>]
        else []) @ drop (Suc i) (live a)"
proof -
  let ?k = "if extra then 1 else 0 :: nat"
  let ?p = "b\<lparr>blk_size := bitfield63 (off - blk_offset b)\<rparr>"
  let ?q = "\<lparr>blk_offset = off, blk_size = bitfield63 sz, blk_available = True\<rparr>"
  let ?r = "\<lparr>blk_offset = off + sz, blk_size = bitfield63 (blk_size b - sz - bitfield63 (off - blk_offset b)),
      blk_available = True\<rparr>"
  have k: "?k \<le> 1" by simp
  obtain a1 where a1: "(if nblocks a + ?k \<ge> capacity a then grow_to a (capacity a + ?k) else Inr a) = Inr a1"
    "array_ok a1" "live a1 = live a" "nblocks a1 = nblocks a" "nblocks a1 + 1 + ?k \<le> length (blocks a1)"
    "total_bytes a1 = total_bytes a"
    by (rule grow_for_split [OF a cap k])
  have b: "blocks a1 ! i = b"
    unfolding b_def using live_nth [OF a i] live_nth [OF a1(2), of i] a1(3,4) i by simp
  let ?n = "nblocks a1" and ?xs = "blocks a1"
  define ys where
    "ys = take (i + 2 + ?k) ?xs @ take (?n - i - 1) (drop (i + 1) ?xs) @ drop (?n + 1 + ?k) ?xs"
  have len: "length ?xs = capacity a1" "?n + 1 + ?k \<le> length ?xs" "i < ?n"
    using a1 i by (auto simp: array_ok_def)
  have mm: "memmove (i + 2 + ?k) (i + 1) (?n - i - 1) ?xs = Inr ys"
    unfolding ys_def using len by (simp add: memmove_ok)
  have ylen: "length ys = length ?xs"
    using length_memmove [OF mm] .
  have "ys ! i = b"
    unfolding ys_def using len b by (simp add: nth_append)
  then have run: "split_middle a i sz off =
      Inr (a1\<lparr>blocks := (if extra then ys[i := ?p, Suc i := ?q, Suc (Suc i) := ?r]
                        else ys[i := ?p, Suc i := ?q]), nblocks := ?n + 1 + ?k\<rparr>, i + 1)"
    using a1(1) mm ylen len
    unfolding split_middle_def Let_def b_def [symmetric] extra_def [symmetric]
    by (cases extra) (simp_all add: aread_ok awrite_ok)
  have "live (a1\<lparr>blocks := (if extra then ys[i := ?p, Suc i := ?q, Suc (Suc i) := ?r]
                        else ys[i := ?p, Suc i := ?q]), nblocks := ?n + 1 + ?k\<rparr>) =
        take i (live a) @ [?p, ?q] @ (if extra then [?r] else []) @ drop (Suc i) (live a)"
    unfolding a1(3) [symmetric]
    using take_open_gap_1 [OF len(3), of ?xs ?p ?q] take_open_gap_2 [OF len(3), of ?xs ?p ?q ?r] len(2)
    by (simp add: live_def ys_def numeral_3_eq_3 split: if_splits)
  moreover have "array_ok (a1\<lparr>blocks := (if extra then ys[i := ?p, Suc i := ?q, Suc (Suc i) := ?r]
                        else ys[i := ?p, Suc i := ?q]), nblocks := ?n + 1 + ?k\<rparr>)"
    using a1(2) ylen len by (auto simp: array_ok_def)
  ultimately show ?thesis
    using run a1(6) by simp
qed

lemma find_at_offset_skip:
  assumes "\<forall>c \<in> set xs. 0 < blk_size c \<and> \<not> off < blk_offset c + blk_size c"
  shows "find_at_offset_loop (xs @ ys) sz off i = find_at_offset_loop ys sz off (i + length xs)"
  using assms by (induction xs arbitrary: i) auto

lemma find_at_offset_hit:
  assumes inv: "alloc_inv a" and L: "live a = xs @ b # ys" and h: "holds_range sz off b" and sz: "0 < sz"
  shows "address_space_allocator_find_available_block_at_offset (blocks a) (nblocks a) sz off =
    Inr (Some (length xs))"
proof -
  have small: "unat (blk_offset c) + unat (blk_size c) < 2 ^ 63" if "c \<in> set (live a)" for c
    using chain_bounds(2) [OF alloc_invD(2) [OF inv] that] alloc_invD(4,5) [OF inv] by simp
  note ar = holds_range_arith [OF small h, unfolded L, simplified]
  have ch: "chain 0 xs" "unat (blk_offset b) = bytes xs" "0 < blk_size b"
    using alloc_invD(2) [OF inv] unfolding L by simp_all
  have "0 < blk_size c \<and> \<not> off < blk_offset c + blk_size c" if c: "c \<in> set xs" for c
  proof -
    have "unat (blk_offset c + blk_size c) = unat (blk_offset c) + unat (blk_size c)"
      using small [of c] c L by (intro unat_plus_no_overflow) simp
    then show ?thesis
      using chain_bounds(2,3) [OF ch(1) c] ch(2) ar(5) by (simp add: word_less_nat_alt)
  qed
  then have "find_at_offset_loop (live a) sz off 0 = find_at_offset_loop (b # ys) sz off (length xs)"
    unfolding L by (simp add: find_at_offset_skip)
  moreover have "sz \<le> blk_size b" "off < blk_offset b + blk_size b"
    using h sz ar by (auto simp: holds_range_def word_le_nat_alt word_less_nat_alt)
  ultimately show ?thesis
    using alloc_invD(1) [OF inv] h ch(3)
    by (simp add: address_space_allocator_find_available_block_at_offset_def array_ok_def live_def
        holds_range_def)
qed

lemma split_at_offset_live:
  assumes a: "array_ok a" and cap: "capacity a < 2 ^ 29" and L: "live a = xs @ b # ys"
    and small: "unat (blk_offset b) + unat (blk_size b) < 2 ^ 63"
    and h: "holds_range sz off b" and sz: "0 < sz" "sz < blk_size b"
  shows "\<exists>a'. address_space_allocator_split_block_at_offset a (length xs) sz off =
       Inr (a', length (xs @ cut_before b off)) \<and> array_ok a' \<and> total_bytes a' = total_bytes a \<and>
     live a' = xs @ cut_before b off @
       \<lparr>blk_offset = off, blk_size = sz, blk_available = True\<rparr> # cut_after b sz off @ ys"
proof -
  let ?i = "length xs"
  have i: "?i < nblocks a" and bi: "blocks a ! ?i = b"
    and parts: "take ?i (live a) = xs" "drop (Suc ?i) (live a) = ys"
    using length_live [OF a] live_nth [OF a, of ?i] unfolding L by simp_all
  have asserts: "split_asserts a ?i n" if "n < blk_size b" for n
    using a i bi that by (simp add: split_asserts_def array_ok_def)
  note ar = holds_range_arith [OF small h]
  note mid = split_middle_live [OF a cap i, unfolded bi parts]
  have av: "blk_available b" and fit: "unat off + unat sz \<le> unat (blk_offset b) + unat (blk_size b)"
    and le: "blk_offset b \<le> off"
    using h by (auto simp: holds_range_def)
  have bf: "bitfield63 sz = sz" "bitfield63 (blk_size b - sz) = blk_size b - sz"
    "bitfield63 (off - blk_offset b) = off - blk_offset b"
    "bitfield63 (blk_offset b + blk_size b - (off + sz)) = blk_offset b + blk_size b - (off + sz)"
    using small fit ar(3,4,5) sz(2)
    by (auto intro!: bitfield63_small simp: word_less_nat_alt unat_minus_no_underflow)
  have rest: "blk_size b - sz - (off - blk_offset b) = blk_offset b + blk_size b - (off + sz)"
    by (simp add: algebra_simps)
  show ?thesis
  proof (cases "off = blk_offset b")
    case True
    have lt: "blk_size b - sz < blk_size b" "off + sz \<noteq> blk_offset b" "blk_offset b \<le> off + sz"
      using True sz ar(1,5) by (auto simp: word_less_nat_alt word_le_nat_alt unat_minus_no_underflow)
    have "b\<lparr>blk_size := sz\<rparr> = \<lparr>blk_offset = off, blk_size = sz, blk_available = True\<rparr>"
      using True av by (cases b) simp
    moreover have "off + sz \<noteq> blk_offset b + blk_size b"
      using True sz(2) by auto
    moreover have "address_space_allocator_split_block_at_offset a ?i (blk_size b - sz) (off + sz) =
        split_middle a ?i (blk_size b - sz) (off + sz)"
      using lt asserts bi by simp
    then have "address_space_allocator_split_block_at_offset a ?i sz off =
        rbind (split_middle a ?i (blk_size b - sz) (off + sz)) (\<lambda>(a, _). Inr (a, ?i))"
      using True sz(2) asserts [OF sz(2)] bi
      by (subst address_space_allocator_split_block_at_offset.simps)
        (simp del: address_space_allocator_split_block_at_offset.simps)
    ultimately show ?thesis
      using mid [of "blk_size b - sz" "off + sz"] True bf
      by (auto simp: cut_before_def cut_after_def algebra_simps
          simp del: address_space_allocator_split_block_at_offset.simps)
  next
    case False
    then have "address_space_allocator_split_block_at_offset a ?i sz off = split_middle a ?i sz off"
      using asserts [OF sz(2)] bi le by simp
    then show ?thesis
      using mid [of sz off] False unfolding rest bf
      by (auto simp: cut_before_def cut_after_def)
  qed
qed

lemma allocate_fixed_ok:
  assumes inv: "alloc_inv a" and b: "b \<in> set (live a)" and h: "holds_range sz off b"
    and sz: "0 < sz" and cap: "capacity a < 2 ^ 29"
  shows "\<exists>a'. address_space_allocator_allocate_fixed a sz off = Inr (a', 0) \<and> alloc_inv a' \<and>
     allocation_ok a sz a' off"
proof -
  note ok = alloc_invD(1) [OF inv]
  obtain xs ys where L: "live a = xs @ b # ys"
    using split_list [OF b] by blast
  define i where "i = length xs"
  have i: "i < nblocks a" and bi: "blocks a ! i = b"
    and parts: "take i (live a) = xs" "drop (Suc i) (live a) = ys"
    using length_live [OF ok] live_nth [OF ok, of i] unfolding L i_def by simp_all
  have bnd: "unat (blk_offset b) + unat (blk_size b) \<le> unat (total_bytes a)"
    using chain_bounds(2) [OF alloc_invD(2) [OF inv] b] alloc_invD(4) [OF inv] by simp
  then have small: "unat (blk_offset b) + unat (blk_size b) < 2 ^ 63"
    using alloc_invD(5) [OF inv] by simp
  note ar = holds_range_arith [OF small h]
  have fit: "unat off + unat sz \<le> unat (blk_offset b) + unat (blk_size b)" and av: "blk_available b"
    using h by (auto simp: holds_range_def)
  have le: "sz \<le> blk_size b"
    using fit ar(5) by (simp add: word_le_nat_alt)
  have fin: ?thesis
    if "address_space_allocator_allocate_fixed a sz off = Inr (a', 0)" "array_ok a'"
      "total_bytes a' = total_bytes a"
      "live a' = xs @ cut_before b off @
         \<lparr>blk_offset = off, blk_size = sz, blk_available = False\<rparr> # cut_after b sz off @ ys" for a'
  proof -
    have "off \<noteq> BAD_OFFSET"
      using fit small by (intro not_BAD_OFFSET) simp
    moreover have "0 < unat sz"
      using sz by (simp add: word_less_nat_alt)
    ultimately show ?thesis
      using serve_range [OF L inv h sz that(2,3,4)] that(1,3) fit bnd
      by (auto simp: allocation_ok_def range_in_def)
  qed
  have run: "address_space_allocator_allocate_fixed a sz off =
      rbind (if sz < blk_size b then address_space_allocator_split_block_at_offset a i sz off
             else Inr (a, i)) (\<lambda>(a, j). rbind (mark_allocated a j sz) (\<lambda>(a, _). Inr (a, 0)))"
    using find_at_offset_hit [OF inv L h sz] i bi ok le
    by (simp add: address_space_allocator_allocate_fixed_def aread_ok array_ok_def i_def [symmetric])
  show ?thesis
  proof (cases "sz < blk_size b")
    case True
    from split_at_offset_live [OF ok cap L small h sz True] obtain a1 where a1:
      "address_space_allocator_split_block_at_offset a i sz off = Inr (a1, length (xs @ cut_before b off))"
      "array_ok a1" "total_bytes a1 = total_bytes a"
      "live a1 = xs @ cut_before b off @
         \<lparr>blk_offset = off, blk_size = sz, blk_available = True\<rparr> # cut_after b sz off @ ys"
      unfolding i_def by blast
    let ?j = "length (xs @ cut_before b off)"
    have j: "?j < nblocks a1" "blk_size (live a1 ! ?j) = sz"
      using length_live [OF a1(2)] unfolding a1(4) by (simp_all add: nth_append)
    from mark_allocated_live [OF a1(2) j] obtain a' where
      "mark_allocated a1 ?j sz = Inr (a', blk_offset (live a1 ! ?j))" "array_ok a'"
      "total_bytes a' = total_bytes a1"
      "live a' = (live a1)[?j := (live a1 ! ?j)\<lparr>blk_available := False\<rparr>]"
      by blast
    then show ?thesis
      using run a1(1,3) True unfolding a1(4)
      by (intro fin [of a']) (simp_all add: nth_append list_update_append)
  next
    case False
    then have eq: "blk_size b = sz" using le by simp
    then have off: "off = blk_offset b"
      using fit ar(5) by (simp add: unat_inj_iff [symmetric])
    have whole: "live a ! i = b"
      using live_nth [OF ok i] bi by simp
    from mark_allocated_live [OF ok i, of sz] eq obtain a' where
      "mark_allocated a i sz = Inr (a', blk_offset b)" "array_ok a'"
      "total_bytes a' = total_bytes a" "live a' = (live a)[i := b\<lparr>blk_available := False\<rparr>]"
      unfolding whole by blast
    moreover have "b\<lparr>blk_available := False\<rparr> = \<lparr>blk_offset = off, blk_size = sz, blk_available = False\<rparr>"
      using off eq by (cases b) simp
    ultimately show ?thesis
      using run False off eq unfolding L i_def
      by (intro fin [of a']) (simp_all add: cut_before_def cut_after_def)
  qed
qed

lemma find_at_offset_miss:
  assumes "\<forall>b \<in> set bs. \<not> (fits sz b \<and> blk_offset b \<le> off \<and> off < blk_offset b + blk_size b)"
  shows "find_at_offset_loop bs sz off i = None"
  using assms by (induction bs arbitrary: i) (auto simp: fits_def)

text \<open>
  A request that starts in an available block large enough for it, and runs past the end
  of that block.
\<close>

definition overruns :: "u64 \<Rightarrow> u64 \<Rightarrow> address_block \<Rightarrow> bool" where
  "overruns sz off b \<longleftrightarrow> fits sz b \<and> blk_offset b \<le> off \<and> off < blk_offset b + blk_size b \<and>
     unat (blk_offset b) + unat (blk_size b) < unat off + unat sz"

lemma allocate_fixed_within:
  assumes inv: "alloc_inv a" and sz: "0 < sz" and cap: "capacity a < 2 ^ 29"
    and within: "\<forall>b \<in> set (live a). \<not> overruns sz off b"
  shows "\<exists>a' e. address_space_allocator_allocate_fixed a sz off = Inr (a', e) \<and> alloc_inv a' \<and>
     (if e = 0 then allocation_ok a sz a' off else a' = a)"
proof (cases "\<exists>b \<in> set (live a). fits sz b \<and> blk_offset b \<le> off \<and> off < blk_offset b + blk_size b")
  case True
  then obtain b where b: "b \<in> set (live a)" "fits sz b" "blk_offset b \<le> off" "off < blk_offset b + blk_size b"
    by blast
  then have "holds_range sz off b"
    using within by (auto simp: overruns_def holds_range_def fits_def not_less)
  then show ?thesis
    using allocate_fixed_ok [OF inv b(1) _ sz cap] by (metis (no_types, lifting))
next
  case False
  then have "find_at_offset_loop (live a) sz off 0 = None"
    by (intro find_at_offset_miss) blast
  then show ?thesis
    using alloc_invD(1) [OF inv] inv
    by (simp add: address_space_allocator_allocate_fixed_def array_ok_def live_def
        address_space_allocator_find_available_block_at_offset_def)
qed

text \<open>The first block the search accepts is the one the range starts in.\<close>

lemma find_at_offset_start:
  assumes inv: "alloc_inv a" and L: "live a = xs @ b # ys" and fits: "fits sz b"
    and start: "blk_offset b \<le> off" "off < blk_offset b + blk_size b"
  shows "address_space_allocator_find_available_block_at_offset (blocks a) (nblocks a) sz off =
    Inr (Some (length xs))"
proof -
  have ch: "chain 0 xs" "unat (blk_offset b) = bytes xs" "0 < blk_size b"
    using alloc_invD(2) [OF inv] unfolding L by simp_all
  have "0 < blk_size c \<and> \<not> off < blk_offset c + blk_size c" if c: "c \<in> set xs" for c
  proof -
    have "unat (blk_offset c) + unat (blk_size c) < 2 ^ 63"
      using chain_bounds(2) [OF alloc_invD(2) [OF inv], of c] alloc_invD(4,5) [OF inv] c L by simp
    then have "unat (blk_offset c + blk_size c) = unat (blk_offset c) + unat (blk_size c)"
      by (intro unat_plus_no_overflow) simp
    then show ?thesis
      using chain_bounds(2,3) [OF ch(1) c] ch(2) start(1) by (simp add: word_less_nat_alt word_le_nat_alt)
  qed
  then have "find_at_offset_loop (live a) sz off 0 = find_at_offset_loop (b # ys) sz off (length xs)"
    unfolding L by (simp add: find_at_offset_skip)
  then show ?thesis
    using alloc_invD(1) [OF inv] fits start ch(3)
    by (simp add: address_space_allocator_find_available_block_at_offset_def array_ok_def live_def fits_def)
qed

lemma ranges_disjoint:
  assumes "chain p bs" "r \<in> ranges bs" "s \<in> ranges bs" "r \<noteq> s"
  shows "\<not> overlap r s"
  using assms
proof (induction bs arbitrary: p)
  case (Cons b bs)
  have tail: "chain (p + unat (blk_size b)) bs" and b: "fst (range_of b) + snd (range_of b) = p + unat (blk_size b)"
    using Cons.prems(1) by (auto simp: range_of_def)
  have later: "p + unat (blk_size b) \<le> fst q" if "q \<in> ranges bs" for q
    using ranges_chain_bounds(1) [OF tail that] .
  show ?case
    using Cons.IH [OF tail] Cons.prems(2-4) later [of r] later [of s] b
    by (auto simp: overlap_def split: if_splits)
qed simp

lemma overrun_run:
  assumes inv: "alloc_inv a" and L: "live a = xs @ b # ys" and over: "overruns sz off b"
    and cap: "capacity a < 2 ^ 29" and less: "sz < blk_size b"
  shows "\<exists>a' e. address_space_allocator_allocate_fixed a sz off = Inr (a', 0) \<and> total_bytes a' = total_bytes a \<and>
     blk_available e \<and> live a' = xs @ [b\<lparr>blk_size := off - blk_offset b\<rparr>,
       \<lparr>blk_offset = off, blk_size = sz, blk_available = False\<rparr>, e] @ ys"
proof -
  note ok = alloc_invD(1) [OF inv]
  let ?i = "length xs"
  have i: "?i < nblocks a" and bi: "blocks a ! ?i = b"
    and parts: "take ?i (live a) = xs" "drop (Suc ?i) (live a) = ys"
    using length_live [OF ok] live_nth [OF ok, of ?i] unfolding L by simp_all
  have small: "unat (blk_offset b) + unat (blk_size b) < 2 ^ 63"
    using chain_bounds(2) [OF alloc_invD(2) [OF inv], of b] alloc_invD(4,5) [OF inv] L by simp
  have o: "fits sz b" "blk_offset b \<le> off" "off < blk_offset b + blk_size b"
    "unat (blk_offset b) + unat (blk_size b) < unat off + unat sz"
    using over by (simp_all add: overruns_def)
  have stop: "unat (blk_offset b + blk_size b) = unat (blk_offset b) + unat (blk_size b)"
    using small by (intro unat_plus_no_overflow) simp
  have d: "unat (off - blk_offset b) = unat off - unat (blk_offset b)"
    using o(2) by (intro unat_minus_no_underflow) (simp add: word_le_nat_alt)
  have n: "unat off < unat (blk_offset b) + unat (blk_size b)" "unat (blk_offset b) \<le> unat off"
    using o(2,3) stop by (simp_all add: word_less_nat_alt word_le_nat_alt)
  have bf: "bitfield63 sz = sz" "bitfield63 (off - blk_offset b) = off - blk_offset b"
    using small less d n by (auto intro!: bitfield63_small simp: word_less_nat_alt)
  have ne: "off \<noteq> blk_offset b"
    using o(4) less by (auto simp: word_less_nat_alt)
  have extra: "blk_size b - sz - (off - blk_offset b) \<noteq> 0"
  proof
    assume "blk_size b - sz - (off - blk_offset b) = 0"
    then have "blk_size b - sz = off - blk_offset b" by simp
    moreover have "unat (blk_size b - sz) = unat (blk_size b) - unat sz"
      using less by (intro unat_minus_no_underflow) (simp add: word_less_nat_alt)
    ultimately show False
      using d n o(4) less by (auto simp: word_less_nat_alt)
  qed
  let ?e = "\<lparr>blk_offset = off + sz, blk_size = bitfield63 (blk_size b - sz - (off - blk_offset b)), blk_available = True\<rparr>"
  let ?k = "b\<lparr>blk_size := off - blk_offset b\<rparr>" and ?q = "\<lparr>blk_offset = off, blk_size = sz, blk_available = True\<rparr>"
  obtain a1 where a1: "split_middle a ?i sz off = Inr (a1, ?i + 1)" "array_ok a1"
    "live a1 = xs @ [?k, ?q] @ [?e] @ ys" "total_bytes a1 = total_bytes a"
    using split_middle_live [OF ok cap i, of sz off] extra unfolding bi parts bf by auto
  have "split_asserts a ?i sz"
    using ok i bi less by (simp add: split_asserts_def array_ok_def)
  then have split: "address_space_allocator_split_block_at_offset a ?i sz off = Inr (a1, ?i + 1)"
    using ne o(2) bi a1(1) by simp
  have "?i + 1 < nblocks a1" "blk_size (live a1 ! (?i + 1)) = sz" and at: "live a1 ! (?i + 1) = ?q"
    using length_live [OF a1(2)] unfolding a1(3) by (simp_all add: nth_append)
  from mark_allocated_live [OF a1(2) this(1,2)] obtain a' where a':
    "mark_allocated a1 (?i + 1) sz = Inr (a', blk_offset ?q)" "total_bytes a' = total_bytes a1"
    "live a' = (live a1)[?i + 1 := ?q\<lparr>blk_available := False\<rparr>]"
    unfolding at by blast
  have "live a' = xs @ [?k, ?q\<lparr>blk_available := False\<rparr>, ?e] @ ys"
    unfolding a'(3) a1(3) by (simp add: list_update_append)
  moreover have "address_space_allocator_allocate_fixed a sz off = Inr (a', 0)"
    using find_at_offset_start [OF inv L o(1-3)] i bi ok less split a'(1) less_imp_le [OF less]
    by (simp add: address_space_allocator_allocate_fixed_def aread_ok array_ok_def
        del: address_space_allocator_split_block_at_offset.simps)
  ultimately show ?thesis
    using a'(2) a1(4) by (intro exI [of _ a'] exI [of _ ?e]) simp
qed

lemma overrun_breaks:
  assumes inv: "alloc_inv a" and b: "b \<in> set (live a)" and over: "overruns sz off b"
    and cap: "capacity a < 2 ^ 29" and less: "sz < blk_size b"
  shows "\<exists>a'. address_space_allocator_allocate_fixed a sz off = Inr (a', 0) \<and>
     \<not> alloc_inv a' \<and> (unat off, unat sz) \<in> regions a' \<and>
     (\<not> range_in (alloc_area a) (unat off, unat sz) \<or>
      (\<exists>r \<in> regions a. r \<in> regions a' \<and> r \<noteq> (unat off, unat sz) \<and> overlap (unat off, unat sz) r))"
proof -
  obtain xs ys where L: "live a = xs @ b # ys"
    using split_list [OF b] by blast
  obtain a' e where a': "address_space_allocator_allocate_fixed a sz off = Inr (a', 0)"
    "total_bytes a' = total_bytes a" "blk_available e"
    "live a' = xs @ [b\<lparr>blk_size := off - blk_offset b\<rparr>,
       \<lparr>blk_offset = off, blk_size = sz, blk_available = False\<rparr>, e] @ ys"
    using overrun_run [OF inv L over cap less] by blast
  have o: "unat (blk_offset b) + unat (blk_size b) < unat off + unat sz" "off < blk_offset b + blk_size b"
    "blk_available b"
    using over by (simp_all add: overruns_def fits_def)
  have small: "unat (blk_offset b) + unat (blk_size b) < 2 ^ 63"
    using chain_bounds(2) [OF alloc_invD(2) [OF inv] b] alloc_invD(4,5) [OF inv] by simp
  then have start: "unat off < unat (blk_offset b) + unat (blk_size b)"
    using o(2) unat_plus_no_overflow [of "blk_offset b" "blk_size b"] by (simp add: word_less_nat_alt)
  have mem: "(unat off, unat sz) \<in> regions a'"
    unfolding regions_def a'(4) by (simp add: range_of_def)
  have Lch: "unat (blk_offset b) = bytes xs" "chain (bytes xs + unat (blk_size b)) ys"
    using alloc_invD(2) [OF inv] unfolding L by simp_all
  show ?thesis
  proof (cases ys)
    case Nil
    have "alloc_area a = unat (blk_offset b) + unat (blk_size b)"
      using alloc_invD(4) [OF inv] Lch(1) unfolding L Nil by (simp add: alloc_area_def)
    then have out: "\<not> range_in (alloc_area a) (unat off, unat sz)"
      using o(1) by (simp add: range_in_def)
    moreover have "\<not> alloc_inv a'"
      using regions_in_area [OF _ mem] out a'(2) by (auto simp: alloc_area_def)
    ultimately show ?thesis using a'(1) mem by blast
  next
    case (Cons c zs)
    let ?r = "range_of c"
    have c: "unat (blk_offset c) = unat (blk_offset b) + unat (blk_size b)" "\<not> blk_available c"
      using Lch alloc_invD(3) [OF inv] o(3) unfolding L Cons by (simp_all add: coalesced_append coalesced_Cons)
    then have r: "?r \<in> regions a" "?r \<in> regions a'" "?r \<noteq> (unat off, unat sz)"
      "overlap (unat off, unat sz) ?r"
      using o(1) start unfolding regions_def L a'(4) Cons by (auto simp: range_of_def overlap_def)
    moreover have "\<not> alloc_inv a'"
      using ranges_disjoint [OF alloc_invD(2), of a' "(unat off, unat sz)" ?r] mem r by (auto simp: regions_def)
    ultimately show ?thesis using a'(1) mem by blast
  qed
qed

lemma overrun_whole:
  assumes inv: "alloc_inv a" and b: "b \<in> set (live a)" and over: "overruns sz off b"
    and eq: "sz = blk_size b"
  shows "\<exists>a'. address_space_allocator_allocate_fixed a sz off = Inr (a', 0) \<and>
     regions a' = insert (range_of b) (regions a) \<and> fst (range_of b) < unat off"
proof -
  note ok = alloc_invD(1) [OF inv]
  obtain xs ys where L: "live a = xs @ b # ys"
    using split_list [OF b] by blast
  let ?i = "length xs"
  have i: "?i < nblocks a" and bi: "blocks a ! ?i = b" "live a ! ?i = b"
    using length_live [OF ok] live_nth [OF ok, of ?i] unfolding L by simp_all
  have o: "fits sz b" "blk_offset b \<le> off" "off < blk_offset b + blk_size b"
    "unat (blk_offset b) + unat (blk_size b) < unat off + unat sz" "blk_available b"
    using over by (simp_all add: overruns_def fits_def)
  obtain a' where a': "mark_allocated a ?i sz = Inr (a', blk_offset b)"
    "live a' = (live a)[?i := b\<lparr>blk_available := False\<rparr>]"
    using mark_allocated_live [OF ok i, of sz] eq unfolding bi by blast
  have "address_space_allocator_allocate_fixed a sz off = Inr (a', 0)"
    using find_at_offset_start [OF inv L o(1-3)] i bi ok eq a'(1)
    by (simp add: address_space_allocator_allocate_fixed_def aread_ok array_ok_def)
  moreover have "live a' = xs @ b\<lparr>blk_available := False\<rparr> # ys"
    using a'(2) unfolding L by simp
  ultimately show ?thesis
    using o(4,5) eq unfolding regions_def L by (auto simp: range_of_def)
qed

section \<open>Reachable allocators\<close>

text \<open>
  The allocator as a state machine: created, then driven by requests of
  positive size, by requests of positive size at any offset that do not start in an
  available block and run past its end, by releases of any offset, and by resets.
\<close>

inductive alloc_reach :: "address_space_allocator \<Rightarrow> bool" where
  reach_init: "address_space_allocator_init sz cap = Inr a \<Longrightarrow> 0 < sz \<Longrightarrow> unat sz < 2 ^ 63 \<Longrightarrow> alloc_reach a"
| reach_allocate: "alloc_reach a \<Longrightarrow> 0 < sz \<Longrightarrow> capacity a < 2 ^ 30 \<Longrightarrow>
     address_space_allocator_allocate a sz = Inr (a', off) \<Longrightarrow> alloc_reach a'"
| reach_fixed: "alloc_reach a \<Longrightarrow> 0 < sz \<Longrightarrow> capacity a < 2 ^ 29 \<Longrightarrow>
     \<forall>b \<in> set (live a). \<not> overruns sz off b \<Longrightarrow> address_space_allocator_allocate_fixed a sz off = Inr (a', e) \<Longrightarrow> alloc_reach a'"
| reach_deallocate: "alloc_reach a \<Longrightarrow> address_space_allocator_deallocate a off = Inr (a', err) \<Longrightarrow> alloc_reach a'"
| reach_reset: "alloc_reach a \<Longrightarrow> address_space_allocator_reset a = Inr a' \<Longrightarrow> alloc_reach a'"

lemma alloc_reach_inv: "alloc_reach a \<Longrightarrow> alloc_inv a"
proof (induction rule: alloc_reach.induct)
  case (reach_init sz cap a)
  moreover have "1 \<le> cap"
    using reach_init(1) by (simp add: address_space_allocator_init_def assert_then_eq_Inr_iff)
  ultimately show ?case
    using init_ok [of sz cap] by auto
next
  case (reach_allocate a sz a' off)
  then show ?case using allocate_ok [of a sz] by auto
next
  case (reach_fixed a sz off a' e)
  then show ?case using allocate_fixed_within [of a sz off] by auto
next
  case (reach_deallocate a off a' err)
  then show ?case using deallocate_ok [of a off] by auto
next
  case (reach_reset a a')
  then show ?case using reset_ok [of a] by auto
qed

lemma best_fit_offset:
  assumes inv: "alloc_inv a" and sz: "0 < sz" and cap: "capacity a < 2 ^ 30"
    and run: "address_space_allocator_allocate a sz = Inr (a', off)" "off \<noteq> BAD_OFFSET"
  shows "\<exists>b \<in> set (live a). fits sz b \<and> off = blk_offset b + (blk_size b - sz) \<and>
     (\<forall>c \<in> set (live a). fits sz c \<longrightarrow> blk_size b \<le> blk_size c)"
  using inv sz cap
proof (cases rule: allocate_cases)
  case full
  then show ?thesis using run by simp
next
  case (whole xs b ys a'')
  then show ?thesis using run by (intro bexI [of _ b]) auto
next
  case (tail xs b ys a'')
  then show ?thesis using run by (intro bexI [of _ b]) auto
qed

section \<open>Properties\<close>

lemmas allocator_eval =
  address_space_allocator_allocate_def address_space_allocator_allocate_fixed_def
  address_space_allocator_deallocate_def address_space_allocator_find_available_block_def
  address_space_allocator_find_available_block_at_offset_def address_space_allocator_split_block_def
  split_middle_def split_asserts_def grow_to_def address_space_allocator_grow_capacity_def
  address_space_allocator_release_block_def mark_allocated_def address_space_realloc_def
  address_space_allocator_init_def Let_def aread_def awrite_def memmove_def bitfield63_def

text \<open>An area of four pages whose last page is taken, in an array that is full.\<close>

definition demo_allocator :: address_space_allocator where
  "demo_allocator =
     \<lparr>blocks = [\<lparr>blk_offset = 0, blk_size = 12288, blk_available = True\<rparr>,
                \<lparr>blk_offset = 12288, blk_size = 4096, blk_available = False\<rparr>],
      nblocks = 2, capacity = 2, total_bytes = 16384\<rparr>"

lemma demo_allocator_inv: "alloc_inv demo_allocator"
  by (simp add: demo_allocator_def alloc_inv_def array_ok_def live_def word_less_nat_alt)

text \<open>
  C1. A request of positive size never faults: it keeps the invariant and either
  leaves the allocator alone, because no available block is large enough, or
  returns a range inside the area that meets no allocated range and adds exactly
  that range to the allocated ones.
\<close>

theorem allocate_serves_fresh_range:
  assumes "alloc_inv a" "0 < sz" "capacity a < 2 ^ 30"
  shows "\<exists>a' off. address_space_allocator_allocate a sz = Inr (a', off) \<and>
     alloc_inv a' \<and> allocation_ok a sz a' off"
  using assms by (rule allocate_ok)

theorem allocate_serves_fresh_range_witness:
  "\<exists>a'. address_space_allocator_allocate demo_allocator 4096 = Inr (a', 8192) \<and>
     alloc_inv a' \<and> allocation_ok demo_allocator 4096 a' 8192"
  using allocate_serves_fresh_range [OF demo_allocator_inv, of 4096]
  by (auto simp: demo_allocator_def allocator_eval)

text \<open>
  C14. Best fit: a served request comes from the end of an available block that is
  a smallest one among those large enough.
\<close>

theorem allocate_best_fit:
  assumes "alloc_inv a" "0 < sz" "capacity a < 2 ^ 30"
    "address_space_allocator_allocate a sz = Inr (a', off)" "off \<noteq> BAD_OFFSET"
  shows "\<exists>b \<in> set (live a). fits sz b \<and> off = blk_offset b + (blk_size b - sz) \<and>
     (\<forall>c \<in> set (live a). fits sz c \<longrightarrow> blk_size b \<le> blk_size c)"
  using assms by (rule best_fit_offset)

theorem allocate_best_fit_witness:
  "\<exists>b \<in> set (live demo_allocator). fits 4096 b \<and> 8192 = blk_offset b + (blk_size b - 4096) \<and>
     (\<forall>c \<in> set (live demo_allocator). fits 4096 c \<longrightarrow> blk_size b \<le> blk_size c)"
proof -
  obtain a' where "address_space_allocator_allocate demo_allocator 4096 = Inr (a', 8192)"
    by (simp add: demo_allocator_def allocator_eval)
  moreover have "(8192 :: u64) \<noteq> BAD_OFFSET"
    by (simp add: BAD_OFFSET_def)
  ultimately show ?thesis
    using allocate_best_fit [OF demo_allocator_inv, of 4096 a' 8192]
    by (simp add: demo_allocator_def)
qed

text \<open>
  C2. A release never faults and keeps the invariant, merging with whatever
  neighbours are available: at the start of an allocated range it returns 0 and
  frees that range and no other; at any other offset it returns EINVAL and
  changes nothing.
\<close>

theorem deallocate_frees_one_range:
  assumes "alloc_inv a"
  shows "\<exists>a' err. address_space_allocator_deallocate a off = Inr (a', err) \<and>
     alloc_inv a' \<and> capacity a' = capacity a \<and> deallocation_ok a off a' err"
  using assms by (rule deallocate_ok)

theorem deallocate_frees_one_range_witness:
  "\<exists>a'. address_space_allocator_deallocate demo_allocator 12288 = Inr (a', 0) \<and>
     alloc_inv a' \<and> capacity a' = 2 \<and> deallocation_ok demo_allocator 12288 a' 0"
  using deallocate_frees_one_range [OF demo_allocator_inv, of 12288]
  by (auto simp: demo_allocator_def allocator_eval)

text \<open>
  Releasing a range just served restores the set of allocated ranges.
\<close>

theorem allocate_deallocate_roundtrip:
  assumes "alloc_inv a" "alloc_room a" "0 < sz"
    "address_space_allocator_allocate a sz = Inr (a1, off)" "off \<noteq> BAD_OFFSET"
  shows "\<exists>a2. address_space_allocator_deallocate a1 off = Inr (a2, 0) \<and> alloc_inv a2 \<and>
     regions a2 = regions a"
  using assms by (rule as_alloc.allocate_then_free)

theorem allocate_deallocate_roundtrip_witness:
  "\<exists>a1 a2. address_space_allocator_allocate demo_allocator 4096 = Inr (a1, 8192) \<and>
     address_space_allocator_deallocate a1 8192 = Inr (a2, 0) \<and> regions a2 = regions demo_allocator"
proof -
  obtain a1 where a1: "address_space_allocator_allocate demo_allocator 4096 = Inr (a1, 8192)"
    by (simp add: demo_allocator_def allocator_eval)
  have "alloc_room demo_allocator" "(8192 :: u64) \<noteq> BAD_OFFSET"
    by (simp_all add: demo_allocator_def alloc_room_def BAD_OFFSET_def)
  with allocate_deallocate_roundtrip [OF demo_allocator_inv, of 4096 a1 8192] a1 show ?thesis
    by auto
qed

text \<open>
  C3. An allocator that is created, then driven by any sequence of requests of positive
  size, requests at an offset, releases of any offset, and resets, where no request at an
  offset starts in an available block and runs past its end (the calls that the code
  accepts wrongly) and the array stays below the size at which doubling it overflows:
  its live blocks tile the area without two available neighbours, and the allocated
  ranges lie inside the area and are pairwise disjoint.
\<close>

theorem reachable_allocations_disjoint:
  assumes "alloc_reach a"
  shows "alloc_inv a \<and> (\<forall>r \<in> regions a. range_in (alloc_area a) r) \<and>
     (\<forall>r \<in> regions a. \<forall>s \<in> regions a. r \<noteq> s \<longrightarrow> \<not> overlap r s)"
  using alloc_reach_inv [OF assms] regions_in_area [OF alloc_reach_inv [OF assms]]
    ranges_disjoint [OF alloc_invD(2) [OF alloc_reach_inv [OF assms]]]
  by (auto simp: regions_def)

theorem reachable_allocations_disjoint_witness:
  "\<exists>a1 a2 a3. address_space_allocator_init 16384 2 = Inr a1 \<and>
     address_space_allocator_allocate a1 4096 = Inr (a2, 12288) \<and>
     address_space_allocator_allocate_fixed a2 4096 4096 = Inr (a3, 0) \<and> alloc_reach a3 \<and> alloc_inv a3"
proof -
  have two: "replicate 2 fresh_block = [fresh_block, fresh_block]"
    by (simp add: numeral_2_eq_2)
  obtain a1 where a1: "address_space_allocator_init 16384 2 = Inr a1"
    by (simp add: allocator_eval)
  then have r1: "alloc_reach a1"
    by (rule reach_init) simp_all
  have a2: "address_space_allocator_allocate a1 4096 = Inr (demo_allocator, 12288)"
    using a1 two by (auto simp: demo_allocator_def allocator_eval)
  have "capacity a1 = 2"
    using a1 by (auto simp: allocator_eval)
  then have r2: "alloc_reach demo_allocator"
    using reach_allocate [OF r1 _ _ a2] by simp
  obtain a3 where a3: "address_space_allocator_allocate_fixed demo_allocator 4096 4096 = Inr (a3, 0)"
    by (simp add: demo_allocator_def allocator_eval)
  have "\<forall>b \<in> set (live demo_allocator). \<not> overruns 4096 4096 b" "capacity demo_allocator < 2 ^ 29"
    by (simp_all add: demo_allocator_def live_def overruns_def fits_def)
  then have "alloc_reach a3"
    using reach_fixed [OF r2 _ _ _ a3] by simp
  then show ?thesis
    using a1 a2 a3 reachable_allocations_disjoint [of a3] by blast
qed

text \<open>
  A request at an offset succeeds when an available block holds the whole
  range, and allocates exactly that range.
\<close>

theorem allocate_fixed_serves_held_range:
  assumes "alloc_inv a" "b \<in> set (live a)" "holds_range sz off b" "0 < sz" "capacity a < 2 ^ 29"
  shows "\<exists>a'. address_space_allocator_allocate_fixed a sz off = Inr (a', 0) \<and> alloc_inv a' \<and>
     allocation_ok a sz a' off"
  using assms by (rule allocate_fixed_ok)

theorem allocate_fixed_serves_held_range_witness:
  "\<exists>a'. address_space_allocator_allocate_fixed demo_allocator 4096 4096 = Inr (a', 0) \<and> alloc_inv a' \<and>
     allocation_ok demo_allocator 4096 a' 4096"
  by (rule allocate_fixed_serves_held_range
      [OF demo_allocator_inv, of "\<lparr>blk_offset = 0, blk_size = 12288, blk_available = True\<rparr>"])
    (simp_all add: demo_allocator_def live_def holds_range_def)

text \<open>
  C10. The search for a block at an offset looks only at where the range starts. Whatever the
  state of a well-formed allocator, a request that starts in an available block at least as
  large as the request, and runs past the end of that block, is accepted with result 0. If it
  is smaller than the block, the new range leaves the area or overlaps the allocated range
  behind the block, and the allocator is not well formed any more. If it is as large, the
  whole block is marked as allocated, which starts before the offset asked for.
\<close>

theorem allocate_fixed_accepts_overlap:
  assumes "alloc_inv a" "b \<in> set (live a)" "overruns sz off b" "capacity a < 2 ^ 29"
  shows "\<exists>a'. address_space_allocator_allocate_fixed a sz off = Inr (a', 0) \<and>
     (if sz < blk_size b
      then \<not> alloc_inv a' \<and> (unat off, unat sz) \<in> regions a' \<and>
        (\<not> range_in (alloc_area a) (unat off, unat sz) \<or>
         (\<exists>r \<in> regions a. r \<in> regions a' \<and> r \<noteq> (unat off, unat sz) \<and> overlap (unat off, unat sz) r))
      else regions a' = insert (range_of b) (regions a) \<and> fst (range_of b) < unat off)"
proof (cases "sz < blk_size b")
  case True
  then show ?thesis using overrun_breaks [OF assms] by simp
next
  case False
  then have "sz = blk_size b"
    using assms(3) by (simp add: overruns_def fits_def)
  then show ?thesis using overrun_whole [OF assms(1-3)] by simp
qed

theorem allocate_fixed_accepts_overlap_witness:
  "\<exists>a'. address_space_allocator_allocate_fixed demo_allocator 8192 8192 = Inr (a', 0) \<and> \<not> alloc_inv a' \<and>
     (8192, 8192) \<in> regions a' \<and> (12288, 4096) \<in> regions a'"
proof -
  let ?b = "\<lparr>blk_offset = 0, blk_size = 12288, blk_available = True\<rparr>"
  have "?b \<in> set (live demo_allocator)" "overruns 8192 8192 ?b" "capacity demo_allocator < 2 ^ 29"
    and r: "regions demo_allocator = {(12288, 4096)}" "alloc_area demo_allocator = 16384"
    by (simp_all add: demo_allocator_def live_def overruns_def fits_def regions_def range_of_def alloc_area_def)
  from allocate_fixed_accepts_overlap [OF demo_allocator_inv this(1-3)] show ?thesis
    by (auto simp: r range_in_def)
qed

text \<open>
  Destruction of a well-formed allocator passes its assertions exactly when
  every allocated range has been released.
\<close>

theorem destroy_iff_all_released:
  assumes "alloc_inv a"
  shows "address_space_allocator_destroy a = (if regions a = {} then Inr () else Inl AssertFail)"
  using assms by (rule destroy_iff)

theorem destroy_iff_all_released_witness:
  "address_space_allocator_destroy demo_allocator = Inl AssertFail"
  using destroy_iff_all_released [OF demo_allocator_inv]
  by (simp add: demo_allocator_def regions_def live_def)

end
