(* ===== verification/Address_Space_Device.thy ===== *)
theory Address_Space_Device
  imports Address_Allocator
begin

text \<open>
  The goldfish address space PCI device, \<^verbatim>\<open>qemu/hw/pci/goldfish_address_space.c\<close>:
  a register file in front of the address space allocator. The guest writes a
  size or an offset and then a command; the status register and an interrupt
  pulse answer. The host side of the emulator shares the allocator through the
  functions of the host interface. The control operations the device calls
  (handles, pings, deallocation callbacks) are a table of function pointers that
  another library fills in: they are a record of functions, passed in. A ping and
  the destruction of a handle reach the contexts of that library, which call back
  into the host interface while the device is locked; the two are programs of such
  calls, run against the device.
\<close>

section \<open>Registers and state\<close>

datatype address_space_register_id =
    REG_COMMAND | REG_STATUS | REG_GUEST_PAGE_SIZE | REG_BLOCK_SIZE_LOW | REG_BLOCK_SIZE_HIGH
  | REG_BLOCK_OFFSET_LOW | REG_BLOCK_OFFSET_HIGH | REG_PING | REG_PING_INFO_ADDR_LOW
  | REG_PING_INFO_ADDR_HIGH | REG_HANDLE | REG_PHYS_START_LOW | REG_PHYS_START_HIGH

text \<open>The switch on an offset: offsets that name no register match no case.\<close>

definition address_space_register :: "u64 \<Rightarrow> address_space_register_id option" where
  "address_space_register offset =
     map_of [(0, REG_COMMAND), (4, REG_STATUS), (8, REG_GUEST_PAGE_SIZE), (12, REG_BLOCK_SIZE_LOW),
       (16, REG_BLOCK_SIZE_HIGH), (20, REG_BLOCK_OFFSET_LOW), (24, REG_BLOCK_OFFSET_HIGH),
       (28, REG_PING), (32, REG_PING_INFO_ADDR_LOW), (36, REG_PING_INFO_ADDR_HIGH),
       (40, REG_HANDLE), (44, REG_PHYS_START_LOW), (48, REG_PHYS_START_HIGH)] (ucast offset :: u32)"

datatype address_space_command_id =
    CMD_ALLOCATE_BLOCK | CMD_DEALLOCATE_BLOCK | CMD_GEN_HANDLE | CMD_DESTROY_HANDLE
  | CMD_TELL_PING_INFO_ADDR

definition address_space_command :: "u64 \<Rightarrow> address_space_command_id option" where
  "address_space_command val =
     map_of [(1, CMD_ALLOCATE_BLOCK), (2, CMD_DEALLOCATE_BLOCK), (3, CMD_GEN_HANDLE),
       (4, CMD_DESTROY_HANDLE), (5, CMD_TELL_PING_INFO_ADDR)] (ucast val :: u32)"

record address_space_registers =
  status :: u32
  guest_page_size :: u32
  size_low :: u32
  size_high :: u32
  offset_low :: u32
  offset_high :: u32
  ping_reg :: u32
  ping_info_addr_low :: u32
  ping_info_addr_high :: u32
  handle :: u32
  phys_start_low :: u32
  phys_start_high :: u32

text \<open>
  The device: \<open>irq_pulses\<close> counts the pulses of its line, \<open>area_addr\<close> is the
  \<^verbatim>\<open>addr\<close> property of its memory region, \<open>host\<close> the state of the control
  operations.
\<close>

record 'h address_space_state =
  registers :: address_space_registers
  allocator :: address_space_allocator
  irq_pulses :: nat
  area_addr :: u64
  host :: 'h

text \<open>
  The calls of \<^verbatim>\<open>struct AddressSpaceHwFuncs\<close> that a context makes while the device is
  locked, each followed by what the context does with its result; or a fault of its own.
\<close>

datatype 'h hw_calls =
    Finish 'h
  | Crash fault
  | AllocSharedHostRegionLocked u64 "int \<times> u64 option \<Rightarrow> 'h hw_calls"
  | FreeSharedHostRegionLocked u64 "int \<Rightarrow> 'h hw_calls"
  | AllocSharedHostRegionFixedLocked u64 u64 "int \<Rightarrow> 'h hw_calls"
  | GetPhysAddrStartLocked "u64 \<Rightarrow> 'h hw_calls"
  | GetGuestPageSize "u32 \<Rightarrow> 'h hw_calls"

record 'h address_space_device_control_ops =
  gen_handle :: "'h \<Rightarrow> u32 \<times> 'h"
  destroy_handle :: "u32 \<Rightarrow> 'h \<Rightarrow> 'h hw_calls"
  tell_ping_info :: "u32 \<Rightarrow> u64 \<Rightarrow> 'h \<Rightarrow> 'h"
  ping :: "u32 \<Rightarrow> 'h \<Rightarrow> 'h hw_calls"
  run_deallocation_callbacks :: "u64 \<Rightarrow> 'h \<Rightarrow> 'h"

section \<open>Calls of the host under the lock\<close>

text \<open>The argument is the global \<^verbatim>\<open>s_current_state\<close>, null before the device exists.\<close>

definition goldfish_address_space_get_phys_addr_start_locked :: "'h address_space_state option \<Rightarrow> u64" where
  "goldfish_address_space_get_phys_addr_start_locked current =
    (case current of
       None \<Rightarrow> 0
     | Some state \<Rightarrow>
        (let r = merge_u64 (phys_start_low (registers state)) (phys_start_high (registers state)) in
         if r = 0 then area_addr state else r))"

text \<open>
  The host side. The flag stands for the output pointer \<^verbatim>\<open>offset\<close> not being null;
  what is stored through it is the last component.
\<close>

definition goldfish_address_space_alloc_shared_host_region_locked ::
  "'h address_space_state \<Rightarrow> u64 \<Rightarrow> bool \<Rightarrow> ('h address_space_state \<times> int \<times> u64 option) res" where
  "goldfish_address_space_alloc_shared_host_region_locked state page_aligned_size has_out =
     (if \<not> has_out then Inr (state, - int EINVAL, None)
      else rbind (address_space_allocator_allocate (allocator state) page_aligned_size) (\<lambda>(a, off).
        if off = BAD_OFFSET then Inr (state\<lparr>allocator := a\<rparr>, - int ENOMEM, None)
        else Inr (state\<lparr>allocator := a\<rparr>, 0, Some off)))"

definition goldfish_address_space_alloc_shared_host_region_fixed_locked ::
  "'h address_space_state \<Rightarrow> u64 \<Rightarrow> u64 \<Rightarrow> ('h address_space_state \<times> int) res" where
  "goldfish_address_space_alloc_shared_host_region_fixed_locked state page_aligned_size off =
     rbind (address_space_allocator_allocate_fixed (allocator state) page_aligned_size off) (\<lambda>(a, r).
       Inr (state\<lparr>allocator := a\<rparr>, if r \<noteq> 0 then - int ENOMEM else 0))"

definition goldfish_address_space_free_shared_host_region_locked ::
  "'h address_space_state \<Rightarrow> u64 \<Rightarrow> ('h address_space_state \<times> int) res" where
  "goldfish_address_space_free_shared_host_region_locked state off =
     rbind (address_space_allocator_deallocate (allocator state) off) (\<lambda>(a, r).
       Inr (state\<lparr>allocator := a\<rparr>, if r = 0 then 0 else - int EINVAL))"

text \<open>Running the calls of a context against the device.\<close>

primrec run_hw_calls :: "'h hw_calls \<Rightarrow> 'h address_space_state \<Rightarrow> 'h address_space_state res" where
  "run_hw_calls (Finish h) s = Inr (s\<lparr>host := h\<rparr>)"
| "run_hw_calls (Crash e) s = Inl e"
| "run_hw_calls (AllocSharedHostRegionLocked sz k) s =
     rbind (goldfish_address_space_alloc_shared_host_region_locked s sz True) (\<lambda>(s, r). run_hw_calls (k r) s)"
| "run_hw_calls (FreeSharedHostRegionLocked off k) s =
     rbind (goldfish_address_space_free_shared_host_region_locked s off) (\<lambda>(s, r). run_hw_calls (k r) s)"
| "run_hw_calls (AllocSharedHostRegionFixedLocked sz off k) s =
     rbind (goldfish_address_space_alloc_shared_host_region_fixed_locked s sz off) (\<lambda>(s, r). run_hw_calls (k r) s)"
| "run_hw_calls (GetPhysAddrStartLocked k) s =
     run_hw_calls (k (goldfish_address_space_get_phys_addr_start_locked (Some s))) s"
| "run_hw_calls (GetGuestPageSize k) s = run_hw_calls (k (guest_page_size (registers s))) s"

text \<open>
  How the contexts of \<^verbatim>\<open>address_space_shared_slots_host_memory_allocator.cpp\<close> use these calls: a
  block of the area is allocated, at any place or at the address a snapshot names, or freed;
  \<open>k\<close> is what the context does with the result.
\<close>

definition allocateAddressSpaceBlock :: "u32 \<Rightarrow> (u64 \<Rightarrow> 'h hw_calls) \<Rightarrow> 'h hw_calls" where
  "allocateAddressSpaceBlock sz k =
     AllocSharedHostRegionLocked (ucast sz) (\<lambda>(r, off).
       case off of
         None \<Rightarrow> k 0
       | Some off \<Rightarrow> if r \<noteq> 0 then k 0 else GetPhysAddrStartLocked (\<lambda>start. k (start + off)))"

definition allocateAddressSpaceBlockFixed :: "u64 \<Rightarrow> u32 \<Rightarrow> (u64 \<Rightarrow> 'h hw_calls) \<Rightarrow> 'h hw_calls" where
  "allocateAddressSpaceBlockFixed gpa sz k =
     GetPhysAddrStartLocked (\<lambda>start.
       let off = gpa - start in
       AllocSharedHostRegionFixedLocked (ucast sz) off (\<lambda>r.
         GetPhysAddrStartLocked (\<lambda>start. k (start + off))))"

definition freeAddressBlock :: "u64 \<Rightarrow> (int \<Rightarrow> 'h hw_calls) \<Rightarrow> 'h hw_calls" where
  "freeAddressBlock phys k =
     GetPhysAddrStartLocked (\<lambda>start.
       if phys < start then k (- 1) else FreeSharedHostRegionLocked (phys - start) k)"

section \<open>Commands\<close>

definition address_space_align_size :: "u64 \<Rightarrow> u64 \<Rightarrow> u64 res" where
  "address_space_align_size page_size sz =
     (if sz = 0 then Inr 0
      else if page_size = 0 then Inl DivByZero
      else Inr (((sz + page_size * 2 - 2) div page_size) * page_size))"

definition address_space_allocate_block ::
  "'h address_space_state \<Rightarrow> ('h address_space_state \<times> u32) res" where
  "address_space_allocate_block state =
    (let regs = registers state;
         sz = merge_u64 (size_low regs) (size_high regs) in
     rbind (address_space_align_size (ucast (guest_page_size regs)) sz) (\<lambda>aligned_size.
       if aligned_size = 0 then Inr (state, of_nat EINVAL)
       else rbind (address_space_allocator_allocate (allocator state) aligned_size) (\<lambda>(a, off).
         Inr (state\<lparr>allocator := a,
                registers := regs\<lparr>offset_low := lower_32_bits off, offset_high := upper_32_bits off,
                                  size_low := lower_32_bits aligned_size,
                                  size_high := upper_32_bits aligned_size\<rparr>\<rparr>,
              if off = BAD_OFFSET then of_nat ENOMEM else 0))))"

definition address_space_deallocate_block ::
  "'h address_space_device_control_ops \<Rightarrow> 'h address_space_state \<Rightarrow> ('h address_space_state \<times> u32) res" where
  "address_space_deallocate_block ops state =
    (let off = merge_u64 (offset_low (registers state)) (offset_high (registers state));
         physStart = goldfish_address_space_get_phys_addr_start_locked (Some state);
         state = (if physStart \<noteq> 0
                  then state\<lparr>host := run_deallocation_callbacks ops (physStart + off) (host state)\<rparr>
                  else state) in
     rbind (address_space_allocator_deallocate (allocator state) off) (\<lambda>(a, err).
       Inr (state\<lparr>allocator := a\<rparr>, of_nat err)))"

definition address_space_run_command ::
  "'h address_space_device_control_ops \<Rightarrow> 'h address_space_state \<Rightarrow> u64 \<Rightarrow>
   ('h address_space_state \<times> u32) res" where
  "address_space_run_command ops state cmd =
    (case address_space_command cmd of
       Some CMD_ALLOCATE_BLOCK \<Rightarrow> address_space_allocate_block state
     | Some CMD_DEALLOCATE_BLOCK \<Rightarrow> address_space_deallocate_block ops state
     | Some CMD_GEN_HANDLE \<Rightarrow>
        (let (h, s) = gen_handle ops (host state) in
         Inr (state\<lparr>host := s, registers := (registers state)\<lparr>handle := h\<rparr>\<rparr>, of_nat ENOSYS))
     | Some CMD_DESTROY_HANDLE \<Rightarrow>
         rbind (run_hw_calls (destroy_handle ops (handle (registers state)) (host state)) state)
           (\<lambda>state. Inr (state, of_nat ENOSYS))
     | Some CMD_TELL_PING_INFO_ADDR \<Rightarrow>
        (let phys = merge_u64 (ping_info_addr_low (registers state)) (ping_info_addr_high (registers state)) in
         Inr (state\<lparr>host := tell_ping_info ops (handle (registers state)) phys (host state)\<rparr>,
              of_nat ENOSYS))
     | None \<Rightarrow> Inr (state, of_nat ENOSYS))"

section \<open>Register access\<close>

definition address_space_control_read_locked :: "'h address_space_state \<Rightarrow> u64 \<Rightarrow> u64 res" where
  "address_space_control_read_locked state offset =
    (let r = registers state in
     case address_space_register offset of
       None \<Rightarrow> Inl AssertFail
     | Some REG_COMMAND \<Rightarrow> Inl AssertFail
     | Some REG_STATUS \<Rightarrow> Inr (ucast (status r))
     | Some REG_GUEST_PAGE_SIZE \<Rightarrow> Inr (ucast (guest_page_size r))
     | Some REG_BLOCK_SIZE_LOW \<Rightarrow> Inr (ucast (size_low r))
     | Some REG_BLOCK_SIZE_HIGH \<Rightarrow> Inr (ucast (size_high r))
     | Some REG_BLOCK_OFFSET_LOW \<Rightarrow> Inr (ucast (offset_low r))
     | Some REG_BLOCK_OFFSET_HIGH \<Rightarrow> Inr (ucast (offset_high r))
     | Some REG_PING \<Rightarrow> Inr (ucast (ping_reg r))
     | Some REG_PING_INFO_ADDR_LOW \<Rightarrow> Inr (ucast (ping_info_addr_low r))
     | Some REG_PING_INFO_ADDR_HIGH \<Rightarrow> Inr (ucast (ping_info_addr_high r))
     | Some REG_HANDLE \<Rightarrow> Inr (ucast (handle r))
     | Some REG_PHYS_START_LOW \<Rightarrow> Inr (ucast (phys_start_low r))
     | Some REG_PHYS_START_HIGH \<Rightarrow> Inr (ucast (phys_start_high r)))"

definition address_space_control_write_locked ::
  "'h address_space_device_control_ops \<Rightarrow> 'h address_space_state \<Rightarrow> u64 \<Rightarrow> u64 \<Rightarrow> nat \<Rightarrow>
   'h address_space_state res" where
  "address_space_control_write_locked ops state offset val sz =
    (if sz \<noteq> 4 then Inr state
     else let r = registers state; v = (ucast val :: u32) in
     case address_space_register offset of
       None \<Rightarrow> Inr state
     | Some REG_COMMAND \<Rightarrow>
         rbind (address_space_run_command ops state val) (\<lambda>(state, st).
           Inr (state\<lparr>registers := (registers state)\<lparr>status := st\<rparr>, irq_pulses := irq_pulses state + 1\<rparr>))
     | Some REG_STATUS \<Rightarrow> Inr state
     | Some REG_GUEST_PAGE_SIZE \<Rightarrow> Inr (state\<lparr>registers := r\<lparr>guest_page_size := v\<rparr>\<rparr>)
     | Some REG_BLOCK_SIZE_LOW \<Rightarrow> Inr (state\<lparr>registers := r\<lparr>size_low := v\<rparr>\<rparr>)
     | Some REG_BLOCK_SIZE_HIGH \<Rightarrow> Inr (state\<lparr>registers := r\<lparr>size_high := v\<rparr>\<rparr>)
     | Some REG_BLOCK_OFFSET_LOW \<Rightarrow> Inr (state\<lparr>registers := r\<lparr>offset_low := v\<rparr>\<rparr>)
     | Some REG_BLOCK_OFFSET_HIGH \<Rightarrow> Inr (state\<lparr>registers := r\<lparr>offset_high := v\<rparr>\<rparr>)
     | Some REG_PING \<Rightarrow> run_hw_calls (ping ops v (host state)) state
     | Some REG_PING_INFO_ADDR_LOW \<Rightarrow> Inr (state\<lparr>registers := r\<lparr>ping_info_addr_low := v\<rparr>\<rparr>)
     | Some REG_PING_INFO_ADDR_HIGH \<Rightarrow> Inr (state\<lparr>registers := r\<lparr>ping_info_addr_high := v\<rparr>\<rparr>)
     | Some REG_HANDLE \<Rightarrow> Inr (state\<lparr>registers := r\<lparr>handle := v\<rparr>\<rparr>)
     | Some REG_PHYS_START_LOW \<Rightarrow> Inr (state\<lparr>registers := r\<lparr>phys_start_low := v\<rparr>\<rparr>)
     | Some REG_PHYS_START_HIGH \<Rightarrow> Inr (state\<lparr>registers := r\<lparr>phys_start_high := v\<rparr>\<rparr>))"

definition address_space_control_read :: "'h address_space_state \<Rightarrow> u64 \<Rightarrow> nat \<Rightarrow> u64 res" where
  "address_space_control_read state offset sz =
     (if sz \<noteq> 4 then Inr 0 else address_space_control_read_locked state offset)"

definition address_space_control_write ::
  "'h address_space_device_control_ops \<Rightarrow> 'h address_space_state \<Rightarrow> u64 \<Rightarrow> u64 \<Rightarrow> nat \<Rightarrow>
   'h address_space_state res" where
  "address_space_control_write ops state offset val sz =
     (if sz \<noteq> 4 then Inr state else address_space_control_write_locked ops state offset val sz)"

section \<open>Life cycle and host interface\<close>

definition GOLDFISH_ADDRESS_SPACE_AREA_SIZE :: u64 where
  "GOLDFISH_ADDRESS_SPACE_AREA_SIZE = push_bit 30 16"

definition DEFAULT_GUEST_PAGE_SIZE :: u32 where
  "DEFAULT_GUEST_PAGE_SIZE = 4096"

text \<open>The object system hands the device out zeroed.\<close>

definition zero_registers :: address_space_registers where
  "zero_registers =
     \<lparr>status = 0, guest_page_size = 0, size_low = 0, size_high = 0, offset_low = 0, offset_high = 0,
      ping_reg = 0, ping_info_addr_low = 0, ping_info_addr_high = 0, handle = 0,
      phys_start_low = 0, phys_start_high = 0\<rparr>"

definition address_space_pci_realize ::
  "'h address_space_state option \<Rightarrow> u64 \<Rightarrow> 'h \<Rightarrow> 'h address_space_state res" where
  "address_space_pci_realize current addr h =
     rbind (address_space_allocator_init GOLDFISH_ADDRESS_SPACE_AREA_SIZE 32) (\<lambda>a.
       if current \<noteq> None then Inl CpuAbort
       else Inr \<lparr>registers = zero_registers\<lparr>guest_page_size := DEFAULT_GUEST_PAGE_SIZE\<rparr>,
                 allocator = a, irq_pulses = 0, area_addr = addr, host = h\<rparr>)"

definition address_space_pci_unrealize :: "'h address_space_state \<Rightarrow> 'h address_space_state option res" where
  "address_space_pci_unrealize state =
     rbind (address_space_allocator_destroy (allocator state)) (\<lambda>_. Inr None)"

definition goldfish_address_space_alloc_shared_host_region ::
  "'h address_space_state option \<Rightarrow> u64 \<Rightarrow> bool \<Rightarrow>
   ('h address_space_state option \<times> int \<times> u64 option) res" where
  "goldfish_address_space_alloc_shared_host_region current page_aligned_size has_out =
    (case current of
       None \<Rightarrow> Inr (None, - int EINVAL, None)
     | Some state \<Rightarrow>
         rbind (goldfish_address_space_alloc_shared_host_region_locked state page_aligned_size has_out)
           (\<lambda>(s, r). Inr (Some s, r)))"

definition goldfish_address_space_free_shared_host_region ::
  "'h address_space_state option \<Rightarrow> u64 \<Rightarrow> ('h address_space_state option \<times> int) res" where
  "goldfish_address_space_free_shared_host_region current off =
    (case current of
       None \<Rightarrow> Inr (None, - int EINVAL)
     | Some state \<Rightarrow>
         rbind (goldfish_address_space_free_shared_host_region_locked state off)
           (\<lambda>(s, r). Inr (Some s, r)))"

definition goldfish_address_space_get_phys_addr_start :: "'h address_space_state option \<Rightarrow> u64" where
  "goldfish_address_space_get_phys_addr_start current =
     (if current = None then BAD_OFFSET
      else goldfish_address_space_get_phys_addr_start_locked current)"

definition goldfish_address_space_get_guest_page_size :: "'h address_space_state option \<Rightarrow> u32 res" where
  "goldfish_address_space_get_guest_page_size current =
     (case current of None \<Rightarrow> Inl NullDeref | Some state \<Rightarrow> Inr (guest_page_size (registers state)))"

section \<open>Alignment\<close>

text \<open>
  The size is rounded so that the bytes are covered wherever they start inside
  a page, as long as the sum does not wrap.
\<close>

lemma align_size_nat:
  assumes p: "0 < unat p" and s: "0 < unat s" and small: "unat s + 2 * unat p < 2 ^ 64"
  shows "\<exists>n. address_space_align_size p s = Inr n \<and>
     unat n = (unat s + 2 * unat p - 2) div unat p * unat p"
proof -
  let ?n = "(s + p * 2 - 2) div p * p"
  have p2: "unat (p * 2) = unat p * 2"
    using small by (simp add: unat_word_ariths)
  have sp: "unat (s + p * 2) = unat s + unat p * 2"
    using small by (subst unat_plus_no_overflow) (simp_all add: p2)
  have m2: "unat (s + p * 2 - 2) = unat s + unat p * 2 - 2"
    using p by (subst unat_minus_no_underflow) (simp_all add: sp)
  have d: "unat ((s + p * 2 - 2) div p) = (unat s + unat p * 2 - 2) div unat p"
    by (simp add: unat_div m2)
  have "(unat s + unat p * 2 - 2) div unat p * unat p \<le> unat s + unat p * 2 - 2"
    by simp
  also have "\<dots> < 2 ^ 64"
    using small by simp
  finally have "unat ?n = (unat s + unat p * 2 - 2) div unat p * unat p"
    by (subst unat_mult_no_overflow) (simp_all only: d, simp_all)
  moreover have "s \<noteq> 0" "p \<noteq> 0"
    using p s by auto
  ultimately show ?thesis
    by (simp add: address_space_align_size_def mult.commute)
qed

lemma align_size_covers:
  assumes p: "0 < unat p" and s: "0 < unat s" and small: "unat s + 2 * unat p < 2 ^ 64"
  shows "\<exists>n. address_space_align_size p s = Inr n \<and> unat p dvd unat n \<and>
     unat s + (unat p - 1) \<le> unat n \<and> unat n < unat s + 2 * unat p - 1"
proof -
  let ?t = "unat s + 2 * unat p - 2"
  obtain n where n: "address_space_align_size p s = Inr n" "unat n = ?t div unat p * unat p"
    using align_size_nat [OF assms] by blast
  have "?t div unat p * unat p + ?t mod unat p = ?t" "?t mod unat p < unat p"
    using p by simp_all
  then show ?thesis
    using n p s by (intro exI [of _ n] conjI) (simp, simp, linarith+)
qed

section \<open>Commands keep the allocator well formed\<close>

definition device_inv :: "'h address_space_state \<Rightarrow> bool" where
  "device_inv s \<longleftrightarrow> alloc_inv (allocator s)"

definition device_ready :: "'h address_space_state \<Rightarrow> bool" where
  "device_ready s \<longleftrightarrow> device_inv s \<and> alloc_room (allocator s) \<and> guest_page_size (registers s) \<noteq> 0"

definition block_size :: "'h address_space_state \<Rightarrow> u64" where
  "block_size s = merge_u64 (size_low (registers s)) (size_high (registers s))"

definition block_offset :: "'h address_space_state \<Rightarrow> u64" where
  "block_offset s = merge_u64 (offset_low (registers s)) (offset_high (registers s))"

definition page_size :: "'h address_space_state \<Rightarrow> u64" where
  "page_size s = ucast (guest_page_size (registers s))"

lemma unat_page_size: "unat (page_size s) = unat (guest_page_size (registers s))"
  by (simp add: page_size_def unsigned_ucast_eq take_bit_nat_eq_self_iff less_trans [OF unsigned_less])

lemma page_size_eq_0_iff [simp]: "page_size s = 0 \<longleftrightarrow> guest_page_size (registers s) = 0"
  using unat_page_size [of s] by (metis unat_0 unat_inj_iff)

text \<open>One allocation command, whatever the registers hold.\<close>

lemma allocate_block_cases:
  assumes "device_ready s"
  obtains (invalid) n where "address_space_align_size (page_size s) (block_size s) = Inr n" "n = 0"
      "address_space_allocate_block s = Inr (s, of_nat EINVAL)"
  | (full) n s' where "address_space_align_size (page_size s) (block_size s) = Inr n" "0 < n"
      "address_space_allocate_block s = Inr (s', of_nat ENOMEM)" "block_size s' = n"
      "allocator s' = allocator s" "guest_page_size (registers s') = guest_page_size (registers s)"
      "irq_pulses s' = irq_pulses s" "block_offset s' = BAD_OFFSET"
  | (served) n s' where "address_space_align_size (page_size s) (block_size s) = Inr n" "0 < n"
      "address_space_allocate_block s = Inr (s', 0)" "block_size s' = n" "device_inv s'"
      "alloc_area (allocator s') = alloc_area (allocator s)"
      "regions (allocator s') = insert (unat (block_offset s'), unat n) (regions (allocator s))"
      "range_in (alloc_area (allocator s)) (unat (block_offset s'), unat n)"
      "\<forall>r \<in> regions (allocator s). \<not> overlap (unat (block_offset s'), unat n) r"
      "guest_page_size (registers s') = guest_page_size (registers s)" "irq_pulses s' = irq_pulses s"
proof -
  have inv: "alloc_inv (allocator s)" "alloc_room (allocator s)" and p: "page_size s \<noteq> 0"
    using assms by (simp_all add: device_ready_def device_inv_def)
  obtain n where n: "address_space_align_size (page_size s) (block_size s) = Inr n"
    using p by (cases "block_size s = 0") (auto simp: address_space_align_size_def)
  have run: "address_space_allocate_block s =
      (if n = 0 then Inr (s, of_nat EINVAL)
       else rbind (address_space_allocator_allocate (allocator s) n) (\<lambda>(a, off).
         Inr (s\<lparr>allocator := a,
                registers := (registers s)\<lparr>offset_low := lower_32_bits off, offset_high := upper_32_bits off,
                                  size_low := lower_32_bits n, size_high := upper_32_bits n\<rparr>\<rparr>,
              if off = BAD_OFFSET then of_nat ENOMEM else 0)))"
    using n unfolding page_size_def block_size_def address_space_allocate_block_def Let_def by simp
  show thesis
  proof (cases "n = 0")
    case True
    then show thesis using n run by (intro invalid) auto
  next
    case False
    then have pos: "0 < n" using word_neq_0_conv by blast
    obtain a off where a: "address_space_allocator_allocate (allocator s) n = Inr (a, off)"
      using as_alloc.allocate_returns [OF inv pos] by blast
    note law = as_alloc.allocate_law [OF inv pos a]
    let ?s = "s\<lparr>allocator := a,
        registers := (registers s)\<lparr>offset_low := lower_32_bits off, offset_high := upper_32_bits off,
                          size_low := lower_32_bits n, size_high := upper_32_bits n\<rparr>\<rparr>"
    show thesis
    proof (cases "off = BAD_OFFSET")
      case True
      with law have "a = allocator s" by simp
      with True a run pos show thesis
        by (intro full [OF n pos, of ?s]) (auto simp: block_size_def block_offset_def)
    next
      case False
      with law a run pos show thesis
        by (intro served [OF n pos, of ?s])
          (auto simp: block_size_def block_offset_def device_inv_def)
    qed
  qed
qed

lemma deallocate_block_ok:
  assumes "device_inv s"
  shows "\<exists>s' err. address_space_deallocate_block ops s = Inr (s', of_nat err) \<and> device_inv s' \<and>
     registers s' = registers s \<and> irq_pulses s' = irq_pulses s \<and>
     alloc_area (allocator s') = alloc_area (allocator s) \<and>
     (if \<exists>n. (unat (block_offset s), n) \<in> regions (allocator s)
      then err = 0 \<and> regions (allocator s') = regions (allocator s) - {r. fst r = unat (block_offset s)}
      else err = EINVAL \<and> allocator s' = allocator s)"
proof -
  have inv: "alloc_inv (allocator s)" using assms by (simp add: device_inv_def)
  obtain a err where a: "address_space_allocator_deallocate (allocator s) (block_offset s) = Inr (a, err)"
    "alloc_inv a" "deallocation_ok (allocator s) (block_offset s) a err"
    using deallocate_ok [OF inv, of "block_offset s"] by blast
  have "alloc_area a = alloc_area (allocator s)"
    using a(3) by (auto simp: deallocation_ok_def alloc_area_def split: if_splits)
  moreover let ?h = "if goldfish_address_space_get_phys_addr_start_locked (Some s) \<noteq> 0
      then run_deallocation_callbacks ops
        (goldfish_address_space_get_phys_addr_start_locked (Some s) + block_offset s) (host s)
      else host s"
  have "address_space_deallocate_block ops s = Inr (s\<lparr>host := ?h, allocator := a\<rparr>, of_nat err)"
    using a(1) by (simp add: address_space_deallocate_block_def block_offset_def Let_def)
  moreover have "(if \<exists>n. (unat (block_offset s), n) \<in> regions (allocator s)
      then err = 0 \<and> regions a = regions (allocator s) - {r. fst r = unat (block_offset s)}
      else err = EINVAL \<and> a = allocator s)"
    using a(3) by (simp add: deallocation_ok_def split: if_splits)
  ultimately show ?thesis
    using a(2)
    by (intro exI [of _ "s\<lparr>host := ?h, allocator := a\<rparr>"] exI [of _ err]) (simp add: device_inv_def)
qed

text \<open>
  What the host interface relies on: a region is not empty, a region at a fixed place does
  not run past the end of an available block that could hold it, and the block array can grow.
  A context that fails by itself stops the emulator whatever the device does.
\<close>

primrec calls_ok :: "'h hw_calls \<Rightarrow> 'h address_space_state \<Rightarrow> bool" where
  "calls_ok (Finish h) s = True"
| "calls_ok (Crash e) s = False"
| "calls_ok (AllocSharedHostRegionLocked sz k) s =
    (0 < sz \<and> alloc_room (allocator s) \<and>
     (case goldfish_address_space_alloc_shared_host_region_locked s sz True of
        Inl _ \<Rightarrow> True | Inr (s', r) \<Rightarrow> calls_ok (k r) s'))"
| "calls_ok (FreeSharedHostRegionLocked off k) s =
    (case goldfish_address_space_free_shared_host_region_locked s off of
       Inl _ \<Rightarrow> True | Inr (s', r) \<Rightarrow> calls_ok (k r) s')"
| "calls_ok (AllocSharedHostRegionFixedLocked sz off k) s =
    (0 < sz \<and> capacity (allocator s) < 2 ^ 29 \<and> (\<forall>b \<in> set (live (allocator s)). \<not> overruns sz off b) \<and>
     (case goldfish_address_space_alloc_shared_host_region_fixed_locked s sz off of
        Inl _ \<Rightarrow> True | Inr (s', r) \<Rightarrow> calls_ok (k r) s'))"
| "calls_ok (GetPhysAddrStartLocked k) s =
     calls_ok (k (goldfish_address_space_get_phys_addr_start_locked (Some s))) s"
| "calls_ok (GetGuestPageSize k) s = calls_ok (k (guest_page_size (registers s))) s"

text \<open>What a locked call keeps of the device.\<close>

definition same_device :: "'h address_space_state \<Rightarrow> 'h address_space_state \<Rightarrow> bool" where
  "same_device s s' \<longleftrightarrow> device_inv s' \<and> alloc_area (allocator s') = alloc_area (allocator s) \<and>
     registers s' = registers s \<and> irq_pulses s' = irq_pulses s"

lemma same_device_trans: "same_device s s' \<Longrightarrow> same_device s' s'' \<Longrightarrow> same_device s s''"
  by (simp add: same_device_def)

lemma alloc_locked_keeps:
  assumes "device_inv s" "0 < sz" "alloc_room (allocator s)"
  shows "\<exists>s' r. goldfish_address_space_alloc_shared_host_region_locked s sz True = Inr (s', r) \<and> same_device s s'"
proof -
  have inv: "alloc_inv (allocator s)" using assms(1) by (simp add: device_inv_def)
  obtain a off where a: "address_space_allocator_allocate (allocator s) sz = Inr (a, off)"
    using as_alloc.allocate_returns [OF inv assms(3,2)] by blast
  show ?thesis
    using a as_alloc.allocate_law [OF inv assms(3,2) a] assms(1)
    by (auto simp: goldfish_address_space_alloc_shared_host_region_locked_def same_device_def device_inv_def
        split: if_splits)
qed

lemma free_locked_keeps:
  assumes "device_inv s"
  shows "\<exists>s' r. goldfish_address_space_free_shared_host_region_locked s off = Inr (s', r) \<and> same_device s s'"
proof -
  obtain a err where "address_space_allocator_deallocate (allocator s) off = Inr (a, err)" "alloc_inv a"
    "deallocation_ok (allocator s) off a err"
    using deallocate_ok [of "allocator s" off] assms by (auto simp: device_inv_def)
  then show ?thesis
    by (auto simp: goldfish_address_space_free_shared_host_region_locked_def same_device_def device_inv_def
        deallocation_ok_def alloc_area_def split: if_splits)
qed

lemma fixed_locked_keeps:
  assumes "device_inv s" "0 < sz" "capacity (allocator s) < 2 ^ 29" "\<forall>b \<in> set (live (allocator s)). \<not> overruns sz off b"
  shows "\<exists>s' r. goldfish_address_space_alloc_shared_host_region_fixed_locked s sz off = Inr (s', r) \<and> same_device s s'"
proof -
  obtain a e where "address_space_allocator_allocate_fixed (allocator s) sz off = Inr (a, e)" "alloc_inv a"
    "if e = 0 then allocation_ok (allocator s) sz a off else a = allocator s"
    using allocate_fixed_within [OF _ assms(2-4)] assms(1) by (auto simp: device_inv_def)
  then show ?thesis
    by (auto simp: goldfish_address_space_alloc_shared_host_region_fixed_locked_def same_device_def device_inv_def
        allocation_ok_def alloc_area_def split: if_splits)
qed

lemma run_hw_calls_keeps:
  assumes "device_inv s" "calls_ok p s"
  shows "\<exists>s'. run_hw_calls p s = Inr s' \<and> same_device s s'"
  using assms
proof (induction p arbitrary: s)
  case (AllocSharedHostRegionLocked sz k)
  then obtain s1 r where s1: "goldfish_address_space_alloc_shared_host_region_locked s sz True = Inr (s1, r)" "same_device s s1"
    using alloc_locked_keeps [of s sz] by auto
  then show ?case
    using AllocSharedHostRegionLocked.IH [of "k r" s1] AllocSharedHostRegionLocked.prems
    by (auto simp: same_device_def)
next
  case (FreeSharedHostRegionLocked off k)
  then obtain s1 r where s1: "goldfish_address_space_free_shared_host_region_locked s off = Inr (s1, r)" "same_device s s1"
    using free_locked_keeps by blast
  then show ?case
    using FreeSharedHostRegionLocked.IH [of "k r" s1] FreeSharedHostRegionLocked.prems
    by (auto simp: same_device_def)
next
  case (AllocSharedHostRegionFixedLocked sz off k)
  then obtain s1 r where s1: "goldfish_address_space_alloc_shared_host_region_fixed_locked s sz off = Inr (s1, r)"
    "same_device s s1"
    using fixed_locked_keeps [of s sz off] by auto
  then show ?case
    using AllocSharedHostRegionFixedLocked.IH [of "k r" s1] AllocSharedHostRegionFixedLocked.prems
    by (auto simp: same_device_def)
qed (auto simp: same_device_def device_inv_def)

lemma run_command_keeps:
  assumes "device_ready s" "calls_ok (destroy_handle ops (handle (registers s)) (host s)) s"
  shows "\<exists>s' st. address_space_run_command ops s cmd = Inr (s', st) \<and> device_inv s' \<and>
     alloc_area (allocator s') = alloc_area (allocator s) \<and>
     guest_page_size (registers s') = guest_page_size (registers s) \<and> irq_pulses s' = irq_pulses s"
proof (cases "address_space_command cmd")
  case None
  then show ?thesis
    using assms by (simp add: address_space_run_command_def device_ready_def)
next
  case (Some c)
  have inv: "device_inv s" using assms by (simp add: device_ready_def)
  show ?thesis
  proof (cases c)
    case CMD_ALLOCATE_BLOCK
    with Some inv show ?thesis
      by (cases rule: allocate_block_cases [OF assms(1)])
        (auto simp: address_space_run_command_def device_inv_def)
  next
    case CMD_DEALLOCATE_BLOCK
    with Some deallocate_block_ok [OF inv, of ops] show ?thesis
      by (auto simp: address_space_run_command_def)
  next
    case CMD_DESTROY_HANDLE
    with Some run_hw_calls_keeps [OF inv assms(2)] show ?thesis
      by (auto simp: address_space_run_command_def same_device_def)
  qed (use Some inv in \<open>auto simp: address_space_run_command_def device_inv_def Let_def split: prod.splits\<close>)
qed

lemmas device_write_defs =
  address_space_control_write_def address_space_control_write_locked_def Let_def

lemma control_write_keeps:
  assumes "device_ready s"
    and "calls_ok (destroy_handle ops (handle (registers s)) (host s)) s" "calls_ok (ping ops (ucast val) (host s)) s"
  shows "\<exists>s'. address_space_control_write ops s offset val sz = Inr s' \<and> device_inv s' \<and>
     alloc_area (allocator s') = alloc_area (allocator s)"
proof -
  have inv: "device_inv s" using assms by (simp add: device_ready_def)
  consider "sz \<noteq> 4" | "sz = 4" "address_space_register offset = None"
    | r where "sz = 4" "address_space_register offset = Some r"
    by fastforce
  then show ?thesis
  proof cases
    case (3 r)
    then show ?thesis
      using inv run_command_keeps [OF assms(1,2), of val] run_hw_calls_keeps [OF inv assms(3)]
      by (cases r) (auto simp: device_write_defs device_inv_def same_device_def)
  qed (use inv in \<open>simp_all add: device_write_defs\<close>)
qed

text \<open>What the registers hold after a command, by the outcome of the request.\<close>

lemma allocate_command_ok:
  assumes ready: "device_ready s" and sz: "0 < unat (block_size s)"
    and small: "unat (block_size s) + 2 * unat (page_size s) < 2 ^ 64"
  shows "\<exists>s' n. address_space_control_write ops s 0 1 4 = Inr s' \<and> device_inv s' \<and>
     irq_pulses s' = irq_pulses s + 1 \<and> block_size s' = n \<and> unat (page_size s) dvd unat n \<and>
     unat (block_size s) + (unat (page_size s) - 1) \<le> unat n \<and>
     (if status (registers s') = 0
      then regions (allocator s') = insert (unat (block_offset s'), unat n) (regions (allocator s)) \<and>
        range_in (alloc_area (allocator s)) (unat (block_offset s'), unat n) \<and>
        (\<forall>r \<in> regions (allocator s). \<not> overlap (unat (block_offset s'), unat n) r)
      else status (registers s') = of_nat ENOMEM \<and> allocator s' = allocator s)"
proof -
  have p: "0 < unat (page_size s)"
    using ready by (simp add: device_ready_def unat_page_size unat_gt_0)
  obtain n where n: "address_space_align_size (page_size s) (block_size s) = Inr n"
    "unat (page_size s) dvd unat n" "unat (block_size s) + (unat (page_size s) - 1) \<le> unat n"
    using align_size_covers [OF p sz small] by blast
  have pos: "n \<noteq> 0" using n(3) sz by auto
  have cmd: "address_space_command 1 = Some CMD_ALLOCATE_BLOCK" "address_space_register 0 = Some REG_COMMAND"
    by (simp_all add: address_space_command_def address_space_register_def)
  have wr: "address_space_control_write ops s 0 1 4 =
      rbind (address_space_allocate_block s) (\<lambda>(s, st).
        Inr (s\<lparr>registers := (registers s)\<lparr>status := st\<rparr>, irq_pulses := irq_pulses s + 1\<rparr>))"
    by (simp add: device_write_defs cmd address_space_run_command_def)
  show ?thesis
    using ready
  proof (cases rule: allocate_block_cases)
    case (invalid m)
    with n pos show ?thesis by simp
  next
    case (full m s')
    let ?s = "s'\<lparr>registers := (registers s')\<lparr>status := of_nat ENOMEM\<rparr>, irq_pulses := irq_pulses s' + 1\<rparr>"
    show ?thesis
      using full n ready wr
      by (intro exI [of _ ?s] exI [of _ n])
        (simp add: block_size_def block_offset_def device_inv_def device_ready_def)
  next
    case (served m s')
    let ?s = "s'\<lparr>registers := (registers s')\<lparr>status := 0\<rparr>, irq_pulses := irq_pulses s' + 1\<rparr>"
    show ?thesis
      using served n ready wr
      by (intro exI [of _ ?s] exI [of _ n])
        (simp add: block_size_def block_offset_def device_inv_def device_ready_def)
  qed
qed

lemma deallocate_command_ok:
  assumes "device_inv s"
  shows "\<exists>s'. address_space_control_write ops s 0 2 4 = Inr s' \<and> device_inv s' \<and>
     irq_pulses s' = irq_pulses s + 1 \<and>
     (if \<exists>n. (unat (block_offset s), n) \<in> regions (allocator s)
      then status (registers s') = 0 \<and>
        regions (allocator s') = regions (allocator s) - {r. fst r = unat (block_offset s)}
      else status (registers s') = of_nat EINVAL \<and> allocator s' = allocator s)"
proof -
  obtain s1 err where s1: "address_space_deallocate_block ops s = Inr (s1, of_nat err)" "device_inv s1"
    "irq_pulses s1 = irq_pulses s"
    "if \<exists>n. (unat (block_offset s), n) \<in> regions (allocator s)
     then err = 0 \<and> regions (allocator s1) = regions (allocator s) - {r. fst r = unat (block_offset s)}
     else err = EINVAL \<and> allocator s1 = allocator s"
    using deallocate_block_ok [OF assms, of ops] by blast
  have cmd: "address_space_command 2 = Some CMD_DEALLOCATE_BLOCK" "address_space_register 0 = Some REG_COMMAND"
    by (simp_all add: address_space_command_def address_space_register_def)
  let ?s = "s1\<lparr>registers := (registers s1)\<lparr>status := of_nat err\<rparr>, irq_pulses := irq_pulses s1 + 1\<rparr>"
  have "address_space_control_write ops s 0 2 4 = Inr ?s"
    by (simp add: device_write_defs cmd address_space_run_command_def s1(1))
  then show ?thesis
    using s1(2-4) by (intro exI [of _ ?s]) (simp add: device_inv_def split: if_splits)
qed

lemma realize_ok:
  "\<exists>s. address_space_pci_realize None addr h = Inr s \<and> device_ready s \<and> regions (allocator s) = {} \<and>
     alloc_area (allocator s) = 2 ^ 34"
proof -
  have sz: "unat GOLDFISH_ADDRESS_SPACE_AREA_SIZE = 2 ^ 34"
    by (simp add: GOLDFISH_ADDRESS_SPACE_AREA_SIZE_def)
  obtain a where a: "address_space_allocator_init GOLDFISH_ADDRESS_SPACE_AREA_SIZE 32 = Inr a" "alloc_inv a"
    "regions a = {}" "total_bytes a = GOLDFISH_ADDRESS_SPACE_AREA_SIZE" "capacity a = 32"
    using init_ok [of GOLDFISH_ADDRESS_SPACE_AREA_SIZE 32] sz by (auto simp: word_less_nat_alt)
  then show ?thesis
    using sz
    by (simp add: address_space_pci_realize_def device_ready_def device_inv_def alloc_room_def
        DEFAULT_GUEST_PAGE_SIZE_def alloc_area_def)
qed

section \<open>Properties\<close>

text \<open>A device over the demonstration allocator, asked for one byte.\<close>

definition null_control_ops :: "unit address_space_device_control_ops" where
  "null_control_ops =
     \<lparr>gen_handle = \<lambda>h. (0, h), destroy_handle = \<lambda>_ h. Finish h, tell_ping_info = \<lambda>_ _ h. h,
      ping = \<lambda>_ h. Finish h, run_deallocation_callbacks = \<lambda>_ h. h\<rparr>"

definition demo_device :: "unit address_space_state" where
  "demo_device =
     \<lparr>registers = zero_registers\<lparr>guest_page_size := 4096, size_low := 1, offset_low := 12288\<rparr>,
      allocator = demo_allocator, irq_pulses = 0, area_addr = 0, host = ()\<rparr>"

lemma demo_device_ready: "device_ready demo_device"
  using demo_allocator_inv
  by (simp add: demo_device_def device_ready_def device_inv_def alloc_room_def demo_allocator_def)

lemma demo_device_fields:
  "block_size demo_device = 1" "block_offset demo_device = 12288" "page_size demo_device = 4096"
  "allocator demo_device = demo_allocator"
  by (simp_all add: demo_device_def zero_registers_def block_size_def block_offset_def page_size_def
      merge_u64_def)

text \<open>
  Control operations that do to the device what a memory context does: a ping frees the
  block it had and allocates another one of 8192 bytes, a handle that is destroyed frees its
  block. The host state is the address of the block, 0 without one.
\<close>

definition block_ops :: "u64 address_space_device_control_ops" where
  "block_ops =
     \<lparr>gen_handle = \<lambda>h. (1, h), destroy_handle = \<lambda>_ h. freeAddressBlock h (\<lambda>_. Finish 0),
      tell_ping_info = \<lambda>_ _ h. h,
      ping = \<lambda>_ h. freeAddressBlock h (\<lambda>_. allocateAddressSpaceBlock 8192 Finish),
      run_deallocation_callbacks = \<lambda>_ h. h\<rparr>"

definition block_device :: "u64 address_space_state" where
  "block_device =
     \<lparr>registers = zero_registers\<lparr>guest_page_size := 4096\<rparr>, allocator = demo_allocator, irq_pulses = 0,
      area_addr = 0x100000, host = 0x103000\<rparr>"

lemma block_device_ready: "device_ready block_device"
  using demo_allocator_inv
  by (simp add: block_device_def device_ready_def device_inv_def alloc_room_def demo_allocator_def)

text \<open>
  C6. Safety of the register interface: as long as the guest page size is not zero
  and the block array has room to grow, a write of any value at any offset with
  any access size neither faults nor breaks the allocator behind the registers, pings and
  the destruction of handles included, whose contexts allocate and free regions of the same
  allocator under the lock: of them it asks that they do not crash themselves, never request
  an empty region or a fixed region that runs past the available block it starts in, and
  that the array has room for each of their requests.
\<close>

theorem control_write_safe:
  assumes "device_ready s"
    and "calls_ok (destroy_handle ops (handle (registers s)) (host s)) s" "calls_ok (ping ops (ucast val) (host s)) s"
  shows "\<exists>s'. address_space_control_write ops s offset val sz = Inr s' \<and> device_inv s' \<and>
     alloc_area (allocator s') = alloc_area (allocator s)"
  using assms by (rule control_write_keeps)

theorem control_write_safe_witness:
  "\<exists>s'. address_space_control_write block_ops block_device 28 1 4 = Inr s' \<and> device_inv s' \<and>
     host s' = 0x102000 \<and> regions (allocator s') = {(8192, 8192)}"
proof -
  note eval = block_ops_def block_device_def demo_allocator_def allocator_eval alloc_room_def zero_registers_def
    goldfish_address_space_free_shared_host_region_locked_def goldfish_address_space_alloc_shared_host_region_locked_def
    goldfish_address_space_get_phys_addr_start_locked_def merge_u64_def
    allocateAddressSpaceBlock_def freeAddressBlock_def BAD_OFFSET_def
  have "calls_ok (destroy_handle block_ops (handle (registers block_device)) (host block_device)) block_device"
    by (simp add: eval)
  moreover have "calls_ok (ping block_ops (ucast (1 :: u64)) (host block_device)) block_device"
    by (simp add: eval)
  ultimately obtain s' where s': "address_space_control_write block_ops block_device 28 1 4 = Inr s'" "device_inv s'"
    using control_write_safe [OF block_device_ready] by blast
  then show ?thesis
    by (intro exI [of _ s'])
      (auto simp: eval address_space_control_write_def address_space_control_write_locked_def address_space_register_def
        regions_def live_def)
qed

text \<open>
  C4. The allocation command: for a size whose rounding does not wrap, the size
  register is rounded up to whole pages that cover the request wherever it
  starts inside a page, one interrupt is pulsed, and the status is 0 with the
  offset registers naming a fresh range of exactly that size, or ENOMEM with the
  allocator unchanged.
\<close>

theorem allocate_command:
  assumes "device_ready s" "0 < unat (block_size s)"
    "unat (block_size s) + 2 * unat (page_size s) < 2 ^ 64"
  shows "\<exists>s' n. address_space_control_write ops s 0 1 4 = Inr s' \<and> device_inv s' \<and>
     irq_pulses s' = irq_pulses s + 1 \<and> block_size s' = n \<and> unat (page_size s) dvd unat n \<and>
     unat (block_size s) + (unat (page_size s) - 1) \<le> unat n \<and>
     (if status (registers s') = 0
      then regions (allocator s') = insert (unat (block_offset s'), unat n) (regions (allocator s)) \<and>
        range_in (alloc_area (allocator s)) (unat (block_offset s'), unat n) \<and>
        (\<forall>r \<in> regions (allocator s). \<not> overlap (unat (block_offset s'), unat n) r)
      else status (registers s') = of_nat ENOMEM \<and> allocator s' = allocator s)"
  using assms by (rule allocate_command_ok)

theorem allocate_command_witness:
  "\<exists>s'. address_space_control_write null_control_ops demo_device 0 1 4 = Inr s' \<and> device_inv s' \<and>
     irq_pulses s' = 1 \<and> 4096 dvd unat (block_size s')"
  using allocate_command [OF demo_device_ready, of null_control_ops]
  by (auto simp: demo_device_fields) (simp add: demo_device_def)

text \<open>
  C7. The deallocation command: status 0 and exactly the named range released when
  the offset registers name the start of an allocated range, EINVAL and nothing
  changed otherwise; one interrupt is pulsed either way.
\<close>

theorem deallocate_command:
  assumes "device_inv s"
  shows "\<exists>s'. address_space_control_write ops s 0 2 4 = Inr s' \<and> device_inv s' \<and>
     irq_pulses s' = irq_pulses s + 1 \<and>
     (if \<exists>n. (unat (block_offset s), n) \<in> regions (allocator s)
      then status (registers s') = 0 \<and>
        regions (allocator s') = regions (allocator s) - {r. fst r = unat (block_offset s)}
      else status (registers s') = of_nat EINVAL \<and> allocator s' = allocator s)"
  using assms by (rule deallocate_command_ok)

theorem deallocate_command_witness:
  "\<exists>s'. address_space_control_write null_control_ops demo_device 0 2 4 = Inr s' \<and>
     status (registers s') = 0 \<and> regions (allocator s') = {}"
proof -
  have "device_inv demo_device"
    using demo_device_ready by (simp add: device_ready_def)
  moreover have "regions demo_allocator = {(12288, 4096)}"
    by (simp add: demo_allocator_def regions_def live_def)
  ultimately show ?thesis
    using deallocate_command [of demo_device null_control_ops]
    by (auto simp: demo_device_fields)
qed

text \<open>
  The guest can stop the emulator: after it has set its page size to 0, an
  allocation command of any nonzero size divides by zero.
\<close>

theorem zero_page_size_faults:
  "\<exists>s. address_space_control_write null_control_ops demo_device 8 0 4 = Inr s \<and>
     address_space_control_write null_control_ops s 0 1 4 = Inl DivByZero"
  by (simp add: demo_device_def zero_registers_def device_write_defs address_space_register_def
      address_space_command_def address_space_run_command_def address_space_allocate_block_def
      address_space_align_size_def merge_u64_def)

text \<open>
  An empty region breaks the allocator's own invariant that no block is empty:
  the host interface passes a size of 0 on, the request succeeds, and the next
  request fails the assertion of the search loop.
\<close>

theorem empty_host_region_breaks_allocator:
  "\<exists>s off. goldfish_address_space_alloc_shared_host_region (Some demo_device) 0 True = Inr (Some s, 0, Some off) \<and>
     \<not> device_inv s \<and>
     goldfish_address_space_alloc_shared_host_region (Some s) 4096 True = Inl AssertFail"
  by (simp add: goldfish_address_space_alloc_shared_host_region_def
      goldfish_address_space_alloc_shared_host_region_locked_def demo_device_def demo_allocator_def
      allocator_eval BAD_OFFSET_def device_inv_def alloc_inv_def live_def)

end
