(* ===== verification/Streams.thy ===== *)
theory Streams
  imports Prelude
begin

text \<open>
  The serialization streams of \<^verbatim>\<open>aemu/base\<close>: the encodings of \<^verbatim>\<open>Stream.cpp\<close>
  (big-endian integers, packed integers, strings) over the virtual methods
  \<^verbatim>\<open>read\<close> and \<^verbatim>\<open>write\<close>, the containers of \<^verbatim>\<open>StreamSerializing\<close>, and \<^verbatim>\<open>MemStream\<close>,
  the implementation over a growing vector. The virtual methods are arguments
  of the encodings; what they promise is the locale \<open>byte_stream\<close>.
\<close>

section \<open>Encodings over read and write\<close>

text \<open>
  \<open>write s bs\<close> appends bytes; \<open>read s n\<close> gives at most \<open>n\<close> bytes and the rest
  of the stream. A short read leaves the rest of the caller's buffer as it was
  initialised: zero.
\<close>

type_synonym 's writer = "'s \<Rightarrow> u8 list \<Rightarrow> 's"
type_synonym 's reader = "'s \<Rightarrow> nat \<Rightarrow> (u8 list \<times> 's) res"

definition zero_filled :: "nat \<Rightarrow> u8 list \<Rightarrow> u8 list" where
  "zero_filled n bs = bs @ replicate (n - length bs) 0"

definition putByte :: "'s writer \<Rightarrow> 's \<Rightarrow> u8 \<Rightarrow> 's" where
  "putByte write s value = write s [value]"

definition getByte :: "'s reader \<Rightarrow> 's \<Rightarrow> (u8 \<times> 's) res" where
  "getByte read s = rbind (read s 1) (\<lambda>(b, s). Inr (zero_filled 1 b ! 0, s))"

definition be16 :: "u16 \<Rightarrow> u8 list" where
  "be16 value = [ucast (drop_bit 8 value), ucast value]"

definition be32 :: "u32 \<Rightarrow> u8 list" where
  "be32 value = [ucast (drop_bit 24 value), ucast (drop_bit 16 value), ucast (drop_bit 8 value), ucast value]"

definition be64 :: "u64 \<Rightarrow> u8 list" where
  "be64 value =
     [ucast (drop_bit 56 value), ucast (drop_bit 48 value), ucast (drop_bit 40 value), ucast (drop_bit 32 value),
      ucast (drop_bit 24 value), ucast (drop_bit 16 value), ucast (drop_bit 8 value), ucast value]"

definition from_be16 :: "u8 list \<Rightarrow> u16" where
  "from_be16 b = push_bit 8 (ucast (b ! 0)) OR ucast (b ! 1)"

definition from_be32 :: "u8 list \<Rightarrow> u32" where
  "from_be32 b = push_bit 24 (ucast (b ! 0)) OR push_bit 16 (ucast (b ! 1)) OR
     push_bit 8 (ucast (b ! 2)) OR ucast (b ! 3)"

definition from_be64 :: "u8 list \<Rightarrow> u64" where
  "from_be64 b =
     push_bit 56 (ucast (b ! 0)) OR push_bit 48 (ucast (b ! 1)) OR push_bit 40 (ucast (b ! 2)) OR
     push_bit 32 (ucast (b ! 3)) OR push_bit 24 (ucast (b ! 4)) OR push_bit 16 (ucast (b ! 5)) OR
     push_bit 8 (ucast (b ! 6)) OR ucast (b ! 7)"

definition putBe16 :: "'s writer \<Rightarrow> 's \<Rightarrow> u16 \<Rightarrow> 's" where
  "putBe16 write s value = write s (be16 value)"

definition getBe16 :: "'s reader \<Rightarrow> 's \<Rightarrow> (u16 \<times> 's) res" where
  "getBe16 read s = rbind (read s 2) (\<lambda>(b, s). Inr (from_be16 (zero_filled 2 b), s))"

definition putBe32 :: "'s writer \<Rightarrow> 's \<Rightarrow> u32 \<Rightarrow> 's" where
  "putBe32 write s value = write s (be32 value)"

definition getBe32 :: "'s reader \<Rightarrow> 's \<Rightarrow> (u32 \<times> 's) res" where
  "getBe32 read s = rbind (read s 4) (\<lambda>(b, s). Inr (from_be32 (zero_filled 4 b), s))"

definition putBe64 :: "'s writer \<Rightarrow> 's \<Rightarrow> u64 \<Rightarrow> 's" where
  "putBe64 write s value = write s (be64 value)"

definition getBe64 :: "'s reader \<Rightarrow> 's \<Rightarrow> (u64 \<times> 's) res" where
  "getBe64 read s = rbind (read s 8) (\<lambda>(b, s). Inr (from_be64 (zero_filled 8 b), s))"

text \<open>Strings are their bytes; the length goes through a 32 bit integer.\<close>

definition putString :: "'s writer \<Rightarrow> 's \<Rightarrow> u8 list \<Rightarrow> 's" where
  "putString write s str = write (putBe32 write s (of_nat (length str))) str"

text \<open>The overloads for C strings and for \<^verbatim>\<open>std::string\<close>, which passes its C string on.\<close>

definition putString_cstr :: "'s writer \<Rightarrow> 's \<Rightarrow> u8 list \<Rightarrow> 's" where
  "putString_cstr write s str = putString write s (cstr str)"

definition putString_std :: "'s writer \<Rightarrow> 's \<Rightarrow> u8 list \<Rightarrow> 's" where
  "putString_std write s str = putString_cstr write s str"

definition getString :: "'s reader \<Rightarrow> 's \<Rightarrow> (u8 list \<times> 's) res" where
  "getString read s =
     rbind (getBe32 read s) (\<lambda>(len, s).
       if 0 < len
       then rbind (read s (unat len)) (\<lambda>(b, s). Inr (if length b \<noteq> unat len then [] else b, s))
       else Inr ([], s))"

section \<open>Packed integers\<close>

text \<open>Seven bits per byte, least significant first, the top bit set on all but the last.\<close>

function putPackedNum :: "'s writer \<Rightarrow> 's \<Rightarrow> u64 \<Rightarrow> 's" where
  "putPackedNum write s num =
    (let byte = ucast (num AND 0x7f) :: u8;
         num = drop_bit 7 num;
         byte = (if num \<noteq> 0 then byte OR 0x80 else byte);
         s = putByte write s byte in
     if num \<noteq> 0 then putPackedNum write s num else s)"
  by pat_completeness auto
termination
proof (relation "measure (\<lambda>(write, s, num). unat num)", goal_cases)
  case (2 w s num byte num' byte' s')
  then have "num \<noteq> 0" by auto
  then show ?case
    using 2 by (simp add: drop_bit_eq_div unat_div unat_gt_0)
qed simp

declare putPackedNum.simps [simp del]

fun getPackedNum_loop :: "'s reader \<Rightarrow> nat \<Rightarrow> 's \<Rightarrow> u64 \<Rightarrow> nat \<Rightarrow> (u64 \<times> 's) res" where
  "getPackedNum_loop read 0 s r i = Inr (r, s)"
| "getPackedNum_loop read (Suc left) s r i =
     rbind (getByte read s) (\<lambda>(byte, s).
       let r = r OR push_bit (i * 7) (ucast (byte AND 0x7f)) in
       if byte AND 0x80 \<noteq> 0 then getPackedNum_loop read left s r (i + 1) else Inr (r, s))"

text \<open>The loop stops after ten bytes, \<open>i < 10\<close> in the source.\<close>

definition getPackedNum :: "'s reader \<Rightarrow> 's \<Rightarrow> (u64 \<times> 's) res" where
  "getPackedNum read s = getPackedNum_loop read 10 s 0 0"

text \<open>The two's complement value of the argument decides the branch.\<close>

definition putPackedSignedNum :: "'s writer \<Rightarrow> 's \<Rightarrow> u64 \<Rightarrow> 's res" where
  "putPackedSignedNum write s num =
     (if sint num \<ge> 0
      then assert_then (num AND push_bit 63 1 = 0) (Inr (putPackedNum write s (push_bit 1 num)))
      else assert_then (- num AND push_bit 63 1 = 0) (Inr (putPackedNum write s (push_bit 1 (- num) OR 1))))"

definition getPackedSignedNum :: "'s reader \<Rightarrow> 's \<Rightarrow> (u64 \<times> 's) res" where
  "getPackedSignedNum read s =
     rbind (getPackedNum read s) (\<lambda>(num, s).
       Inr (if num AND 1 \<noteq> 0 then - drop_bit 1 num else drop_bit 1 num, s))"

section \<open>Containers\<close>

definition saveBufferRaw :: "'s writer \<Rightarrow> 's \<Rightarrow> u8 list \<Rightarrow> 's" where
  "saveBufferRaw write s buffer = write (putBe32 write s (of_nat (length buffer))) buffer"

text \<open>The bytes stored, and whether all announced bytes were there.\<close>

definition loadBufferRaw :: "'s reader \<Rightarrow> 's \<Rightarrow> (u8 list \<times> bool \<times> 's) res" where
  "loadBufferRaw read s =
     rbind (getBe32 read s) (\<lambda>(len, s).
       rbind (read s (unat len)) (\<lambda>(b, s). Inr (b, length b = unat len, s)))"

text \<open>The overload for a vector of one byte elements, resized to zeros before the read.\<close>

definition loadBuffer :: "'s reader \<Rightarrow> 's \<Rightarrow> (u8 list \<times> bool \<times> 's) res" where
  "loadBuffer read s =
     rbind (getBe32 read s) (\<lambda>(len, s).
       rbind (read s (unat len)) (\<lambda>(b, s). Inr (zero_filled (unat len) b, length b = unat len, s)))"

definition saveStringArray :: "'s writer \<Rightarrow> 's \<Rightarrow> u8 list list \<Rightarrow> 's" where
  "saveStringArray write s strings =
     fold (\<lambda>str s. putString_cstr write s str) strings (putBe32 write s (of_nat (length strings)))"

fun loadStrings :: "'s reader \<Rightarrow> nat \<Rightarrow> 's \<Rightarrow> (u8 list list \<times> 's) res" where
  "loadStrings read 0 s = Inr ([], s)"
| "loadStrings read (Suc n) s =
     rbind (getString read s) (\<lambda>(str, s).
       rbind (loadStrings read n s) (\<lambda>(strs, s). Inr (str # strs, s)))"

definition loadStringArray :: "'s reader \<Rightarrow> 's \<Rightarrow> (u8 list list \<times> 's) res" where
  "loadStringArray read s = rbind (getBe32 read s) (\<lambda>(count, s). loadStrings read (unat count) s)"

section \<open>Decoding inverts encoding\<close>

lemma length_be [simp]: "length (be16 a) = 2" "length (be32 b) = 4" "length (be64 c) = 8"
  by (simp_all add: be16_def be32_def be64_def)

lemma zero_filled_full [simp]: "length bs = n \<Longrightarrow> zero_filled n bs = bs"
  by (simp add: zero_filled_def)

lemma from_be16_be16 [simp]: "from_be16 (be16 v) = v"
  unfolding from_be16_def be16_def by (rule bit_word_eqI) (auto simp: bit_simps)

lemma from_be32_be32 [simp]: "from_be32 (be32 v) = v"
proof (rule bit_word_eqI)
  fix n assume "n < LENGTH(32)"
  then consider "n < 8" | "8 \<le> n" "n < 16" | "16 \<le> n" "n < 24" | "24 \<le> n" "n < 32"
    by fastforce
  then show "bit (from_be32 (be32 v)) n = bit v n"
    by cases (simp_all add: from_be32_def be32_def bit_simps less_diff_conv2)
qed

lemma from_be64_be64 [simp]: "from_be64 (be64 v) = v"
proof (rule bit_word_eqI)
  fix n assume "n < LENGTH(64)"
  then consider "n < 8" | "8 \<le> n" "n < 16" | "16 \<le> n" "n < 24" | "24 \<le> n" "n < 32"
    | "32 \<le> n" "n < 40" | "40 \<le> n" "n < 48" | "48 \<le> n" "n < 56" | "56 \<le> n" "n < 64"
    by fastforce
  then show "bit (from_be64 (be64 v)) n = bit v n"
    by cases (simp_all add: from_be64_def be64_def bit_simps less_diff_conv2)
qed

text \<open>The bytes the other encodings produce.\<close>

function packed :: "u64 \<Rightarrow> u8 list" where
  "packed num =
     (if drop_bit 7 num = 0 then [ucast (num AND 0x7f)]
      else (ucast (num AND 0x7f) OR 0x80) # packed (drop_bit 7 num))"
  by pat_completeness auto
termination
proof (relation "measure unat", goal_cases)
  case (2 num)
  then have "num \<noteq> 0" by auto
  then show ?case by (simp add: drop_bit_eq_div unat_div unat_gt_0)
qed simp

declare packed.simps [simp del]

definition counted :: "u8 list \<Rightarrow> u8 list" where
  "counted bs = be32 (of_nat (length bs)) @ bs"

lemma packed_length_bound: "unat num < 2 ^ (7 * Suc k) \<Longrightarrow> length (packed num) \<le> Suc k"
proof (induction k arbitrary: num)
  case 0
  then have "drop_bit 7 num = 0"
    by (simp add: drop_bit_eq_div unat_inj_iff [symmetric] unat_div)
  then show ?case by (subst packed.simps) simp
next
  case (Suc k)
  have "unat (drop_bit 7 num) < 2 ^ (7 * Suc k)"
    using Suc.prems by (simp add: drop_bit_eq_div unat_div less_mult_imp_div_less power_add mult.commute)
  with Suc.IH show ?case by (subst packed.simps) auto
qed

lemma packed_length: "length (packed num) \<le> 10"
proof -
  have "unat num < 2 ^ LENGTH(64)" by (rule unsigned_less)
  then show ?thesis using packed_length_bound [of num 9] by simp
qed

text \<open>One byte of a packed integer, as seven bits and the flag.\<close>

lemma low7: "x AND 0x7f = take_bit 7 (x :: 'a::len word)"
  by (simp add: take_bit_eq_mask mask_eq_exp_minus_1)

lemma bit_0x80: "bit (0x80 :: 'a::len word) n \<longleftrightarrow> n = 7 \<and> 7 < LENGTH('a)"
proof -
  have "bit (2 ^ 7 :: 'a word) n \<longleftrightarrow> n = 7 \<and> 7 < LENGTH('a)"
    unfolding bit_exp_iff by (auto simp: possible_bit_word)
  then show ?thesis by simp
qed

lemma packed_byte_value:
  "ucast ((ucast (take_bit 7 (x :: u64)) :: u8) AND 0x7f) = take_bit 7 x"
  "ucast (((ucast (take_bit 7 (x :: u64)) :: u8) OR 0x80) AND 0x7f) = take_bit 7 x"
  unfolding low7 by (rule bit_word_eqI, auto simp: bit_simps bit_0x80)+

lemma packed_byte_flag:
  "(ucast (take_bit 7 (x :: u64)) :: u8) AND 0x80 = 0"
  "((ucast (take_bit 7 (x :: u64)) :: u8) OR 0x80) AND 0x80 \<noteq> 0"
proof -
  show "(ucast (take_bit 7 x) :: u8) AND 0x80 = 0"
    by (rule bit_word_eqI) (simp only: bit_and_iff bit_0x80, auto simp: bit_simps)
  have "bit (((ucast (take_bit 7 x) :: u8) OR 0x80) AND 0x80) 7"
    by (simp add: bit_simps bit_0x80)
  then show "((ucast (take_bit 7 x) :: u8) OR 0x80) AND 0x80 \<noteq> 0"
    by auto
qed

lemma take_bit_step:
  fixes N :: u64
  shows "take_bit (7 * i) N OR push_bit (i * 7) (take_bit 7 (drop_bit (7 * i) N)) = take_bit (7 * (i + 1)) N"
  by (rule bit_word_eqI) (auto simp: bit_simps mult.commute)

lemma sint_nonneg_iff: "0 \<le> sint (x :: u64) \<longleftrightarrow> \<not> bit x 63"
  using bit_last_iff [of x] by (simp add: not_less)

lemma bit_uminus_negative:
  fixes x :: u64
  assumes "sint x \<noteq> - (2 ^ 63)" "sint x < 0"
  shows "\<not> bit (- x) 63"
proof -
  have "- (2 ^ 63) \<le> sint x"
    using sint_range_size [of x] by (simp add: word_size)
  then have "sint (- x) = - sint x"
    using assms by (simp add: sint_word_ariths signed_take_bit_int_eq_self)
  then show ?thesis
    using assms(2) by (simp add: sint_nonneg_iff [symmetric])
qed

lemma shift_out:
  fixes x :: u64
  assumes "\<not> bit x 63"
  shows "drop_bit 1 (push_bit 1 x) = x" "drop_bit 1 (push_bit 1 x OR 1) = x"
    "push_bit 1 x AND 1 = 0" "(push_bit 1 x OR 1) AND 1 \<noteq> 0"
proof -
  have top: "n \<noteq> 63" if "bit x n" for n
    using assms that by metis
  have "n < 63" if "bit x n" for n
    using top [OF that] bit_imp_le_length [OF that] by simp
  then show "drop_bit 1 (push_bit 1 x) = x" "drop_bit 1 (push_bit 1 x OR 1) = x"
    by (auto intro!: bit_word_eqI
        simp only: bit_drop_bit_eq comp_def bit_push_bit_iff bit_or_iff bit_1_iff possible_bit_word) auto
  show "push_bit 1 x AND 1 = 0"
    by (rule bit_word_eqI) (simp only: bit_and_iff bit_push_bit_iff bit_1_iff, auto)
  have "bit ((push_bit 1 x OR 1) AND 1) 0"
    by (simp only: bit_and_iff bit_or_iff bit_1_iff) simp
  then show "(push_bit 1 x OR 1) AND 1 \<noteq> 0"
    by (metis bit_0_eq bot_apply bot_bool_def)
qed

lemma zigzag_decode:
  assumes "sint num \<noteq> - (2 ^ 63)"
  defines "z \<equiv> if sint num \<ge> 0 then push_bit 1 num else push_bit 1 (- num) OR (1 :: u64)"
  shows "(if z AND 1 \<noteq> 0 then - drop_bit 1 z else drop_bit 1 z) = num"
proof (cases "sint num \<ge> 0")
  case True
  then show ?thesis
    using shift_out [of num] by (simp add: z_def sint_nonneg_iff)
next
  case False
  then show ?thesis
    using shift_out [OF bit_uminus_negative [OF assms(1)]] by (simp add: z_def)
qed

lemma least_signed: "sint (x :: u64) = - (2 ^ 63) \<Longrightarrow> x = push_bit 63 1"
proof -
  assume "sint x = - (2 ^ 63)"
  then have "word_of_int (sint x) = (word_of_int (- (2 ^ 63)) :: u64)" by simp
  then show ?thesis by simp
qed

lemma and_top_bit: "(x :: u64) AND push_bit 63 1 = 0 \<longleftrightarrow> \<not> bit x 63"
proof
  assume "x AND push_bit 63 1 = 0"
  then have "\<not> bit (x AND push_bit 63 1) 63" by simp
  then show "\<not> bit x 63" by (simp only: bit_and_iff bit_push_bit_iff bit_1_iff possible_bit_word) simp
next
  assume "\<not> bit x 63"
  then show "x AND push_bit 63 1 = 0"
    by (intro bit_word_eqI) (simp only: bit_and_iff bit_push_bit_iff bit_1_iff possible_bit_word,
      auto simp: le_eq_less_or_eq)
qed

lemma signed_assertions:
  assumes "sint (num :: u64) \<noteq> - (2 ^ 63)"
  shows "sint num \<ge> 0 \<Longrightarrow> num AND push_bit 63 1 = 0" "sint num < 0 \<Longrightarrow> - num AND push_bit 63 1 = 0"
  using bit_uminus_negative [OF assms] unfolding and_top_bit by (auto simp: sint_nonneg_iff)

section \<open>The contract of a byte stream\<close>

text \<open>
  \<open>pending\<close> are the bytes written and not yet read, \<open>room\<close> how many more can be
  written; a read returns the oldest pending bytes, fewer only when there are
  fewer.
\<close>

locale byte_stream =
  fixes wr :: "'s \<Rightarrow> u8 list \<Rightarrow> 's"
    and rd :: "'s \<Rightarrow> nat \<Rightarrow> (u8 list \<times> 's) res"
    and pending :: "'s \<Rightarrow> u8 list"
    and room :: "'s \<Rightarrow> nat"
    and ok :: "'s \<Rightarrow> bool"
  assumes write_law:
      "ok s \<Longrightarrow> length bs \<le> room s \<Longrightarrow>
       ok (wr s bs) \<and> pending (wr s bs) = pending s @ bs \<and> room (wr s bs) = room s - length bs"
    and read_law:
      "ok s \<Longrightarrow> n < 2 ^ 31 \<Longrightarrow>
       \<exists>s'. rd s n = Inr (take n (pending s), s') \<and> ok s' \<and> pending s' = drop n (pending s)"
begin

definition reads :: "('s \<Rightarrow> ('a \<times> 's) res) \<Rightarrow> u8 list \<Rightarrow> 'a \<Rightarrow> bool" where
  "reads g bs v \<longleftrightarrow>
     (\<forall>s rest. ok s \<longrightarrow> pending s = bs @ rest \<longrightarrow> (\<exists>s'. g s = Inr (v, s') \<and> ok s' \<and> pending s' = rest))"

lemma readsI:
  assumes "\<And>s rest. ok s \<Longrightarrow> pending s = bs @ rest \<Longrightarrow> \<exists>s'. g s = Inr (v, s') \<and> ok s' \<and> pending s' = rest"
  shows "reads g bs v"
  using assms by (simp add: reads_def)

lemma readsD:
  assumes "reads g bs v" "ok s" "pending s = bs @ rest"
  shows "\<exists>s'. g s = Inr (v, s') \<and> ok s' \<and> pending s' = rest"
  using assms by (simp add: reads_def)

lemma reads_read: "length bs = n \<Longrightarrow> n < 2 ^ 31 \<Longrightarrow> reads (\<lambda>s. rd s n) bs bs"
  using read_law by (fastforce intro: readsI)

lemma reads_return: "reads (\<lambda>s. Inr (v, s)) [] v"
  by (simp add: reads_def)

lemma reads_bind:
  assumes "reads g bs v" "reads (h v) cs w"
  shows "reads (\<lambda>s. rbind (g s) (\<lambda>(x, s). h x s)) (bs @ cs) w"
proof (rule readsI)
  fix s rest assume "ok s" "pending s = (bs @ cs) @ rest"
  then obtain s1 where "g s = Inr (v, s1)" "ok s1" "pending s1 = cs @ rest"
    using readsD [OF assms(1), of s "cs @ rest"] by auto
  then show "\<exists>s'. rbind (g s) (\<lambda>(x, s). h x s) = Inr (w, s') \<and> ok s' \<and> pending s' = rest"
    using readsD [OF assms(2), of s1 rest] by auto
qed

lemma reads_map:
  assumes "reads g bs v" "f v = w"
  shows "reads (\<lambda>s. rbind (g s) (\<lambda>(x, s). Inr (f x, s))) bs w"
  using reads_bind [OF assms(1), of "\<lambda>x s. Inr (f x, s)", OF reads_return] assms(2) by simp

lemma reads_byte: "reads (getByte rd) [b] b"
  unfolding getByte_def by (rule reads_map [OF reads_read]) simp_all

lemma reads_be16: "reads (getBe16 rd) (be16 v) v"
  unfolding getBe16_def by (rule reads_map [OF reads_read]) simp_all

lemma reads_be32: "reads (getBe32 rd) (be32 v) v"
  unfolding getBe32_def by (rule reads_map [OF reads_read]) simp_all

lemma reads_be64: "reads (getBe64 rd) (be64 v) v"
  unfolding getBe64_def by (rule reads_map [OF reads_read]) simp_all

lemma reads_string:
  assumes "length str < 2 ^ 31"
  shows "reads (getString rd) (counted str) str"
proof -
  have n: "unat (of_nat (length str) :: u32) = length str"
    using assms by (simp add: unat_of_nat)
  have "reads (\<lambda>s. if 0 < (of_nat (length str) :: u32)
      then rbind (rd s (unat (of_nat (length str) :: u32)))
        (\<lambda>(b, s). Inr (if length b \<noteq> unat (of_nat (length str) :: u32) then [] else b, s))
      else Inr ([], s)) str str"
  proof (cases "str = []")
    case True
    then show ?thesis by (simp add: reads_return)
  next
    case False
    then have "0 < (of_nat (length str) :: u32)"
      by (simp add: word_less_nat_alt n)
    then show ?thesis
      using assms by (simp only: if_True) (rule reads_map [OF reads_read], simp_all add: n)
  qed
  then show ?thesis
    unfolding getString_def counted_def by (rule reads_bind [OF reads_be32])
qed

lemma reads_strings:
  assumes "\<forall>str \<in> set strs. length str < 2 ^ 31"
  shows "reads (loadStrings rd (length strs)) (concat (map counted strs)) strs"
  using assms
proof (induction strs)
  case Nil
  then show ?case by (simp add: reads_def)
next
  case (Cons str strs)
  then have "reads (\<lambda>s. rbind (loadStrings rd (length strs) s) (\<lambda>(ys, s). Inr (str # ys, s)))
      (concat (map counted strs)) (str # strs)"
    by (intro reads_map) simp_all
  then show ?case
    using Cons.prems by (simp, intro reads_bind [OF reads_string]) simp_all
qed

lemma reads_string_array:
  assumes "length strs < 2 ^ 32" "\<forall>str \<in> set strs. length str < 2 ^ 31"
  shows "reads (loadStringArray rd) (be32 (of_nat (length strs)) @ concat (map counted strs)) strs"
  unfolding loadStringArray_def
proof (rule reads_bind [OF reads_be32])
  show "reads (loadStrings rd (unat (of_nat (length strs) :: u32))) (concat (map counted strs)) strs"
    using reads_strings [OF assms(2)] assms(1) by (simp add: unat_of_nat)
qed

lemma reads_buffer:
  assumes "length buf < 2 ^ 31"
  shows "reads (\<lambda>s. rbind (loadBuffer rd s) (\<lambda>(b, c, s). Inr ((b, c), s))) (counted buf) (buf, True)"
proof -
  have n: "unat (of_nat (length buf) :: u32) = length buf"
    using assms by (simp add: unat_of_nat)
  have "reads (\<lambda>s. rbind (rd s (unat (of_nat (length buf) :: u32))) (\<lambda>(b, s).
      Inr ((zero_filled (unat (of_nat (length buf) :: u32)) b, length b = unat (of_nat (length buf) :: u32)), s)))
      buf (buf, True)"
    by (rule reads_map [OF reads_read]) (use assms in \<open>simp_all add: n\<close>)
  then have "reads (\<lambda>s. rbind (getBe32 rd s) (\<lambda>(len, s). rbind (rd s (unat len)) (\<lambda>(b, s).
      Inr ((zero_filled (unat len) b, length b = unat len), s)))) (counted buf) (buf, True)"
    unfolding counted_def by (rule reads_bind [OF reads_be32])
  then show ?thesis
    by (simp add: loadBuffer_def rbind_assoc case_prod_unfold)
qed

lemma reads_packed_loop:
  assumes "length (packed (drop_bit (7 * i) N)) \<le> left"
  shows "reads (\<lambda>s. getPackedNum_loop rd left s (take_bit (7 * i) N) i) (packed (drop_bit (7 * i) N)) N"
  using assms
proof (induction left arbitrary: i)
  case 0
  then show ?case by (subst (asm) packed.simps) (simp split: if_splits)
next
  case (Suc left)
  let ?n = "drop_bit (7 * i) N"
  have next_digit: "drop_bit 7 ?n = drop_bit (7 * (i + 1)) N"
    by (simp add: drop_bit_drop_bit algebra_simps)
  show ?case
  proof (cases "drop_bit 7 ?n = 0")
    case True
    then have "take_bit (7 * (i + 1)) N = N"
      using bits_ident [of "7 * (i + 1)" N] unfolding next_digit by simp
    moreover have "reads (\<lambda>s. rbind (getByte rd s) (\<lambda>(byte, s).
        let r = take_bit (7 * i) N OR push_bit (i * 7) (ucast (byte AND 0x7f)) in
        if byte AND 0x80 \<noteq> 0 then getPackedNum_loop rd left s r (i + 1) else Inr (r, s)))
        ([ucast (take_bit 7 ?n)] @ []) (take_bit (7 * (i + 1)) N)"
      by (rule reads_bind [OF reads_byte])
        (simp only: packed_byte_value packed_byte_flag take_bit_step Let_def simp_thms if_False reads_return)
    ultimately show ?thesis
      using True by (subst packed.simps) (simp add: low7)
  next
    case False
    then have "length (packed (drop_bit (7 * (i + 1)) N)) \<le> left"
      using Suc.prems unfolding next_digit by (subst (asm) packed.simps) (simp add: next_digit)
    note ih = Suc.IH [OF this]
    have "reads (\<lambda>s. rbind (getByte rd s) (\<lambda>(byte, s).
        let r = take_bit (7 * i) N OR push_bit (i * 7) (ucast (byte AND 0x7f)) in
        if byte AND 0x80 \<noteq> 0 then getPackedNum_loop rd left s r (i + 1) else Inr (r, s)))
        ([ucast (take_bit 7 ?n) OR 0x80] @ packed (drop_bit (7 * (i + 1)) N)) N"
      by (rule reads_bind [OF reads_byte])
        (simp only: packed_byte_value packed_byte_flag take_bit_step Let_def simp_thms if_True ih)
    then show ?thesis
      using False by (subst packed.simps) (simp add: low7 next_digit)
  qed
qed

lemma reads_packed: "reads (getPackedNum rd) (packed N) N"
  using reads_packed_loop [of 0 N 10] packed_length by (simp add: getPackedNum_def [abs_def])

text \<open>The zigzag code of a signed number that is not the least one.\<close>

lemma reads_packed_signed:
  assumes "sint num \<noteq> - (2 ^ 63)"
  shows "reads (getPackedSignedNum rd)
    (packed (if sint num \<ge> 0 then push_bit 1 num else push_bit 1 (- num) OR 1)) num"
proof -
  let ?z = "if sint num \<ge> 0 then push_bit 1 num else push_bit 1 (- num) OR 1"
  have "(if ?z AND 1 \<noteq> 0 then - drop_bit 1 ?z else drop_bit 1 ?z) = num"
    using zigzag_decode [OF assms] .
  then show ?thesis
    unfolding getPackedSignedNum_def by (rule reads_map [OF reads_packed])
qed

definition writes :: "('s \<Rightarrow> 's) \<Rightarrow> u8 list \<Rightarrow> bool" where
  "writes f bs \<longleftrightarrow>
     (\<forall>s. ok s \<longrightarrow> length bs \<le> room s \<longrightarrow>
        ok (f s) \<and> pending (f s) = pending s @ bs \<and> room (f s) = room s - length bs)"

lemma writes_write: "writes (\<lambda>s. wr s bs) bs"
  using write_law by (simp add: writes_def)

lemma writes_id: "writes (\<lambda>s. s) []"
  by (simp add: writes_def)

lemma writes_comp:
  assumes "writes f bs" "writes g cs"
  shows "writes (\<lambda>s. g (f s)) (bs @ cs)"
  using assms by (simp add: writes_def)

lemma writes_byte: "writes (\<lambda>s. putByte wr s b) [b]"
  by (simp add: putByte_def writes_write)

lemma writes_be16: "writes (\<lambda>s. putBe16 wr s v) (be16 v)"
  by (simp add: putBe16_def writes_write)

lemma writes_be32: "writes (\<lambda>s. putBe32 wr s v) (be32 v)"
  by (simp add: putBe32_def writes_write)

lemma writes_be64: "writes (\<lambda>s. putBe64 wr s v) (be64 v)"
  by (simp add: putBe64_def writes_write)

lemma writes_string: "writes (\<lambda>s. putString wr s str) (counted str)"
  unfolding putString_def counted_def by (rule writes_comp [OF writes_be32 writes_write])

lemma writes_cstr: "writes (\<lambda>s. putString_cstr wr s str) (counted (cstr str))"
  unfolding putString_cstr_def by (rule writes_string)

lemma writes_buffer: "writes (\<lambda>s. saveBufferRaw wr s buf) (counted buf)"
  unfolding saveBufferRaw_def counted_def by (rule writes_comp [OF writes_be32 writes_write])

lemma writes_fold:
  assumes "\<And>x. writes (f x) (enc x)"
  shows "writes (fold f xs) (concat (map enc xs))"
proof (induction xs)
  case Nil
  then show ?case by (simp add: writes_def)
next
  case (Cons x xs)
  from writes_comp [OF assms Cons.IH] show ?case by (simp add: comp_def)
qed

lemma writes_string_array:
  "writes (\<lambda>s. saveStringArray wr s strs)
     (be32 (of_nat (length strs)) @ concat (map counted (map cstr strs)))"
  unfolding saveStringArray_def map_map
  by (rule writes_comp [OF writes_be32 writes_fold]) (unfold comp_def, rule writes_cstr)

lemma writes_packed: "writes (\<lambda>s. putPackedNum wr s num) (packed num)"
proof (induction num rule: packed.induct)
  case (1 num)
  show ?case
  proof (cases "drop_bit 7 num = 0")
    case True
    then show ?thesis
      by (subst putPackedNum.simps, subst packed.simps) (simp add: writes_byte)
  next
    case False
    from writes_comp [OF writes_byte 1 [OF False], of "ucast (num AND 0x7f) OR 0x80"] show ?thesis
      using False by (subst putPackedNum.simps, subst packed.simps) simp
  qed
qed

lemma write_then_read:
  assumes "writes f bs" "reads g bs v" "ok s" "pending s = []" "length bs \<le> room s"
  shows "\<exists>s'. g (f s) = Inr (v, s') \<and> ok s' \<and> pending s' = []"
  using assms readsD [OF assms(2), of "f s" "[]"] by (auto simp: writes_def)

end

section \<open>Streams in memory\<close>

record MemStream =
  mData :: "u8 list"
  mReadPos :: nat

definition MemStream_readSize :: "MemStream \<Rightarrow> nat" where
  "MemStream_readSize s = length (mData s) - mReadPos s"

text \<open>The size goes through \<^verbatim>\<open>std::min<int>\<close>: one of 2 GiB or more turns negative.\<close>

definition MemStream_read :: "MemStream reader" where
  "MemStream_read s n =
     (if n \<ge> 2 ^ 31 then Inl OutOfBounds
      else let sizeToRead = min n (MemStream_readSize s) in
        Inr (take sizeToRead (drop (mReadPos s) (mData s)), s\<lparr>mReadPos := mReadPos s + sizeToRead\<rparr>))"

definition MemStream_write :: "MemStream writer" where
  "MemStream_write s bs = s\<lparr>mData := mData s @ bs\<rparr>"

definition MemStream_rewind :: "MemStream \<Rightarrow> MemStream" where
  "MemStream_rewind s = s\<lparr>mReadPos := 0\<rparr>"

definition MemStream_new :: "u8 list \<Rightarrow> MemStream" where
  "MemStream_new data = \<lparr>mData = data, mReadPos = 0\<rparr>"

definition MemStream_save :: "'s writer \<Rightarrow> 's \<Rightarrow> MemStream \<Rightarrow> 's" where
  "MemStream_save write stream m = saveBufferRaw write stream (mData m)"

definition MemStream_load :: "'s reader \<Rightarrow> 's \<Rightarrow> (MemStream \<times> 's) res" where
  "MemStream_load read stream =
     rbind (loadBuffer read stream) (\<lambda>(data, _, stream). Inr (MemStream_new data, stream))"

definition mem_pending :: "MemStream \<Rightarrow> u8 list" where
  "mem_pending s = drop (mReadPos s) (mData s)"

definition mem_room :: "MemStream \<Rightarrow> nat" where
  "mem_room s = 2 ^ 31 - 1 - length (mData s)"

definition mem_ok :: "MemStream \<Rightarrow> bool" where
  "mem_ok s \<longleftrightarrow> mReadPos s \<le> length (mData s) \<and> length (mData s) < 2 ^ 31"

interpretation mem: byte_stream MemStream_write MemStream_read mem_pending mem_room mem_ok
proof unfold_locales
  fix s and bs :: "u8 list" assume "mem_ok s" "length bs \<le> mem_room s"
  then show "mem_ok (MemStream_write s bs) \<and> mem_pending (MemStream_write s bs) = mem_pending s @ bs \<and>
      mem_room (MemStream_write s bs) = mem_room s - length bs"
    by (auto simp: mem_ok_def mem_room_def mem_pending_def MemStream_write_def)
next
  fix s and n :: nat assume "mem_ok s" "n < 2 ^ 31"
  moreover have "drop (mReadPos s + min n (length (mData s) - mReadPos s)) (mData s) =
      drop (mReadPos s + n) (mData s)"
    "take (min n (length (mData s) - mReadPos s)) (drop (mReadPos s) (mData s)) =
      take n (drop (mReadPos s) (mData s))"
    by (simp_all add: min_def)
  moreover have "mReadPos s + min n (length (mData s) - mReadPos s) \<le> length (mData s)"
    using calculation(1) by (auto simp: mem_ok_def min_def)
  ultimately show "\<exists>s'. MemStream_read s n = Inr (take n (mem_pending s), s') \<and> mem_ok s' \<and>
      mem_pending s' = drop n (mem_pending s)"
    by (simp add: mem_ok_def mem_pending_def MemStream_read_def MemStream_readSize_def Let_def add.commute)
qed

lemma mem_new_ok: "length data < 2 ^ 31 \<Longrightarrow> mem_ok (MemStream_new data)"
  "mem_pending (MemStream_new data) = data" "mem_room (MemStream_new data) = 2 ^ 31 - 1 - length data"
  by (simp_all add: mem_ok_def mem_pending_def mem_room_def MemStream_new_def)

section \<open>Properties\<close>

text \<open>
  C12. Packed integers round trip through a memory stream: whatever 64 bit number
  is written is read back, and nothing is left over.
\<close>

theorem packed_num_roundtrip:
  "\<exists>s. getPackedNum MemStream_read (putPackedNum MemStream_write (MemStream_new []) num) = Inr (num, s) \<and>
     mem_pending s = []"
  using mem.write_then_read [OF mem.writes_packed mem.reads_packed, of "MemStream_new []" num]
    packed_length [of num] by (auto simp: mem_new_ok)

text \<open>
  Signed packed integers round trip for every 64 bit value but the least one,
  on which the assertion of the encoder fails.
\<close>

theorem packed_signed_roundtrip:
  "if sint num = - (2 ^ 63) then putPackedSignedNum MemStream_write (MemStream_new []) num = Inl AssertFail
   else \<exists>s s'. putPackedSignedNum MemStream_write (MemStream_new []) num = Inr s \<and>
     getPackedSignedNum MemStream_read s = Inr (num, s') \<and> mem_pending s' = []"
proof (cases "sint num = - (2 ^ 63)")
  case True
  then have "num = push_bit 63 1"
    by (metis least_signed)
  then show ?thesis
    using True by (simp add: putPackedSignedNum_def)
next
  case False
  then show ?thesis
    using mem.write_then_read [OF mem.writes_packed mem.reads_packed_signed [OF False], of "MemStream_new []"]
      le_trans [OF packed_length, of "2 ^ 31 - 1"] signed_assertions [OF False]
    by (auto simp: mem_new_ok putPackedSignedNum_def split: if_splits)
qed

text \<open>
  C13. An array of C strings saved to a memory stream is loaded back as the strings in
  front of their first zero byte, and nothing is left to read, as long as the stream stays
  below 2 GiB. Strings without zero bytes, empty ones included, come back unchanged.
\<close>

theorem string_array_roundtrip:
  assumes "4 + sum_list (map (\<lambda>str. 4 + length (cstr str)) strs) < 2 ^ 31"
  shows "\<exists>s. loadStringArray MemStream_read (saveStringArray MemStream_write (MemStream_new []) strs) =
       Inr (map cstr strs, s) \<and> mem_pending s = [] \<and>
     ((\<forall>str \<in> set strs. 0 \<notin> set str) \<longrightarrow> map cstr strs = strs)"
proof -
  let ?xs = "map cstr strs"
  have len: "length (be32 (of_nat (length strs)) @ concat (map counted ?xs)) =
      4 + sum_list (map (\<lambda>str. 4 + length (cstr str)) strs)"
    by (simp add: length_concat comp_def counted_def)
  have each: "length str < 2 ^ 31" if "str \<in> set ?xs" for str
    using member_le_sum_list [of "4 + length str" "map (\<lambda>str. 4 + length (cstr str)) strs"] that assms by auto
  have "length strs \<le> sum_list (map (\<lambda>str. 4 + length (cstr str)) strs)"
    by (induction strs) auto
  then have "length ?xs < 2 ^ 32"
    using assms by simp
  from mem.reads_string_array [OF this] each
  have "mem.reads (loadStringArray MemStream_read) (be32 (of_nat (length strs)) @ concat (map counted ?xs)) ?xs"
    by simp
  from mem.write_then_read [OF mem.writes_string_array this, of "MemStream_new []"]
  moreover have "(\<forall>str \<in> set strs. 0 \<notin> set str) \<longrightarrow> ?xs = strs"
    by (auto intro: map_idI cstr_id)
  ultimately show ?thesis
    using len assms by (auto simp: mem_new_ok)
qed

theorem string_array_roundtrip_witness:
  "\<exists>s. loadStringArray MemStream_read (saveStringArray MemStream_write (MemStream_new []) [[1, 2, 0, 3], [], [4]]) =
       Inr ([[1, 2], [], [4]], s) \<and> mem_pending s = []"
  using string_array_roundtrip [of "[[1, 2, 0, 3], [], [4]]"] by (simp add: cstr_def)

end
