(* ===== verification/Sub_Allocator.thy ===== *)
theory Sub_Allocator
  imports Address_Allocator Streams
begin

text \<open>
  \<^verbatim>\<open>aemu/base/SubAllocator.cpp\<close>: page granular allocation of pointers inside one
  buffer, on top of the address space allocator, with snapshots through a
  \<^verbatim>\<open>Stream\<close>. It is a client of the allocator's contract; the invariant relates
  its counter to the set of allocated ranges.
\<close>

section \<open>State and operations\<close>

record SubAllocator =
  buffer :: u64
  totalSize :: u64
  pageSize :: u64
  startAddr :: u64
  endAddr :: u64
  addr_alloc :: address_space_allocator
  allocCount :: u32

definition SubAllocator_new :: "u64 \<Rightarrow> u64 \<Rightarrow> u64 \<Rightarrow> SubAllocator res" where
  "SubAllocator_new buf tot page =
     rbind (address_space_allocator_init tot 32) (\<lambda>a.
       Inr \<lparr>buffer = buf, totalSize = tot, pageSize = page, startAddr = buf, endAddr = buf + tot,
            addr_alloc = a, allocCount = 0\<rparr>)"

definition SubAllocator_clear :: "SubAllocator \<Rightarrow> SubAllocator res" where
  "SubAllocator_clear s =
     rbind (address_space_allocator_init (totalSize s) 32) (\<lambda>a. Inr (s\<lparr>addr_alloc := a\<rparr>))"

text \<open>The union of the bit fields read as one 64 bit number, and back.\<close>

definition size_available :: "address_block \<Rightarrow> u64" where
  "size_available b = blk_size b OR (if blk_available b then push_bit 63 1 else 0)"

definition set_size_available :: "address_block \<Rightarrow> u64 \<Rightarrow> address_block" where
  "set_size_available b v = b\<lparr>blk_size := take_bit 63 v, blk_available := bit v 63\<rparr>"

definition allocatorSaver ::
  "'s writer \<Rightarrow> address_space_allocator \<Rightarrow> 's \<Rightarrow> (address_space_allocator \<times> 's) res" where
  "allocatorSaver write a s =
     Inr (a, putBe64 write (putBe32 write (putBe32 write s (of_nat (nblocks a))) (of_nat (capacity a)))
       (total_bytes a))"

definition allocatorBlockSaver :: "'s writer \<Rightarrow> address_block \<Rightarrow> 's \<Rightarrow> (address_block \<times> 's) res" where
  "allocatorBlockSaver write b s =
     Inr (b, putBe64 write (putBe64 write s (blk_offset b)) (size_available b))"

definition SubAllocator_save :: "'s writer \<Rightarrow> SubAllocator \<Rightarrow> 's \<Rightarrow> 's res" where
  "SubAllocator_save write s stream =
     rbind (address_space_allocator_run (addr_alloc s) stream (allocatorSaver write) (allocatorBlockSaver write))
       (\<lambda>(_, stream).
         Inr (putBe32 write (putBe64 write (putBe64 write stream (pageSize s)) (totalSize s)) (allocCount s)))"

text \<open>The counts are C \<^verbatim>\<open>int\<close>s: a value of 2 GiB or more is negative, here 0.\<close>

definition int_field :: "u32 \<Rightarrow> nat" where
  "int_field v = (if bit v 31 then 0 else unat v)"

definition allocatorLoader ::
  "'s reader \<Rightarrow> address_space_allocator \<Rightarrow> 's \<Rightarrow> (address_space_allocator \<times> 's) res" where
  "allocatorLoader read a s =
     rbind (getBe32 read s) (\<lambda>(sz, s).
     rbind (getBe32 read s) (\<lambda>(cap, s).
     rbind (getBe64 read s) (\<lambda>(tot, s).
       Inr (a\<lparr>nblocks := int_field sz, capacity := int_field cap, total_bytes := tot\<rparr>, s))))"

definition allocatorBlockLoader :: "'s reader \<Rightarrow> address_block \<Rightarrow> 's \<Rightarrow> (address_block \<times> 's) res" where
  "allocatorBlockLoader read b s =
     rbind (getBe64 read s) (\<lambda>(off, s).
     rbind (getBe64 read s) (\<lambda>(v, s).
       Inr (set_size_available (b\<lparr>blk_offset := off\<rparr>) v, s)))"

definition SubAllocator_load :: "'s reader \<Rightarrow> SubAllocator \<Rightarrow> 's \<Rightarrow> (SubAllocator \<times> 's) res" where
  "SubAllocator_load read s stream =
     rbind (SubAllocator_clear s) (\<lambda>s.
     rbind (address_space_allocator_run (addr_alloc s) stream (allocatorLoader read) (allocatorBlockLoader read))
       (\<lambda>(a, stream).
     rbind (getBe64 read stream) (\<lambda>(page, stream).
     rbind (getBe64 read stream) (\<lambda>(tot, stream).
     rbind (getBe32 read stream) (\<lambda>(count, stream).
       Inr (s\<lparr>addr_alloc := a, pageSize := page, totalSize := tot, allocCount := count\<rparr>, stream))))))"

definition SubAllocator_postLoad :: "SubAllocator \<Rightarrow> u64 \<Rightarrow> SubAllocator" where
  "SubAllocator_postLoad s postLoadBuffer = s\<lparr>buffer := postLoadBuffer, startAddr := postLoadBuffer\<rparr>"

definition SubAllocator_getOffset :: "SubAllocator \<Rightarrow> u64 \<Rightarrow> u64" where
  "SubAllocator_getOffset s checkedPtr = checkedPtr - startAddr s"

text \<open>The range check before a release only logs.\<close>

definition SubAllocator_free :: "SubAllocator \<Rightarrow> u64 \<Rightarrow> (SubAllocator \<times> bool) res" where
  "SubAllocator_free s ptr =
     (if ptr = 0 then Inr (s, False)
      else rbind (address_space_allocator_deallocate (addr_alloc s) (SubAllocator_getOffset s ptr))
        (\<lambda>(a, err).
          if err = EINVAL then Inr (s\<lparr>addr_alloc := a\<rparr>, False)
          else Inr (s\<lparr>addr_alloc := a, allocCount := allocCount s - 1\<rparr>, True)))"

definition SubAllocator_freeAll :: "SubAllocator \<Rightarrow> SubAllocator res" where
  "SubAllocator_freeAll s =
     rbind (address_space_allocator_reset (addr_alloc s)) (\<lambda>a. Inr (s\<lparr>addr_alloc := a, allocCount := 0\<rparr>))"

definition toPageSize :: "SubAllocator \<Rightarrow> u64 \<Rightarrow> u64 res" where
  "toPageSize s wantedSize =
     (if pageSize s = 0 then Inl DivByZero
      else Inr (pageSize s * ((wantedSize + pageSize s - 1) div pageSize s)))"

text \<open>A null pointer is 0.\<close>

definition SubAllocator_alloc :: "SubAllocator \<Rightarrow> u64 \<Rightarrow> (SubAllocator \<times> u64) res" where
  "SubAllocator_alloc s wantedSize =
     (if wantedSize = 0 then Inr (s, 0)
      else rbind (toPageSize s wantedSize) (\<lambda>sz.
           rbind (address_space_allocator_allocate (addr_alloc s) sz) (\<lambda>(a, off).
             if off = BAD_OFFSET then Inr (s\<lparr>addr_alloc := a\<rparr>, 0)
             else Inr (s\<lparr>addr_alloc := a, allocCount := allocCount s + 1\<rparr>, startAddr s + off))))"

definition SubAllocator_allocFixed :: "SubAllocator \<Rightarrow> u64 \<Rightarrow> u64 \<Rightarrow> (SubAllocator \<times> u64) res" where
  "SubAllocator_allocFixed s wantedSize off =
     (if wantedSize = 0 then Inr (s, 0)
      else rbind (toPageSize s wantedSize) (\<lambda>sz.
           rbind (address_space_allocator_allocate_fixed (addr_alloc s) sz off) (\<lambda>(a, r).
             if r \<noteq> 0 then Inr (s\<lparr>addr_alloc := a\<rparr>, 0)
             else Inr (s\<lparr>addr_alloc := a, allocCount := allocCount s + 1\<rparr>, startAddr s + off))))"

definition SubAllocator_empty :: "SubAllocator \<Rightarrow> bool" where
  "SubAllocator_empty s \<longleftrightarrow> allocCount s = 0"

section \<open>Rounding to pages\<close>


section \<open>Alignment\<close>


section \<open>Invariant\<close>

text \<open>
  The counter is the number of allocated ranges. The constructor does not ask for an area
  of whole pages; the ranges start at whole pages where it is one.
\<close>

definition whole_pages :: "nat \<Rightarrow> (nat \<times> nat) set \<Rightarrow> bool" where
  "whole_pages d R \<longleftrightarrow> (\<forall>r \<in> R. d dvd fst r \<and> d dvd snd r)"

definition sub_inv :: "SubAllocator \<Rightarrow> bool" where
  "sub_inv s \<longleftrightarrow> alloc_inv (addr_alloc s) \<and> 0 < pageSize s \<and>
     (unat (pageSize s) dvd alloc_area (addr_alloc s) \<longrightarrow> whole_pages (unat (pageSize s)) (regions (addr_alloc s))) \<and>
     unat (allocCount s) = card (regions (addr_alloc s))"




lemma free_ok:
  assumes inv: "sub_inv s" and ptr: "ptr \<noteq> 0"
  shows "\<exists>s' r. SubAllocator_free s ptr = Inr (s', r) \<and> sub_inv s' \<and> pageSize s' = pageSize s \<and>
     alloc_area (addr_alloc s') = alloc_area (addr_alloc s) \<and>
     (r \<longleftrightarrow> (\<exists>n. (unat (ptr - startAddr s), n) \<in> regions (addr_alloc s))) \<and>
     regions (addr_alloc s') = regions (addr_alloc s) - {q. fst q = unat (ptr - startAddr s)}"
proof -
  let ?a = "addr_alloc s" and ?off = "ptr - startAddr s"
  have a: "alloc_inv ?a" using inv by (simp add: sub_inv_def)
  obtain a' err where run: "address_space_allocator_deallocate ?a ?off = Inr (a', err)" "alloc_inv a'"
    and ok: "deallocation_ok ?a ?off a' err"
    using deallocate_ok [OF a, of ?off] by blast
  have free: "SubAllocator_free s ptr =
      (if err = EINVAL then Inr (s\<lparr>addr_alloc := a'\<rparr>, False)
       else Inr (s\<lparr>addr_alloc := a', allocCount := allocCount s - 1\<rparr>, True))"
    using ptr run by (simp add: SubAllocator_free_def SubAllocator_getOffset_def)
  show ?thesis
  proof (cases "\<exists>n. (unat ?off, n) \<in> regions ?a")
    case False
    then have "err = EINVAL" "a' = ?a"
      using ok by (simp_all add: deallocation_ok_def)
    then have "SubAllocator_free s ptr = Inr (s, False)"
      using free by simp
    moreover have "regions ?a = regions ?a - {q. fst q = unat ?off}"
      using False by auto
    ultimately show ?thesis
      using inv False by blast
  next
    case True
    then obtain n where n: "(unat ?off, n) \<in> regions ?a" by blast
    have a': "err = 0" "alloc_area a' = alloc_area ?a" "regions a' = regions ?a - {q. fst q = unat ?off}"
      using ok True by (auto simp: deallocation_ok_def alloc_area_def)
    have uniq: "q = (unat ?off, n)" if "q \<in> regions ?a" "fst q = unat ?off" for q
    proof (rule ccontr)
      assume "q \<noteq> (unat ?off, n)"
      then have "\<not> overlap q (unat ?off, n)"
        using ranges_disjoint [OF alloc_invD(2) [OF a]] that(1) n by (auto simp: regions_def)
      then show False
        using regions_in_area [OF a n] regions_in_area [OF a that(1)] that(2)
        by (auto simp: overlap_def range_in_def)
    qed
    have "regions a' = regions ?a - {(unat ?off, n)}"
    proof (intro set_eqI iffI)
      fix q assume "q \<in> regions a'"
      then show "q \<in> regions ?a - {(unat ?off, n)}" unfolding a'(3) by auto
    next
      fix q assume "q \<in> regions ?a - {(unat ?off, n)}"
      then have "q \<in> regions ?a" "fst q \<noteq> unat ?off" using uniq [of q] by auto
      then show "q \<in> regions a'" unfolding a'(3) by simp
    qed
    then have card: "card (regions a') = card (regions ?a) - 1" "0 < card (regions ?a)"
      using n by (auto simp: card_gt_0_iff)
    then have "unat (allocCount s - 1) = card (regions a')"
      using inv by (subst unat_minus_no_underflow) (auto simp: sub_inv_def)
    then have "sub_inv (s\<lparr>addr_alloc := a', allocCount := allocCount s - 1\<rparr>)"
      using inv a' run(2) by (auto simp: sub_inv_def whole_pages_def)
    then show ?thesis
      using free a' True by (intro exI [of _ "s\<lparr>addr_alloc := a', allocCount := allocCount s - 1\<rparr>"] exI [of _ True]) simp
  qed
qed

section \<open>Snapshots\<close>

definition block_bytes :: "address_block \<Rightarrow> u8 list" where
  "block_bytes b = be64 (blk_offset b) @ be64 (size_available b)"

definition allocator_bytes :: "address_space_allocator \<Rightarrow> u8 list" where
  "allocator_bytes a = be32 (of_nat (nblocks a)) @ be32 (of_nat (capacity a)) @ be64 (total_bytes a)"

definition sub_bytes :: "SubAllocator \<Rightarrow> u8 list" where
  "sub_bytes s = allocator_bytes (addr_alloc s) @ concat (map block_bytes (live (addr_alloc s))) @
     be64 (pageSize s) @ be64 (totalSize s) @ be32 (allocCount s)"

lemma set_size_available_inverse:
  assumes "unat (blk_size b) < 2 ^ 63"
  shows "set_size_available (c\<lparr>blk_offset := blk_offset b\<rparr>) (size_available b) = b"
proof -
  have top: "\<not> bit (blk_size b) 63"
    using assms by (rule not_bit_small)
  have "take_bit 63 (size_available b) = blk_size b"
    using unat_take_bit_small [OF assms] by (simp add: size_available_def take_bit_or)
  moreover have "bit (size_available b) 63 \<longleftrightarrow> blk_available b"
    using top by (simp only: size_available_def bit_or_iff bit_push_bit_iff bit_1_iff if_split
        possible_bit_word) simp
  ultimately show ?thesis
    by (cases b; cases c) (simp add: set_size_available_def)
qed

lemma int_field_of_nat: "n < 2 ^ 31 \<Longrightarrow> int_field (of_nat n) = n"
proof -
  assume n: "n < 2 ^ 31"
  then have u: "unat (of_nat n :: u32) = n" by (simp add: unat_of_nat)
  have "\<not> bit (of_nat n :: u32) 31"
    using n u by (intro not_bit_small) simp
  then show ?thesis using u by (simp add: int_field_def)
qed

lemma run_blocks_saver:
  assumes "i + n \<le> length bs"
  shows "run_blocks (allocatorBlockSaver w) bs i n s =
    Inr (bs, fold (\<lambda>b s. putBe64 w (putBe64 w s (blk_offset b)) (size_available b)) (take n (drop i bs)) s)"
  using assms
proof (induction n arbitrary: i s)
  case (Suc n)
  have "take (Suc n) (drop i bs) = bs ! i # take n (drop (i + 1) bs)"
    using Suc.prems by (simp add: Cons_nth_drop_Suc [symmetric])
  then show ?case
    using Suc by (simp add: aread_ok awrite_ok allocatorBlockSaver_def)
qed simp

text \<open>A fresh array of 32 cells is what every load starts from.\<close>

definition loaded_blocks :: "SubAllocator \<Rightarrow> address_block list \<Rightarrow> address_block list" where
  "loaded_blocks s0 xs = xs @ drop (length xs)
     ((replicate 32 fresh_block)[0 := \<lparr>blk_offset = 0, blk_size = bitfield63 (totalSize s0), blk_available = True\<rparr>])"

lemma clear_ok:
  "SubAllocator_clear s0 = Inr (s0\<lparr>addr_alloc :=
     \<lparr>blocks = (replicate 32 fresh_block)[0 := \<lparr>blk_offset = 0, blk_size = bitfield63 (totalSize s0), blk_available = True\<rparr>],
      nblocks = 1, capacity = 32, total_bytes = totalSize s0\<rparr>\<rparr>)"
  by (simp add: SubAllocator_clear_def address_space_allocator_init_def awrite_ok)

context byte_stream
begin

lemma writes_block: "writes (\<lambda>s. putBe64 wr (putBe64 wr s (blk_offset b)) (size_available b)) (block_bytes b)"
  unfolding block_bytes_def by (rule writes_comp [OF writes_be64 writes_be64])

lemma save_bytes:
  assumes "array_ok (addr_alloc s)"
  shows "\<exists>f. (\<forall>stream. SubAllocator_save wr s stream = Inr (f stream)) \<and> writes f (sub_bytes s)"
proof -
  let ?a = "addr_alloc s"
  let ?hdr = "\<lambda>t. putBe64 wr (putBe32 wr (putBe32 wr t (of_nat (nblocks ?a))) (of_nat (capacity ?a))) (total_bytes ?a)"
  let ?blk = "\<lambda>t. fold (\<lambda>b s. putBe64 wr (putBe64 wr s (blk_offset b)) (size_available b)) (live ?a) t"
  let ?trl = "\<lambda>t. putBe32 wr (putBe64 wr (putBe64 wr t (pageSize s)) (totalSize s)) (allocCount s)"
  have run: "SubAllocator_save wr s t = Inr (?trl (?blk (?hdr t)))" for t
    using assms run_blocks_saver [of 0 "nblocks ?a" "blocks ?a" wr]
    by (simp add: SubAllocator_save_def address_space_allocator_run_def allocatorSaver_def array_ok_def live_def)
  have h: "writes ?hdr (allocator_bytes ?a)"
    unfolding allocator_bytes_def append_assoc [symmetric]
    by (rule writes_comp [OF writes_comp [OF writes_be32 writes_be32] writes_be64])
  have b: "writes ?blk (concat (map block_bytes (live ?a)))"
    by (rule writes_fold) (rule writes_block)
  have e: "writes ?trl (be64 (pageSize s) @ be64 (totalSize s) @ be32 (allocCount s))"
    unfolding append_assoc [symmetric]
    by (rule writes_comp [OF writes_comp [OF writes_be64 writes_be64] writes_be32])
  have "writes (\<lambda>t. ?trl (?blk (?hdr t))) (sub_bytes s)"
    using writes_comp [OF writes_comp [OF h b] e] by (simp add: sub_bytes_def)
  with run show ?thesis
    by (intro exI [of _ "\<lambda>t. ?trl (?blk (?hdr t))"]) simp
qed

lemma reads_block:
  assumes "unat (blk_size b) < 2 ^ 63"
  shows "reads (allocatorBlockLoader rd c) (block_bytes b) b"
  unfolding allocatorBlockLoader_def block_bytes_def
  by (rule reads_bind [OF reads_be64], rule reads_map [OF reads_be64])
    (rule set_size_available_inverse [OF assms])

lemma reads_blocks:
  assumes "i + length xs \<le> length cs" "\<forall>b \<in> set xs. unat (blk_size b) < 2 ^ 63"
  shows "reads (run_blocks (allocatorBlockLoader rd) cs i (length xs)) (concat (map block_bytes xs))
    (take i cs @ xs @ drop (i + length xs) cs)"
  using assms
proof (induction xs arbitrary: i cs)
  case Nil
  then show ?case by (simp add: reads_def)
next
  case (Cons b xs)
  let ?cs = "cs[i := b]"
  have ih: "reads (run_blocks (allocatorBlockLoader rd) ?cs (i + 1) (length xs)) (concat (map block_bytes xs))
      (take (i + 1) ?cs @ xs @ drop (i + 1 + length xs) ?cs)"
    using Cons.prems by (intro Cons.IH) simp_all
  have eq: "take (i + 1) ?cs @ xs @ drop (i + 1 + length xs) ?cs = take i cs @ (b # xs) @ drop (i + length (b # xs)) cs"
    using Cons.prems(1) by (simp add: take_Suc_conv_app_nth)
  have "reads (\<lambda>s. rbind (allocatorBlockLoader rd (cs ! i) s) (\<lambda>(b, s).
      run_blocks (allocatorBlockLoader rd) (cs[i := b]) (i + 1) (length xs) s))
      (block_bytes b @ concat (map block_bytes xs)) (take i cs @ (b # xs) @ drop (i + length (b # xs)) cs)"
    using Cons.prems(2) ih unfolding eq by (intro reads_bind [OF reads_block]) simp_all
  moreover have "run_blocks (allocatorBlockLoader rd) cs i (length (b # xs)) =
      (\<lambda>s. rbind (allocatorBlockLoader rd (cs ! i) s) (\<lambda>(b, s).
        run_blocks (allocatorBlockLoader rd) (cs[i := b]) (i + 1) (length xs) s))"
    by (rule ext) (use Cons.prems(1) in \<open>simp add: aread_ok awrite_ok\<close>)
  ultimately show ?case by simp
qed

text \<open>The header sets the counts before the array has that many cells.\<close>

lemma reads_header:
  assumes "nblocks a < 2 ^ 31" "capacity a < 2 ^ 31"
  shows "reads (allocatorLoader rd c) (allocator_bytes a)
    (c\<lparr>nblocks := nblocks a, capacity := capacity a, total_bytes := total_bytes a\<rparr>)"
  unfolding allocatorLoader_def allocator_bytes_def
  by (rule reads_bind [OF reads_be32], rule reads_bind [OF reads_be32], rule reads_map [OF reads_be64])
    (simp add: int_field_of_nat [OF assms(1)] int_field_of_nat [OF assms(2)])

lemma blocks_out_of_array:
  assumes "length cs < i + length xs" "i \<le> length cs" "\<forall>b \<in> set xs. unat (blk_size b) < 2 ^ 63"
    "ok s" "pending s = concat (map block_bytes xs) @ rest"
  shows "run_blocks (allocatorBlockLoader rd) cs i (length xs) s = Inl OutOfBounds"
  using assms
proof (induction xs arbitrary: i cs s)
  case Nil
  then show ?case by simp
next
  case (Cons b xs)
  show ?case
  proof (cases "i < length cs")
    case False
    then show ?thesis by (simp add: aread_def)
  next
    case True
    have "reads (allocatorBlockLoader rd (cs ! i)) (block_bytes b) b"
      using Cons.prems(3) by (intro reads_block) simp
    then obtain s1 where s1: "allocatorBlockLoader rd (cs ! i) s = Inr (b, s1)" "ok s1"
      "pending s1 = concat (map block_bytes xs) @ rest"
      using readsD [of _ _ b s "concat (map block_bytes xs) @ rest"] Cons.prems(4,5) by auto
    then have "run_blocks (allocatorBlockLoader rd) (cs[i := b]) (i + 1) (length xs) s1 = Inl OutOfBounds"
      using Cons.prems True by (intro Cons.IH) simp_all
    then show ?thesis
      using True s1(1) by (simp add: aread_ok awrite_ok)
  qed
qed

lemma load_restores:
  assumes a: "array_ok (addr_alloc s)" and n: "nblocks (addr_alloc s) \<le> 32" "capacity (addr_alloc s) < 2 ^ 31"
    and sz: "\<forall>b \<in> set (live (addr_alloc s)). unat (blk_size b) < 2 ^ 63"
  shows "reads (SubAllocator_load rd s0) (sub_bytes s)
    (s0\<lparr>addr_alloc := (addr_alloc s)\<lparr>blocks := loaded_blocks s0 (live (addr_alloc s))\<rparr>,
       pageSize := pageSize s, totalSize := totalSize s, allocCount := allocCount s\<rparr>)"
proof -
  let ?a = "addr_alloc s"
  let ?b0 = "\<lparr>blk_offset = 0, blk_size = bitfield63 (totalSize s0), blk_available = True\<rparr>"
  let ?c = "\<lparr>blocks = (replicate 32 fresh_block)[0 := ?b0], nblocks = 1, capacity = 32, total_bytes = totalSize s0\<rparr>"
  let ?d = "?c\<lparr>nblocks := nblocks ?a, capacity := capacity ?a, total_bytes := total_bytes ?a\<rparr>"
  let ?a' = "?d\<lparr>blocks := loaded_blocks s0 (live ?a)\<rparr>"
  have len: "length (live ?a) = nblocks ?a" "1 \<le> nblocks ?a"
    using a by (simp_all add: array_ok_def)
  have hdr: "reads (allocatorLoader rd ?c) (allocator_bytes ?a) ?d"
    using n by (intro reads_header) simp_all
  have "reads (run_blocks (allocatorBlockLoader rd) (blocks ?d) 0 (nblocks ?a))
      (concat (map block_bytes (live ?a))) (loaded_blocks s0 (live ?a))"
    using reads_blocks [of 0 "live ?a" "blocks ?d"] len n sz by (simp add: loaded_blocks_def)
  then have "reads (\<lambda>t. rbind (run_blocks (allocatorBlockLoader rd) (blocks ?d) 0 (nblocks ?d) t)
      (\<lambda>(bs, t). Inr (?d\<lparr>blocks := bs\<rparr>, t))) (concat (map block_bytes (live ?a))) ?a'"
    by (intro reads_map) simp_all
  then have blk: "reads (\<lambda>t. assert_then (nblocks ?d \<ge> 1)
      (rbind (run_blocks (allocatorBlockLoader rd) (blocks ?d) 0 (nblocks ?d) t)
        (\<lambda>(bs, t). Inr (?d\<lparr>blocks := bs\<rparr>, t)))) (concat (map block_bytes (live ?a))) ?a'"
    using len by simp
  have run: "reads (\<lambda>t. address_space_allocator_run ?c t (allocatorLoader rd) (allocatorBlockLoader rd))
      (allocator_bytes ?a @ concat (map block_bytes (live ?a))) ?a'"
    unfolding address_space_allocator_run_def by (rule reads_bind [OF hdr]) (rule blk)
  have "reads (\<lambda>t. rbind (address_space_allocator_run ?c t (allocatorLoader rd) (allocatorBlockLoader rd))
       (\<lambda>(a, t). rbind (getBe64 rd t) (\<lambda>(page, t). rbind (getBe64 rd t) (\<lambda>(tot, t). rbind (getBe32 rd t) (\<lambda>(count, t).
       Inr (s0\<lparr>addr_alloc := a, pageSize := page, totalSize := tot, allocCount := count\<rparr>, t))))))
     ((allocator_bytes ?a @ concat (map block_bytes (live ?a))) @ be64 (pageSize s) @ be64 (totalSize s) @ be32 (allocCount s))
     (s0\<lparr>addr_alloc := ?a', pageSize := pageSize s, totalSize := totalSize s, allocCount := allocCount s\<rparr>)"
    by (rule reads_bind [OF run], rule reads_bind [OF reads_be64], rule reads_bind [OF reads_be64],
        rule reads_map [OF reads_be32]) simp
  moreover have eq: "?a\<lparr>blocks := bs\<rparr> = \<lparr>blocks = bs, nblocks = nblocks ?a, capacity = capacity ?a,
      total_bytes = total_bytes ?a\<rparr>" for bs
    by (cases ?a) simp
  ultimately show ?thesis
    unfolding eq by (simp add: SubAllocator_load_def [abs_def] clear_ok sub_bytes_def)
qed

lemma load_overruns:
  assumes a: "array_ok (addr_alloc s)" and n: "32 < nblocks (addr_alloc s)" "capacity (addr_alloc s) < 2 ^ 31"
    and sz: "\<forall>b \<in> set (live (addr_alloc s)). unat (blk_size b) < 2 ^ 63"
    and st: "ok t" "pending t = sub_bytes s"
  shows "SubAllocator_load rd s0 t = Inl OutOfBounds"
proof -
  let ?a = "addr_alloc s"
  let ?b0 = "\<lparr>blk_offset = 0, blk_size = bitfield63 (totalSize s0), blk_available = True\<rparr>"
  let ?c = "\<lparr>blocks = (replicate 32 fresh_block)[0 := ?b0], nblocks = 1, capacity = 32, total_bytes = totalSize s0\<rparr>"
  let ?d = "?c\<lparr>nblocks := nblocks ?a, capacity := capacity ?a, total_bytes := total_bytes ?a\<rparr>"
  let ?tail = "be64 (pageSize s) @ be64 (totalSize s) @ be32 (allocCount s)"
  have len: "length (live ?a) = nblocks ?a" "nblocks ?a \<le> capacity ?a"
    using a by (simp_all add: array_ok_def)
  have "reads (allocatorLoader rd ?c) (allocator_bytes ?a) ?d"
    using n len by (intro reads_header) simp_all
  then obtain t1 where t1: "allocatorLoader rd ?c t = Inr (?d, t1)" "ok t1"
    "pending t1 = concat (map block_bytes (live ?a)) @ ?tail"
    using readsD [of _ _ ?d t "concat (map block_bytes (live ?a)) @ ?tail"] st
    by (auto simp: sub_bytes_def)
  have "run_blocks (allocatorBlockLoader rd) (blocks ?d) 0 (nblocks ?a) t1 = Inl OutOfBounds"
    using blocks_out_of_array [of "blocks ?d" 0 "live ?a" t1 ?tail] len n sz t1 by simp
  then show ?thesis
    using t1(1) n by (simp add: SubAllocator_load_def clear_ok address_space_allocator_run_def)
qed

end

lemma length_sub_bytes:
  assumes "array_ok (addr_alloc s)"
  shows "length (sub_bytes s) = 36 + 16 * nblocks (addr_alloc s)"
proof -
  have "length (concat (map block_bytes bs)) = 16 * length bs" for bs
    by (induction bs) (simp_all add: block_bytes_def)
  then show ?thesis
    using assms by (simp add: sub_bytes_def allocator_bytes_def)
qed

lemma live_block_small:
  assumes "alloc_inv a" "b \<in> set (live a)"
  shows "unat (blk_size b) < 2 ^ 63"
  using chain_bounds(2) [OF alloc_invD(2) [OF assms(1)] assms(2)] alloc_invD(4,5) [OF assms(1)] by linarith

text \<open>Saving to an empty memory stream leaves exactly the bytes of the snapshot in it.\<close>

lemma save_to_memory:
  assumes "sub_inv s" "capacity (addr_alloc s) < 2 ^ 26"
  obtains t where "SubAllocator_save MemStream_write s (MemStream_new []) = Inr t" "mem_ok t"
    "mem_pending t = sub_bytes s"
proof -
  have ok: "array_ok (addr_alloc s)"
    using assms(1) alloc_invD(1) by (simp add: sub_inv_def)
  obtain f where f: "\<forall>t. SubAllocator_save MemStream_write s t = Inr (f t)" "mem.writes f (sub_bytes s)"
    using mem.save_bytes [OF ok] by blast
  have "length (sub_bytes s) \<le> mem_room (MemStream_new [])"
    using length_sub_bytes [OF ok] ok assms(2) by (simp add: mem_new_ok array_ok_def)
  with f show thesis
    using that [of "f (MemStream_new [])"] by (simp add: mem.writes_def mem_new_ok)
qed

lemma loaded_live:
  assumes "array_ok a" "nblocks a \<le> 32"
  shows "live (a\<lparr>blocks := loaded_blocks s0 (live a)\<rparr>) = live a"
    "length (loaded_blocks s0 (live a)) = 32"
  using assms by (simp_all add: live_def loaded_blocks_def array_ok_def)

section \<open>Properties\<close>

definition demo_sub :: SubAllocator where
  "demo_sub =
     \<lparr>buffer = 65536, totalSize = 16384, pageSize = 4096, startAddr = 65536, endAddr = 81920,
      addr_alloc = demo_allocator, allocCount = 1\<rparr>"

lemma demo_sub_inv: "sub_inv demo_sub"
  using demo_allocator_inv
  by (simp add: demo_sub_def sub_inv_def alloc_area_def whole_pages_def)
    (simp add: demo_allocator_def regions_def live_def)



text \<open>
  C11. \<^verbatim>\<open>free\<close> returns true exactly for the pointers to the start of an allocated
  range, releases that range and no other, and keeps the counter right.
\<close>

theorem sub_free_correct:
  assumes "sub_inv s" "ptr \<noteq> 0"
  shows "\<exists>s' r. SubAllocator_free s ptr = Inr (s', r) \<and> sub_inv s' \<and> pageSize s' = pageSize s \<and>
     alloc_area (addr_alloc s') = alloc_area (addr_alloc s) \<and>
     (r \<longleftrightarrow> (\<exists>n. (unat (ptr - startAddr s), n) \<in> regions (addr_alloc s))) \<and>
     regions (addr_alloc s') = regions (addr_alloc s) - {q. fst q = unat (ptr - startAddr s)}"
  using assms by (rule free_ok)

theorem sub_free_correct_witness:
  "\<exists>s'. SubAllocator_free demo_sub 77824 = Inr (s', True) \<and> sub_inv s' \<and> regions (addr_alloc s') = {}"
proof -
  have "regions (addr_alloc demo_sub) = {(12288, 4096)}" "startAddr demo_sub = 65536"
    by (simp_all add: demo_sub_def demo_allocator_def regions_def live_def)
  with sub_free_correct [OF demo_sub_inv, of 77824] show ?thesis
    by (auto simp: insert_Diff_if)
qed

text \<open>
  C8. Snapshots: an allocator whose block array never grew beyond its first 32
  cells is restored by a load into any other object, with the same live blocks,
  counter, page size and invariant.
\<close>

theorem sub_snapshot_restores:
  assumes "sub_inv s" "capacity (addr_alloc s) = 32"
  shows "\<exists>t t' s'. SubAllocator_save MemStream_write s (MemStream_new []) = Inr t \<and>
     SubAllocator_load MemStream_read s0 t = Inr (s', t') \<and> mem_pending t' = [] \<and> sub_inv s' \<and>
     alloc_area (addr_alloc s') = alloc_area (addr_alloc s) \<and> live (addr_alloc s') = live (addr_alloc s) \<and> allocCount s' = allocCount s \<and>
     pageSize s' = pageSize s \<and> totalSize s' = totalSize s"
proof -
  let ?a = "addr_alloc s"
  have inv: "alloc_inv ?a" using assms(1) by (simp add: sub_inv_def)
  note ok = alloc_invD(1) [OF inv]
  have n: "nblocks ?a \<le> 32" "capacity ?a < 2 ^ 31"
    using ok assms(2) by (simp_all add: array_ok_def)
  obtain t where t: "SubAllocator_save MemStream_write s (MemStream_new []) = Inr t" "mem_ok t"
    "mem_pending t = sub_bytes s"
    by (rule save_to_memory [OF assms(1)]) (use assms(2) in simp_all)
  let ?b = "?a\<lparr>blocks := loaded_blocks s0 (live ?a)\<rparr>"
  let ?s = "s0\<lparr>addr_alloc := ?b, pageSize := pageSize s, totalSize := totalSize s, allocCount := allocCount s\<rparr>"
  obtain t' where t': "SubAllocator_load MemStream_read s0 t = Inr (?s, t')" "mem_pending t' = []"
    using mem.readsD [OF mem.load_restores [OF ok n, of s0], of t "[]"] t live_block_small [OF inv] by auto
  have "live ?b = live ?a" "array_ok ?b"
    using loaded_live [OF ok n(1), of s0] ok assms(2) by (simp_all add: array_ok_def)
  then have "sub_inv ?s"
    using assms(1) by (simp add: sub_inv_def alloc_inv_def alloc_area_def regions_def)
  with t t' \<open>live ?b = live ?a\<close> show ?thesis
    by (intro exI [of _ t] exI [of _ t'] exI [of _ ?s]) (simp add: alloc_area_def)
qed

theorem sub_snapshot_restores_witness:
  "\<exists>s t t' s'. SubAllocator_new 65536 16384 4096 = Inr s \<and>
     SubAllocator_save MemStream_write s (MemStream_new []) = Inr t \<and>
     SubAllocator_load MemStream_read demo_sub t = Inr (s', t') \<and> live (addr_alloc s') = live (addr_alloc s)"
proof -
  obtain a where a: "address_space_allocator_init 16384 32 = Inr a" "alloc_inv a" "regions a = {}"
    "total_bytes a = 16384" "capacity a = 32"
    using init_ok [of 16384 32] by auto
  let ?s = "\<lparr>buffer = 65536, totalSize = 16384, pageSize = 4096, startAddr = 65536, endAddr = 81920,
      addr_alloc = a, allocCount = 0\<rparr>"
  have "sub_inv ?s"
    using a by (simp add: sub_inv_def alloc_area_def whole_pages_def)
  moreover have "SubAllocator_new 65536 16384 4096 = Inr ?s"
    using a(1) by (simp add: SubAllocator_new_def)
  ultimately show ?thesis
    using sub_snapshot_restores [of ?s demo_sub] a(5) by auto
qed

text \<open>An allocator that has served 33 pages one by one: its array has grown to 64 cells.\<close>

definition page_block :: "nat \<Rightarrow> address_block" where
  "page_block i = \<lparr>blk_offset = of_nat i * 4096, blk_size = 4096, blk_available = False\<rparr>"

definition grown_allocator :: address_space_allocator where
  "grown_allocator =
     \<lparr>blocks = map page_block [0..<33] @ replicate 31 fresh_block, nblocks = 33, capacity = 64,
      total_bytes = 135168\<rparr>"

definition grown_sub :: SubAllocator where
  "grown_sub =
     \<lparr>buffer = 65536, totalSize = 135168, pageSize = 4096, startAddr = 65536, endAddr = 200704,
      addr_alloc = grown_allocator, allocCount = 33\<rparr>"

lemma page_offset: "i \<le> 1000 \<Longrightarrow> unat (of_nat i * 4096 :: u64) = i * 4096"
  by (subst unat_mult_no_overflow) (simp_all add: unat_of_nat)

lemma page_blocks_chain: "i \<le> n \<Longrightarrow> n \<le> 1000 \<Longrightarrow> chain (i * 4096) (map page_block [i..<n])"
proof (induction "n - i" arbitrary: i)
  case (Suc k)
  have "chain (Suc i * 4096) (map page_block [Suc i..<n])"
    by (rule Suc.hyps(1)) (use Suc in simp_all)
  then have "chain (i * 4096 + 4096) (map page_block [Suc i..<n])"
    by (simp only: mult_Suc add.commute)
  moreover have "unat (of_nat i * 4096 :: u64) = i * 4096"
    using Suc.prems by (intro page_offset) simp
  moreover have "[i..<n] = i # [Suc i..<n]"
    using Suc by (simp add: upt_conv_Cons)
  ultimately show ?case
    by (simp add: page_block_def)
qed simp

lemma page_blocks_other:
  "bytes (map page_block [0..<n]) = n * 4096" "coalesced (map page_block xs)"
  "ranges (map page_block [0..<n]) = (\<lambda>i. range_of (page_block i)) ` {0..<n}"
proof -
  show "bytes (map page_block [0..<n]) = n * 4096"
    by (induction n) (simp_all add: page_block_def)
  show "coalesced (map page_block xs)"
    by (induction xs) (simp_all add: page_block_def coalesced_Cons)
  show "ranges (map page_block [0..<n]) = (\<lambda>i. range_of (page_block i)) ` {0..<n}"
    by (induction n) (auto simp: page_block_def atLeast0_lessThan_Suc)
qed

lemma page_ranges:
  assumes "i < 1000"
  shows "range_of (page_block i) = (i * 4096, 4096)"
  using assms page_offset [of i] by (simp add: page_block_def range_of_def)

lemma grown_sub_inv: "sub_inv grown_sub"
proof -
  have live: "live grown_allocator = map page_block [0..<33]"
    by (simp add: live_def grown_allocator_def)
  have reg: "regions grown_allocator = (\<lambda>i. (i * 4096, 4096)) ` {0..<33}"
    unfolding regions_def live page_blocks_other by (rule image_cong) (simp_all add: page_ranges)
  have "inj_on (\<lambda>i :: nat. (i * 4096, 4096 :: nat)) {0..<33}"
    by (simp add: inj_on_def)
  then have "card (regions grown_allocator) = 33"
    unfolding reg by (simp add: card_image)
  moreover have "alloc_inv grown_allocator"
    using page_blocks_chain [of 0 33] page_blocks_other(1) [of 33] page_blocks_other(2)
    by (simp add: alloc_inv_def live) (simp add: grown_allocator_def array_ok_def)
  ultimately show ?thesis
    by (simp add: sub_inv_def grown_sub_def whole_pages_def reg)
qed

text \<open>
  C9. A snapshot of an allocator with more than 32 live blocks cannot be loaded:
  the load starts from a fresh array of 32 cells, takes the number of blocks from
  the stream without growing the array, and writes past its end.
\<close>

theorem sub_load_overruns_array:
  assumes "sub_inv s" "32 < nblocks (addr_alloc s)" "capacity (addr_alloc s) < 2 ^ 26"
  shows "\<exists>t. SubAllocator_save MemStream_write s (MemStream_new []) = Inr t \<and>
     SubAllocator_load MemStream_read s0 t = Inl OutOfBounds"
proof -
  have inv: "alloc_inv (addr_alloc s)" using assms(1) by (simp add: sub_inv_def)
  obtain t where t: "SubAllocator_save MemStream_write s (MemStream_new []) = Inr t" "mem_ok t"
    "mem_pending t = sub_bytes s"
    by (rule save_to_memory [OF assms(1,3)])
  have "SubAllocator_load MemStream_read s0 t = Inl OutOfBounds"
    using mem.load_overruns [OF alloc_invD(1) [OF inv] assms(2)] assms(3) live_block_small [OF inv] t by simp
  with t show ?thesis by blast
qed

theorem sub_load_overruns_array_witness:
  "\<exists>t. SubAllocator_save MemStream_write grown_sub (MemStream_new []) = Inr t \<and>
     SubAllocator_load MemStream_read demo_sub t = Inl OutOfBounds"
  by (rule sub_load_overruns_array [OF grown_sub_inv]) (simp_all add: grown_sub_def grown_allocator_def)

text \<open>
  The page size does not determine the alignment of the pointers returned: an
  area that is not a whole number of pages is cut from its end, so a page
  aligned buffer of one and a half pages yields a pointer into the middle of a
  page.
\<close>

theorem sub_alloc_can_be_misaligned:
  "\<exists>s s'. SubAllocator_new 4096 6144 4096 = Inr s \<and> SubAllocator_alloc s 1 = Inr (s', 6144) \<and>
     \<not> 4096 dvd unat (6144 :: u64)"
proof -
  have cells: "replicate 32 fresh_block = fresh_block # replicate 31 fresh_block"
    unfolding replicate_Suc [symmetric] by simp
  have "SubAllocator_new 4096 6144 4096 = Inr
      \<lparr>buffer = 4096, totalSize = 6144, pageSize = 4096, startAddr = 4096, endAddr = 10240,
       addr_alloc = \<lparr>blocks = \<lparr>blk_offset = 0, blk_size = 6144, blk_available = True\<rparr> # replicate 31 fresh_block,
         nblocks = 1, capacity = 32, total_bytes = 6144\<rparr>, allocCount = 0\<rparr>"
    by (simp add: SubAllocator_new_def allocator_eval cells)
  moreover have "\<exists>s'. SubAllocator_alloc
      \<lparr>buffer = 4096, totalSize = 6144, pageSize = 4096, startAddr = 4096, endAddr = 10240,
       addr_alloc = \<lparr>blocks = \<lparr>blk_offset = 0, blk_size = 6144, blk_available = True\<rparr> # replicate 31 fresh_block,
         nblocks = 1, capacity = 32, total_bytes = 6144\<rparr>, allocCount = 0\<rparr> 1 = Inr (s', 6144)"
    by (simp add: SubAllocator_alloc_def toPageSize_def allocator_eval BAD_OFFSET_def)
  ultimately show ?thesis by auto
qed

end
