(* ===== verification/Ring_Buffer.thy ===== *)
theory Ring_Buffer
  imports Interfaces
begin

text \<open>
  The single producer, single consumer ring buffer shared by host and guest,
  \<^verbatim>\<open>aemu/base/ring_buffer.cpp\<close>: two free running 32 bit positions over an array
  whose size is a power of two, either the array inside the structure or the one
  of a view. Positions wrap around at 32 bits and are masked on every access;
  one cell is always left free.
\<close>

section \<open>State\<close>

record ring_buffer =
  host_version :: u32
  guest_version :: u32
  write_pos :: u32
  read_pos :: u32
  read_live_count :: u32
  read_yield_count :: u32
  read_sleep_us_count :: u32
  buf :: "u8 list"
  sync_state :: u32

record ring_buffer_view =
  view_buf :: "u8 list"
  view_size :: u32
  view_mask :: u32

definition RING_BUFFER_SIZE :: u32 where
  "RING_BUFFER_SIZE = push_bit 11 1"

definition RING_BUFFER_MASK :: u32 where
  "RING_BUFFER_MASK = RING_BUFFER_SIZE - 1"

definition ring_buffer_init :: "ring_buffer \<Rightarrow> ring_buffer" where
  "ring_buffer_init r =
     r\<lparr>host_version := 1, write_pos := 0, read_pos := 0, read_live_count := 0, read_yield_count := 0,
       read_sleep_us_count := 0, sync_state := 0\<rparr>"

definition get_ring_pos :: "u32 \<Rightarrow> u32" where
  "get_ring_pos index = index AND RING_BUFFER_MASK"

definition ring_buffer_can_write :: "ring_buffer \<Rightarrow> u32 \<Rightarrow> bool" where
  "ring_buffer_can_write r bytes \<longleftrightarrow> get_ring_pos (read_pos r - write_pos r - 1) \<ge> bytes"

definition ring_buffer_can_read :: "ring_buffer \<Rightarrow> u32 \<Rightarrow> bool" where
  "ring_buffer_can_read r bytes \<longleftrightarrow> get_ring_pos (write_pos r - read_pos r) \<ge> bytes"

section \<open>Copying across the end of the array\<close>

text \<open>
  The two copies of a write and of a read, for any array \<open>b\<close> of size \<open>sz\<close> and
  mask \<open>msk\<close>; the functions on the structure and on a view inline the same code.
\<close>

definition copy_in :: "u8 list \<Rightarrow> u32 \<Rightarrow> u32 \<Rightarrow> u32 \<Rightarrow> u8 list \<Rightarrow> u8 list res" where
  "copy_in b sz msk pos data =
    (let available_at_end = sz - (pos AND msk); step_size = (of_nat (length data) :: u32) in
     if step_size > available_at_end
     then rbind (memcpy_to b (unat (pos AND msk)) (take (unat available_at_end) data)) (\<lambda>b.
            memcpy_to b (unat ((pos + available_at_end) AND msk)) (drop (unat available_at_end) data))
     else memcpy_to b (unat (pos AND msk)) data)"

definition copy_out :: "u8 list \<Rightarrow> u32 \<Rightarrow> u32 \<Rightarrow> u32 \<Rightarrow> u32 \<Rightarrow> u8 list res" where
  "copy_out b sz msk pos step_size =
    (let available_at_end = sz - (pos AND msk) in
     if step_size > available_at_end
     then let remaining = step_size - available_at_end in
          rbind (memcpy_from b (unat (pos AND msk)) (unat available_at_end)) (\<lambda>x.
          rbind (memcpy_from b (unat ((pos + available_at_end) AND msk)) (unat remaining)) (\<lambda>y.
            Inr (x @ y)))
     else memcpy_from b (unat (pos AND msk)) (unat step_size))"

section \<open>The ring inside the structure\<close>

text \<open>
  A loop iteration copies the chunk at \<^verbatim>\<open>data_bytes + i * step_size\<close>; the result
  is the number of steps made.
\<close>

fun ring_write_loop :: "ring_buffer \<Rightarrow> u8 list \<Rightarrow> u32 \<Rightarrow> u32 \<Rightarrow> nat \<Rightarrow> (ring_buffer \<times> u32) res" where
  "ring_write_loop r data step_size i 0 = Inr (r, i)"
| "ring_write_loop r data step_size i (Suc n) =
     (if \<not> ring_buffer_can_write r step_size then Inr (r, i)
      else rbind (memcpy_from data (unat (i * step_size)) (unat step_size)) (\<lambda>chunk.
           rbind (copy_in (buf r) RING_BUFFER_SIZE RING_BUFFER_MASK (write_pos r) chunk) (\<lambda>b.
             ring_write_loop (r\<lparr>buf := b, write_pos := write_pos r + step_size\<rparr>) data step_size (i + 1) n)))"

definition ring_buffer_write :: "ring_buffer \<Rightarrow> u8 list \<Rightarrow> u32 \<Rightarrow> u32 \<Rightarrow> (ring_buffer \<times> u32) res" where
  "ring_buffer_write r data step_size steps = ring_write_loop r data step_size 0 (unat steps)"

fun ring_read_loop :: "ring_buffer \<Rightarrow> u8 list \<Rightarrow> u32 \<Rightarrow> u32 \<Rightarrow> nat \<Rightarrow> (ring_buffer \<times> u8 list \<times> u32) res" where
  "ring_read_loop r data step_size i 0 = Inr (r, data, i)"
| "ring_read_loop r data step_size i (Suc n) =
     (if \<not> ring_buffer_can_read r step_size then Inr (r, data, i)
      else rbind (copy_out (buf r) RING_BUFFER_SIZE RING_BUFFER_MASK (read_pos r) step_size) (\<lambda>chunk.
           rbind (memcpy_to data (unat (i * step_size)) chunk) (\<lambda>data.
             ring_read_loop (r\<lparr>read_pos := read_pos r + step_size\<rparr>) data step_size (i + 1) n)))"

definition ring_buffer_read :: "ring_buffer \<Rightarrow> u8 list \<Rightarrow> u32 \<Rightarrow> u32 \<Rightarrow> (ring_buffer \<times> u8 list \<times> u32) res" where
  "ring_buffer_read r data step_size steps = ring_read_loop r data step_size 0 (unat steps)"

fun ring_advance_write_loop :: "ring_buffer \<Rightarrow> u32 \<Rightarrow> u32 \<Rightarrow> nat \<Rightarrow> ring_buffer \<times> u32" where
  "ring_advance_write_loop r step_size i 0 = (r, i)"
| "ring_advance_write_loop r step_size i (Suc n) =
     (if \<not> ring_buffer_can_write r step_size then (r, i)
      else ring_advance_write_loop (r\<lparr>write_pos := write_pos r + step_size\<rparr>) step_size (i + 1) n)"

definition ring_buffer_advance_write :: "ring_buffer \<Rightarrow> u32 \<Rightarrow> u32 \<Rightarrow> ring_buffer \<times> u32" where
  "ring_buffer_advance_write r step_size steps = ring_advance_write_loop r step_size 0 (unat steps)"

fun ring_advance_read_loop :: "ring_buffer \<Rightarrow> u32 \<Rightarrow> u32 \<Rightarrow> nat \<Rightarrow> ring_buffer \<times> u32" where
  "ring_advance_read_loop r step_size i 0 = (r, i)"
| "ring_advance_read_loop r step_size i (Suc n) =
     (if \<not> ring_buffer_can_read r step_size then (r, i)
      else ring_advance_read_loop (r\<lparr>read_pos := read_pos r + step_size\<rparr>) step_size (i + 1) n)"

definition ring_buffer_advance_read :: "ring_buffer \<Rightarrow> u32 \<Rightarrow> u32 \<Rightarrow> ring_buffer \<times> u32" where
  "ring_buffer_advance_read r step_size steps = ring_advance_read_loop r step_size 0 (unat steps)"

section \<open>Views\<close>

text \<open>
  \<^verbatim>\<open>1 << shift\<close> is an \<^verbatim>\<open>int\<close>: the shift is undefined from 31 on, and the comparison
  converts it to unsigned. The result for size 0 is a decrement of 0.
\<close>

fun calc_shift_loop :: "nat \<Rightarrow> u32 \<Rightarrow> nat \<Rightarrow> nat res" where
  "calc_shift_loop 0 sz shift = Inl IntOverflow"
| "calc_shift_loop (Suc fuel) sz shift =
     (if push_bit shift 1 < sz then calc_shift_loop fuel sz (shift + 1) else Inr shift)"

definition ring_buffer_calc_shift :: "u32 \<Rightarrow> u32 res" where
  "ring_buffer_calc_shift sz =
     rbind (calc_shift_loop 31 sz 0) (\<lambda>shift.
       if push_bit shift 1 > sz then Inr (of_nat shift - 1) else Inr (of_nat shift))"

definition ring_buffer_init_view_only :: "u8 list \<Rightarrow> u32 \<Rightarrow> ring_buffer_view res" where
  "ring_buffer_init_view_only b sz =
     rbind (ring_buffer_calc_shift sz) (\<lambda>shift.
       if unat shift \<ge> 31 then Inl IntOverflow
       else Inr \<lparr>view_buf = b, view_size = push_bit (unat shift) 1, view_mask = push_bit (unat shift) 1 - 1\<rparr>)"

definition ring_buffer_view_init :: "ring_buffer \<Rightarrow> u8 list \<Rightarrow> u32 \<Rightarrow> (ring_buffer \<times> ring_buffer_view) res" where
  "ring_buffer_view_init r b sz =
     rbind (ring_buffer_calc_shift sz) (\<lambda>shift.
       if unat shift \<ge> 31 then Inl IntOverflow
       else Inr (ring_buffer_init r,
         \<lparr>view_buf = b, view_size = push_bit (unat shift) 1, view_mask = push_bit (unat shift) 1 - 1\<rparr>))"

definition ring_buffer_view_get_ring_pos :: "ring_buffer_view \<Rightarrow> u32 \<Rightarrow> u32" where
  "ring_buffer_view_get_ring_pos v index = index AND view_mask v"

definition ring_buffer_view_can_write :: "ring_buffer \<Rightarrow> ring_buffer_view \<Rightarrow> u32 \<Rightarrow> bool" where
  "ring_buffer_view_can_write r v bytes \<longleftrightarrow>
     ring_buffer_view_get_ring_pos v (read_pos r - write_pos r - 1) \<ge> bytes"

definition ring_buffer_view_can_read :: "ring_buffer \<Rightarrow> ring_buffer_view \<Rightarrow> u32 \<Rightarrow> bool" where
  "ring_buffer_view_can_read r v bytes \<longleftrightarrow>
     ring_buffer_view_get_ring_pos v (write_pos r - read_pos r) \<ge> bytes"

definition ring_buffer_available_read :: "ring_buffer \<Rightarrow> ring_buffer_view option \<Rightarrow> u32" where
  "ring_buffer_available_read r v =
    (case v of
       Some v \<Rightarrow> ring_buffer_view_get_ring_pos v (write_pos r - read_pos r)
     | None \<Rightarrow> get_ring_pos (write_pos r - read_pos r))"

definition ring_buffer_available_write :: "ring_buffer \<Rightarrow> ring_buffer_view option \<Rightarrow> u32" where
  "ring_buffer_available_write r v =
    (case v of
       Some v \<Rightarrow> ring_buffer_view_get_ring_pos v (read_pos r - write_pos r - 1)
     | None \<Rightarrow> get_ring_pos (read_pos r - write_pos r - 1))"

text \<open>Peeking; without a view the space up to the end is taken from \<^verbatim>\<open>write_pos\<close>.\<close>

definition ring_buffer_copy_contents ::
  "ring_buffer \<Rightarrow> ring_buffer_view option \<Rightarrow> u32 \<Rightarrow> u8 list option res" where
  "ring_buffer_copy_contents r v wanted_bytes =
    (if ring_buffer_available_read r v < wanted_bytes then Inr None
     else case v of
       Some v \<Rightarrow>
         rbind (copy_out (view_buf v) (view_size v) (view_mask v) (read_pos r) wanted_bytes) (\<lambda>x. Inr (Some x))
     | None \<Rightarrow>
        (let available_at_end = RING_BUFFER_SIZE - get_ring_pos (write_pos r) in
         if wanted_bytes > available_at_end
         then let remaining = wanted_bytes - available_at_end in
              rbind (memcpy_from (buf r) (unat (get_ring_pos (read_pos r))) (unat available_at_end)) (\<lambda>x.
              rbind (memcpy_from (buf r) (unat (get_ring_pos (read_pos r + available_at_end))) (unat remaining)) (\<lambda>y.
                Inr (Some (x @ y))))
         else rbind (memcpy_from (buf r) (unat (get_ring_pos (read_pos r))) (unat wanted_bytes)) (\<lambda>x.
                Inr (Some x))))"

fun view_write_loop ::
  "ring_buffer \<Rightarrow> ring_buffer_view \<Rightarrow> u8 list \<Rightarrow> u32 \<Rightarrow> u32 \<Rightarrow> nat \<Rightarrow> (ring_buffer \<times> ring_buffer_view \<times> u32) res" where
  "view_write_loop r v data step_size i 0 = Inr (r, v, i)"
| "view_write_loop r v data step_size i (Suc n) =
     (if \<not> ring_buffer_view_can_write r v step_size then Inr (r, v, i)
      else rbind (memcpy_from data (unat (i * step_size)) (unat step_size)) (\<lambda>chunk.
           rbind (copy_in (view_buf v) (view_size v) (view_mask v) (write_pos r) chunk) (\<lambda>b.
             view_write_loop (r\<lparr>write_pos := write_pos r + step_size\<rparr>) (v\<lparr>view_buf := b\<rparr>) data
               step_size (i + 1) n)))"

definition ring_buffer_view_write ::
  "ring_buffer \<Rightarrow> ring_buffer_view \<Rightarrow> u8 list \<Rightarrow> u32 \<Rightarrow> u32 \<Rightarrow> (ring_buffer \<times> ring_buffer_view \<times> u32) res" where
  "ring_buffer_view_write r v data step_size steps = view_write_loop r v data step_size 0 (unat steps)"

fun view_read_loop ::
  "ring_buffer \<Rightarrow> ring_buffer_view \<Rightarrow> u8 list \<Rightarrow> u32 \<Rightarrow> u32 \<Rightarrow> nat \<Rightarrow> (ring_buffer \<times> u8 list \<times> u32) res" where
  "view_read_loop r v data step_size i 0 = Inr (r, data, i)"
| "view_read_loop r v data step_size i (Suc n) =
     (if \<not> ring_buffer_view_can_read r v step_size then Inr (r, data, i)
      else rbind (copy_out (view_buf v) (view_size v) (view_mask v) (read_pos r) step_size) (\<lambda>chunk.
           rbind (memcpy_to data (unat (i * step_size)) chunk) (\<lambda>data.
             view_read_loop (r\<lparr>read_pos := read_pos r + step_size\<rparr>) v data step_size (i + 1) n)))"

definition ring_buffer_view_read ::
  "ring_buffer \<Rightarrow> ring_buffer_view \<Rightarrow> u8 list \<Rightarrow> u32 \<Rightarrow> u32 \<Rightarrow> (ring_buffer \<times> u8 list \<times> u32) res" where
  "ring_buffer_view_read r v data step_size steps = view_read_loop r v data step_size 0 (unat steps)"

section \<open>Hand-over between producer and consumer\<close>

definition SYNC_PRODUCER_IDLE :: u32 where "SYNC_PRODUCER_IDLE = 0"
definition SYNC_PRODUCER_ACTIVE :: u32 where "SYNC_PRODUCER_ACTIVE = 1"
definition SYNC_CONSUMER_HANGING_UP :: u32 where "SYNC_CONSUMER_HANGING_UP = 2"
definition SYNC_CONSUMER_HUNG_UP :: u32 where "SYNC_CONSUMER_HUNG_UP = 3"

text \<open>The strong compare and exchange on the state word.\<close>

definition compare_exchange :: "ring_buffer \<Rightarrow> u32 \<Rightarrow> u32 \<Rightarrow> ring_buffer \<times> bool" where
  "compare_exchange r expected desired =
     (if sync_state r = expected then (r\<lparr>sync_state := desired\<rparr>, True) else (r, False))"

definition ring_buffer_sync_init :: "ring_buffer \<Rightarrow> ring_buffer" where
  "ring_buffer_sync_init r = r\<lparr>sync_state := SYNC_PRODUCER_IDLE\<rparr>"

definition ring_buffer_producer_acquire :: "ring_buffer \<Rightarrow> ring_buffer \<times> bool" where
  "ring_buffer_producer_acquire r = compare_exchange r SYNC_PRODUCER_IDLE SYNC_PRODUCER_ACTIVE"

definition ring_buffer_producer_acquire_from_hangup :: "ring_buffer \<Rightarrow> ring_buffer \<times> bool" where
  "ring_buffer_producer_acquire_from_hangup r = compare_exchange r SYNC_CONSUMER_HUNG_UP SYNC_PRODUCER_ACTIVE"

definition ring_buffer_producer_idle :: "ring_buffer \<Rightarrow> ring_buffer" where
  "ring_buffer_producer_idle r = r\<lparr>sync_state := SYNC_PRODUCER_IDLE\<rparr>"

definition ring_buffer_consumer_hangup :: "ring_buffer \<Rightarrow> ring_buffer \<times> bool" where
  "ring_buffer_consumer_hangup r = compare_exchange r SYNC_PRODUCER_IDLE SYNC_CONSUMER_HANGING_UP"

definition ring_buffer_consumer_hung_up :: "ring_buffer \<Rightarrow> ring_buffer" where
  "ring_buffer_consumer_hung_up r = r\<lparr>sync_state := SYNC_CONSUMER_HUNG_UP\<rparr>"

section \<open>Circular segments\<close>

text \<open>\<open>segment b p n\<close> reads \<open>n\<close> cells from position \<open>p\<close> on, wrapping at the end.\<close>

definition segment :: "'a list \<Rightarrow> nat \<Rightarrow> nat \<Rightarrow> 'a list" where
  "segment b p n = map (\<lambda>i. b ! ((p + i) mod length b)) [0..<n]"

lemma length_segment [simp]: "length (segment b p n) = n"
  by (simp add: segment_def)

lemma nth_segment: "i < n \<Longrightarrow> segment b p n ! i = b ! ((p + i) mod length b)"
  by (simp add: segment_def)

lemma segment_mod: "segment b (p mod length b) n = segment b p n"
  by (simp add: segment_def mod_add_left_eq)

lemma segment_append: "segment b p (n + k) = segment b p n @ segment b (p + n) k"
  by (rule nth_equalityI) (auto simp: nth_segment nth_append add.assoc)

lemma take_segment: "n \<le> k \<Longrightarrow> take n (segment b p k) = segment b p n"
  by (rule nth_equalityI) (auto simp: nth_segment)

lemma drop_segment: "n \<le> k \<Longrightarrow> drop n (segment b p k) = segment b (p + n) (k - n)"
  by (rule nth_equalityI) (auto simp: nth_segment add.assoc)

lemma segment_inside: "p + n \<le> length b \<Longrightarrow> segment b p n = take n (drop p b)"
  by (rule nth_equalityI) (auto simp: nth_segment)

lemma segment_across:
  assumes "p < length b" "length b < p + n" "n \<le> length b"
  shows "segment b p n = drop p b @ take (n - (length b - p)) b"
proof -
  have "segment b p n = segment b p (length b - p) @ segment b (p + (length b - p)) (n - (length b - p))"
    using assms segment_append [of b p "length b - p" "n - (length b - p)"] by simp
  also have "segment b p (length b - p) = drop p b"
    using assms by (simp add: segment_inside)
  also have "segment b (p + (length b - p)) (n - (length b - p)) = segment b 0 (n - (length b - p))"
    using assms segment_mod [of b "length b"] by simp
  also have "\<dots> = take (n - (length b - p)) b"
    using assms by (simp add: segment_inside)
  finally show ?thesis .
qed

text \<open>Distance from \<open>q\<close> forward to \<open>j\<close> on the circle.\<close>

definition ahead :: "nat \<Rightarrow> nat \<Rightarrow> nat \<Rightarrow> nat" where
  "ahead N q j = (j + (N - q mod N)) mod N"

lemma ahead_shift:
  assumes "0 < N"
  shows "ahead N q ((q + d) mod N) = d mod N"
proof -
  have "((q + d) mod N + (N - q mod N)) mod N = (q mod N + d + (N - q mod N)) mod N"
    by (metis mod_add_left_eq)
  also have "q mod N + d + (N - q mod N) = d + N"
    using assms mod_less_divisor [of N q] by simp
  finally show ?thesis by (simp add: ahead_def)
qed

text \<open>Writing a chunk at \<open>q\<close> with wrap-around, cell by cell.\<close>

definition put_at :: "'a list \<Rightarrow> nat \<Rightarrow> 'a list \<Rightarrow> 'a list" where
  "put_at b q data =
     map (\<lambda>j. if ahead (length b) q j < length data then data ! ahead (length b) q j else b ! j) [0..<length b]"

lemma length_put_at [simp]: "length (put_at b q data) = length b"
  by (simp add: put_at_def)

lemma segment_put_at:
  assumes n: "n + length data \<le> length b" and N: "0 < length b"
  shows "segment (put_at b (p + n) data) p (n + length data) = segment b p n @ data"
proof (rule nth_equalityI)
  let ?N = "length b"
  fix i assume "i < length (segment (put_at b (p + n) data) p (n + length data))"
  then have i: "i < n + length data" by simp
  let ?j = "(p + i) mod ?N"
  have j: "?j < ?N" using N by simp
  have dist: "ahead ?N (p + n) ?j = (i + ?N - n) mod ?N"
  proof -
    have "(p + n) + (i + ?N - n) = (p + i) + ?N"
      using n by simp
    then have "(p + i) mod ?N = ((p + n) + (i + ?N - n)) mod ?N"
      by (simp only: mod_add_self2)
    then show ?thesis using ahead_shift [OF N, of "p + n" "i + ?N - n"] by simp
  qed
  have val: "segment (put_at b (p + n) data) p (n + length data) ! i =
      (if (i + ?N - n) mod ?N < length data then data ! ((i + ?N - n) mod ?N) else b ! ?j)"
    using i j by (simp add: nth_segment put_at_def dist)
  show "segment (put_at b (p + n) data) p (n + length data) ! i = (segment b p n @ data) ! i"
  proof (cases "i < n")
    case True
    then have lt: "i + ?N - n < ?N" and ge: "\<not> i + ?N - n < length data"
      using n by linarith+
    show ?thesis
      unfolding val mod_less [OF lt] if_not_P [OF ge] using True by (simp add: nth_append nth_segment)
  next
    case False
    then have eq: "i + ?N - n = (i - n) + ?N" and lt: "i - n < ?N" and le: "i - n < length data"
      using i n by linarith+
    show ?thesis
      unfolding val eq mod_add_self2 mod_less [OF lt] if_P [OF le] using False by (simp add: nth_append)
  qed
qed simp

text \<open>The split copies are these operations.\<close>

lemma ahead_inside:
  assumes "q < N" "j < N"
  shows "ahead N q j = (if j < q then j + N - q else j - q)"
proof (cases "j < q")
  case True
  then show ?thesis using assms by (simp add: ahead_def)
next
  case False
  then have "j + (N - q mod N) = (j - q) + N" "j - q < N" using assms by simp_all
  then show ?thesis using False by (simp only: ahead_def mod_add_self2 mod_less if_False)
qed

lemma nth_put_at:
  assumes "q < length b" "j < length b"
  shows "put_at b q data ! j =
    (if j < q then if j + length b - q < length data then data ! (j + length b - q) else b ! j
     else if j - q < length data then data ! (j - q) else b ! j)"
  using assms by (simp add: put_at_def ahead_inside)

lemma put_at_inside:
  assumes "q + length data \<le> length b" "q < length b"
  shows "take q b @ data @ drop (q + length data) b = put_at b q data"
proof (rule nth_equalityI)
  fix j assume "j < length (take q b @ data @ drop (q + length data) b)"
  then have j: "j < length b" using assms by simp
  consider "j < q" | "q \<le> j" "j < q + length data" | "q + length data \<le> j" by linarith
  then show "(take q b @ data @ drop (q + length data) b) ! j = put_at b q data ! j"
  proof cases
    case 1
    then have "\<not> j + length b - q < length data" using assms by linarith
    then show ?thesis using 1 j assms(2) by (simp add: nth_put_at nth_append)
  next
    case 2
    then have "j - q < length data" "\<not> j < q" by linarith+
    then show ?thesis using j assms(2) by (simp add: nth_put_at nth_append)
  next
    case 3
    then have "\<not> j - q < length data" "\<not> j < q" by linarith+
    then show ?thesis using 3 j assms by (simp add: nth_put_at nth_append)
  qed
qed (use assms in simp)

lemma nth_append3:
  assumes "length xs = a" "length ys = c"
  shows "(xs @ ys @ zs) ! j = (if j < a then xs ! j else if j < a + c then ys ! (j - a) else zs ! (j - (a + c)))"
  using assms by (auto simp: nth_append)

lemma put_at_across:
  assumes b: "q + e = length b" and data: "e + d = length data" and d: "d \<le> q" and e: "0 < e"
  shows "drop e data @ drop d (take q b) @ take e data = put_at b q data"
proof (rule nth_equalityI)
  fix j assume "j < length (drop e data @ drop d (take q b) @ take e data)"
  then have j: "j < q + e" using assms by simp
  have "length (drop e data) = d" "length (drop d (take q b)) = q - d"
    using assms by simp_all
  then have lhs: "(drop e data @ drop d (take q b) @ take e data) ! j =
      (if j < d then drop e data ! j else if j < q then drop d (take q b) ! (j - d) else take e data ! (j - q))"
    using d by (simp add: nth_append3)
  have rhs: "put_at b q data ! j =
      (if j < q then if j + e < length data then data ! (j + e) else b ! j
       else if j - q < length data then data ! (j - q) else b ! j)"
    using nth_put_at [of q b j data] j e unfolding b [symmetric] by simp
  consider "j < d" | "d \<le> j" "j < q" | "q \<le> j" by linarith
  then show "(drop e data @ drop d (take q b) @ take e data) ! j = put_at b q data ! j"
  proof cases
    case 1
    then show ?thesis
      unfolding lhs rhs using d data by (simp add: add.commute)
  next
    case 2
    then have "\<not> j + e < length data" using data by linarith
    then show ?thesis unfolding lhs rhs using 2 b by simp
  next
    case 3
    then have "j - q < length data" "j - q < e" "\<not> j < d" "\<not> j < q" using j d data by linarith+
    then show ?thesis unfolding lhs rhs by simp
  qed
qed (use assms in simp)

section \<open>Positions\<close>

text \<open>A ring of size \<^term>\<open>2 ^ k\<close>: masking is taking the remainder.\<close>

definition ring_shape :: "nat \<Rightarrow> u8 list \<Rightarrow> u32 \<Rightarrow> u32 \<Rightarrow> bool" where
  "ring_shape k b sz msk \<longleftrightarrow> k < 31 \<and> length b = 2 ^ k \<and> sz = push_bit k 1 \<and> msk = sz - 1"

lemma ring_shape_facts:
  assumes "ring_shape k b sz msk"
  shows "unat sz = 2 ^ k" "unat (x AND msk) = unat x mod 2 ^ k" "length b = 2 ^ k" "k < 31"
    "(2 :: nat) ^ k \<le> 2 ^ 30"
proof -
  show k: "k < 31" "length b = 2 ^ k" using assms by (auto simp: ring_shape_def)
  show small: "(2 :: nat) ^ k \<le> 2 ^ 30"
    by (rule power_increasing) (use k in simp_all)
  have "unat (push_bit k 1 :: u32) = take_bit 32 (push_bit k 1)"
    by (simp only: unsigned_push_bit_eq unsigned_1) simp
  then show "unat sz = 2 ^ k"
    using assms small by (simp add: ring_shape_def push_bit_eq_mult take_bit_nat_eq_self)
  have "msk = mask k"
    using assms by (simp add: ring_shape_def mask_eq_exp_minus_1 push_bit_eq_mult)
  moreover have "unat (take_bit k x) = take_bit k (unat x)"
    by (rule unsigned_take_bit_eq)
  ultimately show "unat (x AND msk) = unat x mod 2 ^ k"
    by (simp add: take_bit_eq_mask [symmetric] take_bit_nat_def)
qed

lemma unat_plus_mod:
  fixes x y :: u32
  assumes "k \<le> 32"
  shows "unat (x + y) mod 2 ^ k = (unat x + unat y) mod 2 ^ k"
proof -
  have "(2 :: nat) ^ k dvd 2 ^ 32" using assms by (rule le_imp_power_dvd)
  then have "(unat x + unat y) mod 2 ^ 32 mod 2 ^ k = (unat x + unat y) mod 2 ^ k"
    by (rule mod_mod_cancel)
  then show ?thesis by (simp add: unat_word_ariths)
qed

lemma ring_wrap:
  assumes shape: "ring_shape k b sz msk"
  shows "unat (sz - (pos AND msk)) = 2 ^ k - unat pos mod 2 ^ k"
    and "unat ((pos + (sz - (pos AND msk))) AND msk) = 0"
proof -
  note f = ring_shape_facts [OF shape]
  let ?q = "unat pos mod 2 ^ k"
  have q: "?q \<le> 2 ^ k" by (simp add: less_imp_le)
  show e: "unat (sz - (pos AND msk)) = 2 ^ k - ?q"
    using q by (subst unat_minus_no_underflow) (simp_all add: f(1,2))
  have "unat (pos + (sz - (pos AND msk))) mod 2 ^ k = (unat pos + (2 ^ k - ?q)) mod 2 ^ k"
    using f(4) unat_plus_mod [of k pos "sz - (pos AND msk)"] by (simp add: e)
  also have "\<dots> = (?q + (2 ^ k - ?q)) mod 2 ^ k"
    by (simp only: mod_add_left_eq)
  also have "\<dots> = 0" using q by simp
  finally show "unat ((pos + (sz - (pos AND msk))) AND msk) = 0" unfolding f(2) .
qed

text \<open>One copy into or out of a ring, on segments.\<close>

lemma copy_in_put_at:
  assumes shape: "ring_shape k b sz msk" and len: "length data < 2 ^ k"
  shows "copy_in b sz msk pos data = Inr (put_at b (unat pos mod 2 ^ k) data)"
proof -
  note f = ring_shape_facts [OF shape]
  let ?q = "unat pos mod 2 ^ k"
  have q: "?q < 2 ^ k" by simp
  have pos: "unat (pos AND msk) = ?q" by (rule f(2))
  note e = ring_wrap(1) [OF shape, of pos] and wrap = ring_wrap(2) [OF shape, of pos]
  have "length data < 2 ^ 30" using len f(5) by linarith
  then have n: "unat (of_nat (length data) :: u32) = length data"
    by (simp add: unat_of_nat)
  have gt: "(of_nat (length data) :: u32) > sz - (pos AND msk) \<longleftrightarrow> 2 ^ k - ?q < length data"
    by (simp add: word_less_nat_alt n e)
  show ?thesis
  proof (cases "2 ^ k - ?q < length data")
    case False
    then have fit: "?q + length data \<le> length b" "?q < length b"
      using q f(3) by linarith+
    show ?thesis
      using False fit put_at_inside [OF fit]
      by (simp add: copy_in_def Let_def gt pos memcpy_to_def)
  next
    case True
    let ?e = "2 ^ k - ?q"
    have fit: "?q + length (take ?e data) = length b" using True q f(3) len by simp
    have fit2: "length data - ?e \<le> ?q" "?e + (length data - ?e) = length data" "?q + ?e = length b" "0 < ?e"
      using True q f(3) len by linarith+
    have "memcpy_to b ?q (take ?e data) = Inr (take ?q b @ take ?e data)"
      using fit by (simp add: memcpy_to_def)
    moreover have "memcpy_to (take ?q b @ take ?e data) 0 (drop ?e data) =
        Inr (drop ?e data @ drop (length data - ?e) (take ?q b) @ take ?e data)"
      using fit fit2 by (simp add: memcpy_to_def)
    ultimately show ?thesis
      using True put_at_across [OF fit2(3,2,1,4)]
      by (simp add: copy_in_def Let_def gt pos e wrap)
  qed
qed

lemma copy_out_segment:
  assumes shape: "ring_shape k b sz msk" and n: "unat n < 2 ^ k"
  shows "copy_out b sz msk pos n = Inr (segment b (unat pos) (unat n))"
proof -
  note f = ring_shape_facts [OF shape]
  let ?q = "unat pos mod 2 ^ k"
  have q: "?q < 2 ^ k" by simp
  have pos: "unat (pos AND msk) = ?q" by (rule f(2))
  note e = ring_wrap(1) [OF shape, of pos] and wrap = ring_wrap(2) [OF shape, of pos]
  have gt: "n > sz - (pos AND msk) \<longleftrightarrow> 2 ^ k - ?q < unat n"
    by (simp add: word_less_nat_alt e)
  have seg: "segment b (unat pos) (unat n) = segment b ?q (unat n)"
    using segment_mod [of b "unat pos"] f(3) by simp
  show ?thesis
  proof (cases "2 ^ k - ?q < unat n")
    case False
    then have "?q + unat n \<le> length b" using q f(3) by linarith
    then show ?thesis
      using False by (simp add: copy_out_def Let_def gt pos memcpy_from_def seg segment_inside)
  next
    case True
    have r: "unat (n - (sz - (pos AND msk))) = unat n - (2 ^ k - ?q)"
      using True by (subst unat_minus_no_underflow) (simp_all add: e)
    have across: "segment b ?q (unat n) = drop ?q b @ take (unat n - (2 ^ k - ?q)) b"
      using segment_across [of ?q b "unat n"] True q n f(3) by simp
    have "unat n - (2 ^ k - ?q) \<le> length b" using n f(3) by linarith
    then show ?thesis
      using True n q f(3)
      by (simp add: copy_out_def Let_def gt pos e wrap r memcpy_from_def seg across)
  qed
qed

section \<open>What a ring holds\<close>

text \<open>
  \<open>held b rp wp\<close> are the bytes between the positions; a ring is well formed when
  there are fewer of them than cells.
\<close>

definition filled :: "u32 \<Rightarrow> u32 \<Rightarrow> nat" where
  "filled rp wp = unat (wp - rp)"

definition held :: "u8 list \<Rightarrow> u32 \<Rightarrow> u32 \<Rightarrow> u8 list" where
  "held b rp wp = segment b (unat rp) (filled rp wp)"

lemma length_held [simp]: "length (held b rp wp) = filled rp wp"
  by (simp add: held_def)

lemma put_at_mod: "put_at b (q mod length b) data = put_at b q data"
  by (simp add: put_at_def ahead_def)

lemma dvd_imp_exact:
  fixes a c :: nat
  assumes "2 ^ k dvd a + (c + 1)" "a < 2 ^ k" "c < 2 ^ k"
  shows "a + (c + 1) = 2 ^ k"
proof -
  obtain t where t: "a + (c + 1) = 2 ^ k * t" using assms(1) by (elim dvdE)
  have "t < 2"
  proof (rule ccontr)
    assume "\<not> t < 2"
    then have "2 ^ k * 2 \<le> 2 ^ k * t" by simp
    then show False using t assms(2,3) by linarith
  qed
  moreover have "t \<noteq> 0" using t by (cases t) simp_all
  ultimately have "t = 1" by simp
  then show ?thesis using t by simp
qed

lemma readable:
  assumes shape: "ring_shape k b sz msk" and inv: "filled rp wp < 2 ^ k"
  shows "n \<le> ((wp - rp) AND msk) \<longleftrightarrow> unat n \<le> filled rp wp"
  using ring_shape_facts(2) [OF shape, of "wp - rp"] inv by (simp add: word_le_nat_alt filled_def)

lemma writable:
  assumes shape: "ring_shape k b sz msk" and inv: "filled rp wp < 2 ^ k"
  shows "n \<le> ((rp - wp - 1) AND msk) \<longleftrightarrow> filled rp wp + unat n < 2 ^ k"
proof -
  note f = ring_shape_facts [OF shape]
  let ?y = "unat (rp - wp - 1) mod 2 ^ k" and ?c = "filled rp wp"
  have "(wp - rp) + ((rp - wp - 1) + 1) = 0" by simp
  then have "unat ((wp - rp) + ((rp - wp - 1) + 1)) mod 2 ^ k = 0" by simp
  then have "(?c + unat ((rp - wp - 1) + 1)) mod 2 ^ k = 0"
    using unat_plus_mod [of k "wp - rp" "(rp - wp - 1) + 1"] f(4) by (simp add: filled_def)
  then have "(?c + unat ((rp - wp - 1) + 1) mod 2 ^ k) mod 2 ^ k = 0"
    by (simp add: mod_add_right_eq)
  moreover have "unat ((rp - wp - 1) + 1) mod 2 ^ k = (unat (rp - wp - 1) + 1) mod 2 ^ k"
    using unat_plus_mod [of k "rp - wp - 1" 1] f(4) by simp
  ultimately have "(?c + (unat (rp - wp - 1) + 1) mod 2 ^ k) mod 2 ^ k = 0" by simp
  then have "(?c + (?y + 1)) mod 2 ^ k = 0"
    by (metis add.assoc mod_add_left_eq mod_add_right_eq)
  then have "2 ^ k dvd ?c + (?y + 1)" by (simp add: mod_eq_0_iff_dvd)
  moreover have "?y < 2 ^ k" by simp
  ultimately have "?c + (?y + 1) = 2 ^ k"
    using inv dvd_imp_exact by blast
  then show ?thesis
    unfolding word_le_nat_alt f(2) by linarith
qed

lemma write_step:
  assumes shape: "ring_shape k b sz msk" and room: "filled rp wp + length data < 2 ^ k"
    and n: "unat n = length data"
  shows "\<exists>b'. copy_in b sz msk wp data = Inr b' \<and> ring_shape k b' sz msk \<and>
     filled rp (wp + n) = filled rp wp + length data \<and> held b' rp (wp + n) = held b rp wp @ data"
proof -
  note f = ring_shape_facts [OF shape]
  let ?b = "put_at b (unat wp mod 2 ^ k) data"
  have "wp + n - rp = (wp - rp) + n" by simp
  then have cnt: "filled rp (wp + n) = filled rp wp + length data"
    unfolding filled_def using room n f(5)
    by (simp only:) (subst unat_plus_no_overflow, simp_all add: filled_def)
  have "unat wp mod 2 ^ k = (unat rp + filled rp wp) mod 2 ^ k"
    using unat_plus_mod [of k rp "wp - rp"] f(4) by (simp add: filled_def)
  then have b: "?b = put_at b (unat rp + filled rp wp) data"
    using put_at_mod [of b "unat rp + filled rp wp" data] put_at_mod [of b "unat wp" data] f(3) by simp
  have "held ?b rp (wp + n) = held b rp wp @ data"
    unfolding held_def cnt b using segment_put_at [of "filled rp wp" data b "unat rp"] room f(3) by simp
  moreover have "ring_shape k ?b sz msk"
    using shape by (simp add: ring_shape_def)
  moreover have "copy_in b sz msk wp data = Inr ?b"
    using copy_in_put_at [OF shape, of data wp] room by simp
  ultimately show ?thesis
    using cnt by blast
qed

lemma read_step:
  assumes shape: "ring_shape k b sz msk" and inv: "filled rp wp < 2 ^ k" and n: "unat n \<le> filled rp wp"
  shows "copy_out b sz msk rp n = Inr (take (unat n) (held b rp wp)) \<and>
     filled (rp + n) wp = filled rp wp - unat n \<and> held b (rp + n) wp = drop (unat n) (held b rp wp)"
proof -
  note f = ring_shape_facts [OF shape]
  have "wp - (rp + n) = (wp - rp) - n" by simp
  then have cnt: "filled (rp + n) wp = filled rp wp - unat n"
    using n unfolding filled_def by (simp only:) (rule unat_minus_no_underflow)
  have pos: "unat (rp + n) mod 2 ^ k = (unat rp + unat n) mod 2 ^ k"
    using unat_plus_mod [of k rp n] f(4) by simp
  have "held b (rp + n) wp = drop (unat n) (held b rp wp)"
    unfolding held_def cnt drop_segment [OF n]
    using segment_mod [of b "unat (rp + n)"] segment_mod [of b "unat rp + unat n"] pos f(3) by simp
  then show ?thesis
    using copy_out_segment [OF shape, of n rp] inv n cnt by (simp add: held_def take_segment)
qed

section \<open>Both rings are bounded queues\<close>

text \<open>One step of a write or read, seen as an operation of a queue of bytes.\<close>

definition ring_push :: "ring_buffer \<Rightarrow> u8 list \<Rightarrow> (ring_buffer \<times> bool) res" where
  "ring_push r data =
     rbind (ring_buffer_write r data (of_nat (length data)) 1) (\<lambda>(r, steps). Inr (r, steps = 1))"

definition ring_pop :: "ring_buffer \<Rightarrow> nat \<Rightarrow> (ring_buffer \<times> u8 list option) res" where
  "ring_pop r n =
     rbind (ring_buffer_read r (replicate n 0) (of_nat n) 1) (\<lambda>(r, data, steps).
       Inr (r, if steps = 1 then Some data else None))"

definition ring_ok :: "ring_buffer \<Rightarrow> bool" where
  "ring_ok r \<longleftrightarrow> length (buf r) = 2 ^ 11 \<and> filled (read_pos r) (write_pos r) < 2 ^ 11"

definition ring_contents :: "ring_buffer \<Rightarrow> u8 list" where
  "ring_contents r = held (buf r) (read_pos r) (write_pos r)"

lemma ring_ok_shape: "ring_ok r \<Longrightarrow> ring_shape 11 (buf r) RING_BUFFER_SIZE RING_BUFFER_MASK"
  by (simp add: ring_ok_def ring_shape_def RING_BUFFER_SIZE_def RING_BUFFER_MASK_def)

lemma unat_of_length: "n < 2 ^ 32 \<Longrightarrow> unat (of_nat n :: u32) = n"
  by (simp add: unat_of_nat)

interpretation ring: bounded_queue ring_ok ring_contents "\<lambda>r. 2 ^ 11 - 1" ring_push ring_pop "2 ^ 32"
proof unfold_locales
  fix r and data :: "u8 list" assume ok: "ring_ok r" and len: "length data < 2 ^ 32"
  let ?n = "of_nat (length data) :: u32"
  note shape = ring_ok_shape [OF ok]
  have inv: "filled (read_pos r) (write_pos r) < 2 ^ 11" using ok by (simp add: ring_ok_def)
  have can: "ring_buffer_can_write r ?n \<longleftrightarrow> filled (read_pos r) (write_pos r) + length data < 2 ^ 11"
    using writable [OF shape inv, of ?n] unat_of_length [OF len]
    by (simp add: ring_buffer_can_write_def get_ring_pos_def)
  have one: "unat (1 :: u32) = Suc 0" by simp
  show "if length (ring_contents r) + length data \<le> 2 ^ 11 - 1
      then \<exists>q'. ring_push r data = Inr (q', True) \<and> ring_ok q' \<and> ring_contents q' = ring_contents r @ data \<and>
        2 ^ 11 - 1 = 2 ^ 11 - (1 :: nat)
      else ring_push r data = Inr (r, False)"
  proof (cases "filled (read_pos r) (write_pos r) + length data < 2 ^ 11")
    case True
    obtain b where b: "copy_in (buf r) RING_BUFFER_SIZE RING_BUFFER_MASK (write_pos r) data = Inr b"
      "ring_shape 11 b RING_BUFFER_SIZE RING_BUFFER_MASK"
      "filled (read_pos r) (write_pos r + ?n) = filled (read_pos r) (write_pos r) + length data"
      "held b (read_pos r) (write_pos r + ?n) = held (buf r) (read_pos r) (write_pos r) @ data"
      using write_step [OF shape True unat_of_length [OF len]] by blast
    let ?r = "r\<lparr>buf := b, write_pos := write_pos r + ?n\<rparr>"
    have "ring_push r data = Inr (?r, True)"
      using True can b(1) unat_of_length [OF len]
      by (simp add: ring_push_def ring_buffer_write_def one memcpy_from_def del: unsigned_1)
    moreover have "ring_ok ?r"
      using b(2,3) True by (simp add: ring_ok_def ring_shape_def)
    moreover have "ring_contents ?r = ring_contents r @ data"
      using b(4) by (simp add: ring_contents_def)
    ultimately show ?thesis
      using True by (simp add: ring_contents_def)
  next
    case False
    then have "ring_push r data = Inr (r, False)"
      using can by (simp add: ring_push_def ring_buffer_write_def one del: unsigned_1)
    then show ?thesis
      using False by (simp add: ring_contents_def)
  qed
next
  fix r and n :: nat assume ok: "ring_ok r" and len: "n < 2 ^ 32"
  let ?n = "of_nat n :: u32"
  note shape = ring_ok_shape [OF ok]
  have inv: "filled (read_pos r) (write_pos r) < 2 ^ 11" using ok by (simp add: ring_ok_def)
  have can: "ring_buffer_can_read r ?n \<longleftrightarrow> n \<le> filled (read_pos r) (write_pos r)"
    using readable [OF shape inv, of ?n] unat_of_length [OF len]
    by (simp add: ring_buffer_can_read_def get_ring_pos_def)
  have one: "unat (1 :: u32) = Suc 0" by simp
  show "if n \<le> length (ring_contents r)
      then \<exists>q'. ring_pop r n = Inr (q', Some (take n (ring_contents r))) \<and> ring_ok q' \<and>
        ring_contents q' = drop n (ring_contents r) \<and> 2 ^ 11 - 1 = 2 ^ 11 - (1 :: nat)
      else ring_pop r n = Inr (r, None)"
  proof (cases "n \<le> filled (read_pos r) (write_pos r)")
    case True
    have st: "copy_out (buf r) RING_BUFFER_SIZE RING_BUFFER_MASK (read_pos r) ?n =
          Inr (take n (held (buf r) (read_pos r) (write_pos r)))"
      "filled (read_pos r + ?n) (write_pos r) = filled (read_pos r) (write_pos r) - n"
      "held (buf r) (read_pos r + ?n) (write_pos r) = drop n (held (buf r) (read_pos r) (write_pos r))"
      using read_step [OF shape inv, of ?n] True unat_of_length [OF len] by simp_all
    let ?r = "r\<lparr>read_pos := read_pos r + ?n\<rparr>"
    have "ring_pop r n = Inr (?r, Some (take n (ring_contents r)))"
      using True can st(1)
      by (simp add: ring_pop_def ring_buffer_read_def one memcpy_to_def ring_contents_def del: unsigned_1)
    moreover have "ring_ok ?r" "ring_contents ?r = drop n (ring_contents r)"
      using ok st(2,3) less_imp_diff_less [OF inv, of n] by (simp_all add: ring_ok_def ring_contents_def)
    ultimately show ?thesis
      using True by (simp add: ring_contents_def)
  next
    case False
    then have "ring_pop r n = Inr (r, None)"
      using can by (simp add: ring_pop_def ring_buffer_read_def one del: unsigned_1)
    then show ?thesis
      using False by (simp add: ring_contents_def)
  qed
next
  fix r assume "ring_ok r"
  then show "length (ring_contents r) \<le> 2 ^ 11 - 1" by (simp add: ring_ok_def ring_contents_def)
qed

definition view_push ::
  "ring_buffer \<times> ring_buffer_view \<Rightarrow> u8 list \<Rightarrow> ((ring_buffer \<times> ring_buffer_view) \<times> bool) res" where
  "view_push q data =
     rbind (ring_buffer_view_write (fst q) (snd q) data (of_nat (length data)) 1) (\<lambda>(r, v, steps).
       Inr ((r, v), steps = 1))"

definition view_pop ::
  "ring_buffer \<times> ring_buffer_view \<Rightarrow> nat \<Rightarrow> ((ring_buffer \<times> ring_buffer_view) \<times> u8 list option) res" where
  "view_pop q n =
     rbind (ring_buffer_view_read (fst q) (snd q) (replicate n 0) (of_nat n) 1) (\<lambda>(r, data, steps).
       Inr ((r, snd q), if steps = 1 then Some data else None))"

definition view_shape :: "nat \<Rightarrow> ring_buffer_view \<Rightarrow> bool" where
  "view_shape k v \<longleftrightarrow> ring_shape k (view_buf v) (view_size v) (view_mask v)"

definition view_ok :: "ring_buffer \<times> ring_buffer_view \<Rightarrow> bool" where
  "view_ok q \<longleftrightarrow> (\<exists>k. view_shape k (snd q)) \<and>
     filled (read_pos (fst q)) (write_pos (fst q)) < unat (view_size (snd q))"

definition view_contents :: "ring_buffer \<times> ring_buffer_view \<Rightarrow> u8 list" where
  "view_contents q = held (view_buf (snd q)) (read_pos (fst q)) (write_pos (fst q))"

definition view_cap :: "ring_buffer \<times> ring_buffer_view \<Rightarrow> nat" where
  "view_cap q = unat (view_size (snd q)) - 1"

lemma view_okE:
  assumes "view_ok q"
  obtains k where "ring_shape k (view_buf (snd q)) (view_size (snd q)) (view_mask (snd q))"
    "unat (view_size (snd q)) = 2 ^ k" "filled (read_pos (fst q)) (write_pos (fst q)) < 2 ^ k"
  using assms ring_shape_facts(1) by (auto simp: view_ok_def view_shape_def)

lemma view_push_law:
  assumes ok: "view_ok q" and len: "length data < 2 ^ 32"
  shows "if length (view_contents q) + length data \<le> view_cap q
     then \<exists>q'. view_push q data = Inr (q', True) \<and> view_ok q' \<and> view_contents q' = view_contents q @ data \<and>
       view_cap q' = view_cap q
     else view_push q data = Inr (q, False)"
proof -
  obtain r v where q: "q = (r, v)" by fastforce
  let ?n = "of_nat (length data) :: u32"
  obtain k where shape: "ring_shape k (view_buf v) (view_size v) (view_mask v)"
    and sz: "unat (view_size v) = 2 ^ k" and inv: "filled (read_pos r) (write_pos r) < 2 ^ k"
    using view_okE [OF ok] q by auto
  have can: "ring_buffer_view_can_write r v ?n \<longleftrightarrow> filled (read_pos r) (write_pos r) + length data < 2 ^ k"
    using writable [OF shape inv, of ?n] unat_of_length [OF len]
    by (simp add: ring_buffer_view_can_write_def ring_buffer_view_get_ring_pos_def)
  have one: "unat (1 :: u32) = Suc 0" by simp
  have cap: "length (view_contents q) + length data \<le> view_cap q \<longleftrightarrow>
      filled (read_pos r) (write_pos r) + length data < 2 ^ k"
    using inv by (auto simp: q view_contents_def view_cap_def sz)
  show ?thesis
  proof (cases "filled (read_pos r) (write_pos r) + length data < 2 ^ k")
    case True
    obtain b where b: "copy_in (view_buf v) (view_size v) (view_mask v) (write_pos r) data = Inr b"
      "ring_shape k b (view_size v) (view_mask v)"
      "filled (read_pos r) (write_pos r + ?n) = filled (read_pos r) (write_pos r) + length data"
      "held b (read_pos r) (write_pos r + ?n) = held (view_buf v) (read_pos r) (write_pos r) @ data"
      using write_step [OF shape True unat_of_length [OF len]] by blast
    let ?q = "(r\<lparr>write_pos := write_pos r + ?n\<rparr>, v\<lparr>view_buf := b\<rparr>)"
    have "view_push q data = Inr (?q, True)"
      using True can b(1) unat_of_length [OF len]
      by (simp add: q view_push_def ring_buffer_view_write_def one memcpy_from_def del: unsigned_1)
    moreover have "view_ok ?q"
      using b(2,3) True sz by (auto simp: view_ok_def view_shape_def)
    moreover have "view_contents ?q = view_contents q @ data" "view_cap ?q = view_cap q"
      using b(4) by (simp_all add: q view_contents_def view_cap_def)
    ultimately show ?thesis
      using True cap by auto
  next
    case False
    then have "view_push q data = Inr (q, False)"
      using can by (simp add: q view_push_def ring_buffer_view_write_def one del: unsigned_1)
    then show ?thesis
      using False cap by simp
  qed
qed

lemma view_pop_law:
  assumes ok: "view_ok q" and len: "n < 2 ^ 32"
  shows "if n \<le> length (view_contents q)
     then \<exists>q'. view_pop q n = Inr (q', Some (take n (view_contents q))) \<and> view_ok q' \<and>
       view_contents q' = drop n (view_contents q) \<and> view_cap q' = view_cap q
     else view_pop q n = Inr (q, None)"
proof -
  obtain r v where q: "q = (r, v)" by fastforce
  let ?n = "of_nat n :: u32"
  obtain k where shape: "ring_shape k (view_buf v) (view_size v) (view_mask v)"
    and sz: "unat (view_size v) = 2 ^ k" and inv: "filled (read_pos r) (write_pos r) < 2 ^ k"
    using view_okE [OF ok] q by auto
  have can: "ring_buffer_view_can_read r v ?n \<longleftrightarrow> n \<le> filled (read_pos r) (write_pos r)"
    using readable [OF shape inv, of ?n] unat_of_length [OF len]
    by (simp add: ring_buffer_view_can_read_def ring_buffer_view_get_ring_pos_def)
  have one: "unat (1 :: u32) = Suc 0" by simp
  show ?thesis
  proof (cases "n \<le> filled (read_pos r) (write_pos r)")
    case True
    have st: "copy_out (view_buf v) (view_size v) (view_mask v) (read_pos r) ?n =
          Inr (take n (held (view_buf v) (read_pos r) (write_pos r)))"
      "filled (read_pos r + ?n) (write_pos r) = filled (read_pos r) (write_pos r) - n"
      "held (view_buf v) (read_pos r + ?n) (write_pos r) = drop n (held (view_buf v) (read_pos r) (write_pos r))"
      using read_step [OF shape inv, of ?n] True unat_of_length [OF len] by simp_all
    let ?q = "(r\<lparr>read_pos := read_pos r + ?n\<rparr>, v)"
    have "view_pop q n = Inr (?q, Some (take n (view_contents q)))"
      using True can st(1)
      by (simp add: q view_pop_def ring_buffer_view_read_def one memcpy_to_def view_contents_def del: unsigned_1)
    moreover have "view_ok ?q"
      using shape st(2) less_imp_diff_less [OF inv, of n] sz by (auto simp: view_ok_def view_shape_def)
    moreover have "view_contents ?q = drop n (view_contents q)" "view_cap ?q = view_cap q"
      using st(3) by (simp_all add: q view_contents_def view_cap_def)
    ultimately show ?thesis
      using True by (auto simp: q view_contents_def)
  next
    case False
    then have "view_pop q n = Inr (q, None)"
      using can by (simp add: q view_pop_def ring_buffer_view_read_def one del: unsigned_1)
    then show ?thesis
      using False by (simp add: q view_contents_def)
  qed
qed

interpretation view: bounded_queue view_ok view_contents view_cap view_push view_pop "2 ^ 32"
  by unfold_locales (erule (1) view_push_law, erule (1) view_pop_law,
    auto simp: view_ok_def view_contents_def view_cap_def)

section \<open>Making a view\<close>

lemma unat_power_2: "k < 32 \<Longrightarrow> unat (2 ^ k :: u32) = 2 ^ k"
proof -
  assume "k < 32"
  then have "unat (of_nat (2 ^ k) :: u32) = 2 ^ k"
    using power_strict_increasing [of k 32 "2 :: nat"] by (intro unat_of_length) simp
  then show ?thesis by simp
qed

lemma calc_shift_loop_result:
  assumes "unat sz \<le> 2 ^ 30" "shift + fuel = 31" "0 < fuel" "shift = 0 \<or> 2 ^ (shift - 1) < unat sz"
  shows "\<exists>s. calc_shift_loop fuel sz shift = Inr s \<and> s < 31 \<and> unat sz \<le> 2 ^ s \<and>
     (s = 0 \<or> 2 ^ (s - 1) < unat sz)"
  using assms
proof (induction fuel arbitrary: shift)
  case 0
  then show ?case by simp
next
  case (Suc fuel)
  have pow: "unat (2 ^ shift :: u32) = 2 ^ shift"
    using Suc.prems(2) by (intro unat_power_2) simp
  show ?case
  proof (cases "2 ^ shift < unat sz")
    case True
    have "fuel \<noteq> 0"
    proof
      assume "fuel = 0"
      then have "shift = 30" using Suc.prems(2) by simp
      then show False using True Suc.prems(1) by simp
    qed
    then show ?thesis
      using Suc.IH [of "Suc shift"] Suc.prems True by (simp add: word_less_nat_alt pow)
  next
    case False
    then show ?thesis
      using Suc.prems by (simp add: word_less_nat_alt pow)
  qed
qed

lemma calc_shift_result:
  assumes "0 < sz" "unat sz \<le> 2 ^ 30"
  shows "\<exists>k. ring_buffer_calc_shift sz = Inr (of_nat k) \<and> k < 31 \<and> 2 ^ k \<le> unat sz \<and> unat sz < 2 ^ (k + 1)"
proof -
  obtain s where s: "calc_shift_loop 31 sz 0 = Inr s" "s < 31" "unat sz \<le> 2 ^ s"
    "s = 0 \<or> 2 ^ (s - 1) < unat sz"
    using calc_shift_loop_result [of sz 0 31] assms(2) by auto
  have pow: "unat (2 ^ s :: u32) = 2 ^ s"
    using s(2) by (intro unat_power_2) simp
  have pos: "0 < unat sz" using assms(1) by (simp add: word_less_nat_alt)
  show ?thesis
  proof (cases "unat sz < 2 ^ s")
    case True
    then have "s \<noteq> 0" using pos by (cases s) simp_all
    then obtain k where k: "s = Suc k" by (cases s) simp_all
    then have "(of_nat s - 1 :: u32) = of_nat k" by simp
    then have "ring_buffer_calc_shift sz = Inr (of_nat k)"
      using s(1) True by (simp add: ring_buffer_calc_shift_def word_less_nat_alt pow)
    then show ?thesis
      using k s True by (intro exI [of _ k]) auto
  next
    case False
    then have "unat sz = 2 ^ s" using s(3) by simp
    then have "ring_buffer_calc_shift sz = Inr (of_nat s)"
      using s(1) by (simp add: ring_buffer_calc_shift_def word_less_nat_alt pow)
    then show ?thesis
      using s(2) \<open>unat sz = 2 ^ s\<close> by (intro exI [of _ s]) simp
  qed
qed

lemma view_init_result:
  assumes "0 < sz" "unat sz \<le> 2 ^ 30"
  shows "\<exists>k v. ring_buffer_view_init r b sz = Inr (ring_buffer_init r, v) \<and> k < 31 \<and> 2 ^ k \<le> unat sz \<and>
     unat sz < 2 ^ (k + 1) \<and> view_buf v = b \<and> view_size v = push_bit k 1 \<and> view_mask v = push_bit k 1 - 1"
proof -
  obtain k where k: "ring_buffer_calc_shift sz = Inr (of_nat k)" "k < 31" "2 ^ k \<le> unat sz" "unat sz < 2 ^ (k + 1)"
    using calc_shift_result [OF assms] by blast
  have "unat (of_nat k :: u32) = k" using k(2) by (simp add: unat_of_nat)
  then have "ring_buffer_view_init r b sz = Inr (ring_buffer_init r,
      \<lparr>view_buf = b, view_size = push_bit k 1, view_mask = push_bit k 1 - 1\<rparr>)"
    using k(1,2) by (simp add: ring_buffer_view_init_def)
  then show ?thesis
    using k by (intro exI [of _ k] exI) auto
qed

lemma view_init_power:
  assumes "length b = 2 ^ k" "k < 31"
  shows "\<exists>v. ring_buffer_view_init r b (of_nat (length b)) = Inr (ring_buffer_init r, v) \<and>
     view_shape k v \<and> view_ok (ring_buffer_init r, v) \<and> view_contents (ring_buffer_init r, v) = [] \<and>
     view_cap (ring_buffer_init r, v) = length b - 1"
proof -
  have small: "(2 :: nat) ^ k \<le> 2 ^ 30"
    by (rule power_increasing) (use assms(2) in simp_all)
  have len: "unat (of_nat (length b) :: u32) = 2 ^ k"
    using unat_power_2 assms by simp
  then have "0 < (of_nat (length b) :: u32)"
    by (metis unat_0 unat_eq_zero word_gt_0 power_not_zero zero_neq_numeral)
  then obtain j v where v: "ring_buffer_view_init r b (of_nat (length b)) = Inr (ring_buffer_init r, v)"
    "j < 31" "2 ^ j \<le> (2 :: nat) ^ k" "(2 :: nat) ^ k < 2 ^ (j + 1)"
    "view_buf v = b" "view_size v = push_bit j 1" "view_mask v = push_bit j 1 - 1"
    using view_init_result [of "of_nat (length b)" r b] small unfolding len by blast
  have "j = k"
  proof -
    have "j \<le> k" using v(3) by (simp only: power_increasing_iff)
    moreover have "k < j + 1" using v(4) by (simp only: power_strict_increasing_iff)
    ultimately show ?thesis by simp
  qed
  then have shape: "view_shape k v"
    using v assms by (simp add: view_shape_def ring_shape_def)
  have "unat (view_size v) = 2 ^ k"
    using ring_shape_facts(1) shape by (simp add: view_shape_def)
  moreover have "filled 0 0 = 0" by (simp add: filled_def)
  ultimately show ?thesis
    using v(1) shape assms(1)
    by (intro exI [of _ v]) (auto simp: view_ok_def view_contents_def view_cap_def ring_buffer_init_def held_def segment_def)
qed

text \<open>A ring whose write position has wrapped around.\<close>

definition wrapped_ring :: ring_buffer where
  "wrapped_ring = \<lparr>host_version = 1, guest_version = 1, write_pos = 3, read_pos = - 5, read_live_count = 0,
     read_yield_count = 0, read_sleep_us_count = 0, buf = replicate 2048 7, sync_state = 0\<rparr>"

text \<open>
  Making a view of a buffer of any size from 1 to \<^term>\<open>(2 :: nat) ^ 30\<close> resets the
  positions and uses the largest power of two that fits.
\<close>

theorem view_init_rounds_down:
  assumes "0 < sz" "unat sz \<le> 2 ^ 30"
  shows "\<exists>k v. ring_buffer_view_init r b sz = Inr (ring_buffer_init r, v) \<and> view_buf v = b \<and>
     unat (view_size v) = 2 ^ k \<and> 2 ^ k \<le> unat sz \<and> unat sz < 2 ^ (k + 1) \<and>
     (\<forall>x. unat (ring_buffer_view_get_ring_pos v x) = unat x mod 2 ^ k)"
proof -
  obtain k v where v: "ring_buffer_view_init r b sz = Inr (ring_buffer_init r, v)" "k < 31" "2 ^ k \<le> unat sz"
     "unat sz < 2 ^ (k + 1)" "view_buf v = b" "view_size v = push_bit k 1" "view_mask v = push_bit k 1 - 1"
    using view_init_result [OF assms] by blast
  have "ring_shape k (replicate (2 ^ k) 0) (view_size v) (view_mask v)"
    using v by (simp add: ring_shape_def)
  then show ?thesis
    using v ring_shape_facts by (intro exI [of _ k] exI [of _ v]) (simp add: ring_buffer_view_get_ring_pos_def)
qed

theorem view_init_rounds_down_witness:
  "\<exists>k v. ring_buffer_view_init wrapped_ring (replicate 3000 0) 3000 = Inr (ring_buffer_init wrapped_ring, v) \<and>
     view_buf v = replicate 3000 0 \<and>
     unat (view_size v) = 2 ^ k \<and> 2 ^ k \<le> unat (3000 :: u32) \<and> unat (3000 :: u32) < 2 ^ (k + 1) \<and>
     (\<forall>x. unat (ring_buffer_view_get_ring_pos v x) = unat x mod 2 ^ k)"
  by (rule view_init_rounds_down) simp_all

text \<open>
  Bytes come out of a view in the order they went in: whatever sequence of
  single step writes and reads is made after the view was initialised, nothing
  faults, and what was read, followed by what is still held, is what was accepted.
  Accepted bytes never exceed the capacity, one less than the size.
\<close>

theorem view_is_fifo:
  assumes "length b = 2 ^ k" "k < 31" "\<forall>x \<in> set ops. op_length x < 2 ^ 32"
  shows "\<exists>q q' ins outs. ring_buffer_view_init r b (of_nat (length b)) = Inr q \<and>
     run_queue view_push view_pop q ops = Inr (q', ins, outs) \<and> outs @ view_contents q' = ins \<and>
     length (view_contents q') \<le> length b - 1"
proof -
  obtain v where v: "ring_buffer_view_init r b (of_nat (length b)) = Inr (ring_buffer_init r, v)"
    "view_ok (ring_buffer_init r, v)" "view_contents (ring_buffer_init r, v) = []"
    "view_cap (ring_buffer_init r, v) = length b - 1"
    using view_init_power [OF assms(1,2)] by blast
  obtain q' ins outs where run: "run_queue view_push view_pop (ring_buffer_init r, v) ops = Inr (q', ins, outs)"
    "view_ok q'" "view_cap q' = view_cap (ring_buffer_init r, v)" "outs @ view_contents q' = ins"
    using view.fifo [OF v(2) assms(3)] v(3) by auto
  have "length (view_contents q') \<le> length b - 1"
    using view.bounded [OF run(2)] run(3) v(4) by simp
  then show ?thesis
    using v(1) run(1,4) by blast
qed

theorem view_is_fifo_witness:
  "\<exists>q q' ins outs. ring_buffer_view_init wrapped_ring (replicate 8 0) (of_nat (length (replicate 8 (0 :: u8)))) = Inr q \<and>
     run_queue view_push view_pop q [Push [1, 2, 3, 4, 5], Pop 4, Push [6, 7, 8, 9, 10], Pop 6] = Inr (q', ins, outs) \<and>
     outs @ view_contents q' = ins \<and> length (view_contents q') \<le> length (replicate 8 (0 :: u8)) - 1"
  by (rule view_is_fifo [where k = 3]) simp_all

text \<open>
  C16. Bytes come out of the array inside the structure in the order they went in:
  from any well formed state, the positions having wrapped around at 32 bits or not,
  no sequence of single step writes and reads faults, and what was read, followed by
  what is still held, is what was held and what was accepted.
\<close>

theorem ring_is_fifo:
  assumes "length (buf r) = unat RING_BUFFER_SIZE" "unat (write_pos r - read_pos r) < unat RING_BUFFER_SIZE"
    "\<forall>x \<in> set ops. op_length x < 2 ^ 32"
  shows "\<exists>r' ins outs. run_queue ring_push ring_pop r ops = Inr (r', ins, outs) \<and>
     outs @ ring_contents r' = ring_contents r @ ins \<and> length (ring_contents r') < unat RING_BUFFER_SIZE"
proof -
  have size: "unat RING_BUFFER_SIZE = 2 ^ 11" by (simp add: RING_BUFFER_SIZE_def)
  have "ring_ok r"
    using assms(1,2) unfolding size by (simp add: ring_ok_def filled_def)
  then obtain r' ins outs where run: "run_queue ring_push ring_pop r ops = Inr (r', ins, outs)" "ring_ok r'"
    "outs @ ring_contents r' = ring_contents r @ ins"
    using ring.fifo assms(3) by blast
  have "length (ring_contents r') < 2 ^ 11"
    using run(2) by (simp add: ring_ok_def ring_contents_def)
  then show ?thesis
    using run(1,3) size by auto
qed

theorem ring_is_fifo_witness:
  "\<exists>r' ins outs. run_queue ring_push ring_pop wrapped_ring [Push [1, 2, 3], Pop 10, Pop 9] = Inr (r', ins, outs) \<and>
     outs @ ring_contents r' = ring_contents wrapped_ring @ ins \<and>
     length (ring_contents r') < unat RING_BUFFER_SIZE"
  by (rule ring_is_fifo) (simp_all add: wrapped_ring_def RING_BUFFER_SIZE_def)

section \<open>Several steps at once\<close>

definition steps_fitting :: "nat \<Rightarrow> nat \<Rightarrow> nat \<Rightarrow> nat" where
  "steps_fitting free step_size steps = (if step_size = 0 then steps else min steps (free div step_size))"

lemma steps_fitting_Suc:
  assumes "s \<le> free"
  shows "steps_fitting free s (Suc n) = Suc (steps_fitting (free - s) s n)"
  using assms by (simp add: steps_fitting_def le_div_geq)

lemma steps_fitting_none: "free < s \<Longrightarrow> steps_fitting free s n = 0"
  by (simp add: steps_fitting_def)

lemma unat_mult_index:
  fixes i s :: u32
  assumes "(unat i + Suc n) * unat s \<le> length data" "length data < 2 ^ 32"
  shows "unat (i * s) = unat i * unat s"
proof -
  have "unat i * unat s \<le> (unat i + Suc n) * unat s" by (rule mult_right_mono) simp_all
  then show ?thesis
    using assms by (intro unat_mult_no_overflow) simp
qed

lemma view_write_loop_result:
  assumes "ring_shape k (view_buf v) (view_size v) (view_mask v)" "filled (read_pos r) (write_pos r) < 2 ^ k"
    "(unat i + n) * unat s \<le> length data" "length data < 2 ^ 32" "unat i + n < 2 ^ 32"
  shows "\<exists>r' v' c. view_write_loop r v data s i n = Inr (r', v', i + of_nat c) \<and>
     c = steps_fitting (2 ^ k - 1 - filled (read_pos r) (write_pos r)) (unat s) n \<and>
     ring_shape k (view_buf v') (view_size v') (view_mask v') \<and> view_size v' = view_size v \<and>
     view_contents (r', v') = view_contents (r, v) @ take (c * unat s) (drop (unat i * unat s) data)"
  using assms
proof (induction n arbitrary: r v i)
  case 0
  then show ?case by (auto simp: steps_fitting_def)
next
  case (Suc n)
  let ?f = "filled (read_pos r) (write_pos r)"
  have can: "ring_buffer_view_can_write r v s \<longleftrightarrow> ?f + unat s < 2 ^ k"
    using writable [OF Suc.prems(1,2)]
    by (simp add: ring_buffer_view_can_write_def ring_buffer_view_get_ring_pos_def)
  show ?case
  proof (cases "?f + unat s < 2 ^ k")
    case False
    then have "steps_fitting (2 ^ k - 1 - ?f) (unat s) (Suc n) = 0"
      using Suc.prems(2) by (intro steps_fitting_none) linarith
    then show ?thesis
      using False can Suc.prems(1) by (auto intro!: exI [of _ r] exI [of _ v])
  next
    case True
    let ?chunk = "take (unat s) (drop (unat i * unat s) data)"
    have idx: "unat (i * s) = unat i * unat s"
      using unat_mult_index [OF Suc.prems(3,4)] .
    have split: "unat i * unat s + unat s + n * unat s \<le> length data"
      using Suc.prems(3) by (simp add: algebra_simps)
    then have len: "length ?chunk = unat s" by simp
    have "unat (i + 1) = unat i + 1"
      using Suc.prems(5) by (subst unat_plus_no_overflow) simp_all
    note i1 = this
    obtain b where b: "copy_in (view_buf v) (view_size v) (view_mask v) (write_pos r) ?chunk = Inr b"
      "ring_shape k b (view_size v) (view_mask v)" "filled (read_pos r) (write_pos r + s) = ?f + unat s"
      "held b (read_pos r) (write_pos r + s) = held (view_buf v) (read_pos r) (write_pos r) @ ?chunk"
      using write_step [OF Suc.prems(1), of "read_pos r" "write_pos r" ?chunk s] True len by auto
    let ?r = "r\<lparr>write_pos := write_pos r + s\<rparr>" and ?v = "v\<lparr>view_buf := b\<rparr>"
    obtain r' v' c where IH: "view_write_loop ?r ?v data s (i + 1) n = Inr (r', v', i + 1 + of_nat c)"
      "c = steps_fitting (2 ^ k - 1 - (?f + unat s)) (unat s) n"
      "ring_shape k (view_buf v') (view_size v') (view_mask v')" "view_size v' = view_size v"
      "view_contents (r', v') = view_contents (?r, ?v) @ take (c * unat s) (drop (unat (i + 1) * unat s) data)"
      using Suc.IH [of ?v ?r "i + 1"] Suc.prems(3-5) True b(2,3) i1 by (auto simp: algebra_simps)
    have "memcpy_from data (unat (i * s)) (unat s) = Inr ?chunk"
      using split by (simp add: memcpy_from_def idx)
    then have "view_write_loop r v data s i (Suc n) = Inr (r', v', i + of_nat (Suc c))"
      using True can b(1) IH(1) by (simp add: add.assoc)
    moreover have "Suc c = steps_fitting (2 ^ k - 1 - ?f) (unat s) (Suc n)"
      using True IH(2) by (subst steps_fitting_Suc) (simp_all add: diff_diff_eq add.commute)
    moreover have "view_contents (r', v') = view_contents (r, v) @ take (Suc c * unat s) (drop (unat i * unat s) data)"
      using IH(5) b(4) i1 by (simp add: view_contents_def take_add add.commute)
    ultimately show ?thesis
      using IH(3,4) by blast
  qed
qed

text \<open>
  C17. A write of several steps accepts exactly as many whole steps as fit in the
  free space, returns their number, and appends their bytes, in order, to what the
  view holds.
\<close>

theorem view_write_accepts_what_fits:
  assumes "view_shape k v" "unat (write_pos r - read_pos r) < 2 ^ k"
    "unat steps * unat step_size \<le> length data" "length data < 2 ^ 32"
  shows "\<exists>r' v' c. ring_buffer_view_write r v data step_size steps = Inr (r', v', of_nat c) \<and>
     c = (if step_size = 0 then unat steps
          else min (unat steps) ((2 ^ k - 1 - unat (write_pos r - read_pos r)) div unat step_size)) \<and>
     view_contents (r', v') = view_contents (r, v) @ take (c * unat step_size) data"
proof -
  have "unat steps < 2 ^ LENGTH(32)" by (rule unsigned_less)
  then have "unat steps < 2 ^ 32" by simp
  then show ?thesis
    using view_write_loop_result [of k v r 0 "unat steps" step_size data] assms
    by (auto simp: view_shape_def filled_def ring_buffer_view_write_def steps_fitting_def unat_eq_zero)
qed

definition small_view :: ring_buffer_view where
  "small_view = \<lparr>view_buf = replicate 16 0, view_size = 16, view_mask = 15\<rparr>"

theorem view_write_accepts_what_fits_witness:
  "\<exists>r' v' c. ring_buffer_view_write wrapped_ring small_view (replicate 12 9) 3 4 = Inr (r', v', of_nat c) \<and>
     c = (if (3 :: u32) = 0 then unat (4 :: u32)
          else min (unat (4 :: u32)) ((2 ^ 4 - 1 - unat (write_pos wrapped_ring - read_pos wrapped_ring)) div unat (3 :: u32))) \<and>
     view_contents (r', v') = view_contents (wrapped_ring, small_view) @ take (c * unat (3 :: u32)) (replicate 12 9)"
  by (rule view_write_accepts_what_fits)
    (simp_all add: view_shape_def ring_shape_def small_view_def wrapped_ring_def)

section \<open>Peeking\<close>

text \<open>
  Copying the contents of a view without consuming them gives the oldest bytes it
  holds, or fails when it holds fewer.
\<close>

theorem view_copy_contents:
  assumes "view_shape k v" "unat (write_pos r - read_pos r) < 2 ^ k"
  shows "ring_buffer_copy_contents r (Some v) wanted =
     Inr (if unat wanted \<le> length (view_contents (r, v)) then Some (take (unat wanted) (view_contents (r, v)))
          else None)"
proof -
  have sh: "ring_shape k (view_buf v) (view_size v) (view_mask v)" "filled (read_pos r) (write_pos r) < 2 ^ k"
    using assms by (simp_all add: view_shape_def filled_def)
  have "wanted \<le> ring_buffer_available_read r (Some v) \<longleftrightarrow> unat wanted \<le> filled (read_pos r) (write_pos r)"
    using readable [OF sh] by (simp add: ring_buffer_available_read_def ring_buffer_view_get_ring_pos_def)
  then show ?thesis
    using read_step [OF sh, of wanted]
    by (auto simp: ring_buffer_copy_contents_def view_contents_def linorder_not_less [symmetric])
qed

theorem view_copy_contents_witness:
  "ring_buffer_copy_contents wrapped_ring (Some small_view) 8 =
     Inr (if unat (8 :: u32) \<le> length (view_contents (wrapped_ring, small_view))
          then Some (take (unat (8 :: u32)) (view_contents (wrapped_ring, small_view))) else None)"
  by (rule view_copy_contents [where k = 4])
    (simp_all add: view_shape_def ring_shape_def small_view_def wrapped_ring_def)

text \<open>
  C19. Without a view the space up to the end of the array is computed from the
  write position. When the wanted bytes wrap around, are held, and fit between the
  write position and the end, the copy runs past the end of the array.
\<close>

theorem ring_copy_contents_overruns:
  assumes "ring_ok r" "unat wanted \<le> length (ring_contents r)"
    "unat (get_ring_pos (read_pos r)) + unat wanted > unat RING_BUFFER_SIZE"
    "unat (get_ring_pos (write_pos r)) + unat wanted \<le> unat RING_BUFFER_SIZE"
  shows "ring_buffer_copy_contents r None wanted = Inl OutOfBounds"
proof -
  note f = ring_shape_facts [OF ring_ok_shape [OF assms(1)]]
  have len: "length (buf r) = unat RING_BUFFER_SIZE" using f(1,3) by simp
  have "filled (read_pos r) (write_pos r) < 2 ^ 11" using assms(1) by (simp add: ring_ok_def)
  then have "wanted \<le> ring_buffer_available_read r None"
    using assms(2) readable [OF ring_ok_shape [OF assms(1)], of "read_pos r" "write_pos r" wanted]
    by (simp add: ring_buffer_available_read_def get_ring_pos_def ring_contents_def)
  moreover have "unat (RING_BUFFER_SIZE - get_ring_pos (write_pos r)) =
      unat RING_BUFFER_SIZE - unat (get_ring_pos (write_pos r))"
    using assms(4) by (intro unat_minus_no_underflow) simp
  then have "wanted \<le> RING_BUFFER_SIZE - get_ring_pos (write_pos r)"
    using assms(4) by (simp add: word_le_nat_alt)
  ultimately show ?thesis
    using assms(3) by (simp add: ring_buffer_copy_contents_def memcpy_from_def len not_le [symmetric])
qed

theorem ring_copy_contents_overruns_witness:
  "unat (8 :: u32) \<le> length (ring_contents (wrapped_ring\<lparr>write_pos := 10\<rparr>)) \<and>
   ring_buffer_copy_contents (wrapped_ring\<lparr>write_pos := 10\<rparr>) None 8 = Inl OutOfBounds"
proof -
  let ?r = "wrapped_ring\<lparr>write_pos := 10\<rparr>"
  have held: "unat (8 :: u32) \<le> length (ring_contents ?r)" "ring_ok ?r"
    by (simp_all add: ring_ok_def ring_contents_def filled_def wrapped_ring_def)
  have "ring_buffer_copy_contents ?r None 8 = Inl OutOfBounds"
    by (rule ring_copy_contents_overruns)
      (use held in \<open>simp_all add: get_ring_pos_def RING_BUFFER_MASK_def RING_BUFFER_SIZE_def wrapped_ring_def\<close>)
  with held show ?thesis by simp
qed

section \<open>Producer and consumer at the same time\<close>

text \<open>
  The two sides run concurrently and share the positions and the array. A step of a
  write is three actions, the test of the free space, the copy and the publication of
  the new position, and so is a step of a read; the actions of the two sides
  interleave. \<open>sent\<close> and \<open>received\<close> record what was published and what was taken.
\<close>

datatype producer_pc = PIdle | PChecked "u8 list" | PCopied "u8 list"

datatype consumer_pc = CIdle | CChecked u32 | CCopied "u8 list"

record spsc =
  ring :: ring_buffer
  view :: ring_buffer_view
  ppc :: producer_pc
  cpc :: consumer_pc
  sent :: "u8 list"
  received :: "u8 list"

inductive spsc_step :: "spsc \<Rightarrow> spsc \<Rightarrow> bool" where
  p_check:
    "\<lbrakk>ppc s = PIdle; length data < 2 ^ 32;
      ring_buffer_view_can_write (ring s) (view s) (of_nat (length data))\<rbrakk> \<Longrightarrow>
     spsc_step s (s\<lparr>ppc := PChecked data\<rparr>)"
| p_copy:
    "\<lbrakk>ppc s = PChecked data;
      copy_in (view_buf (view s)) (view_size (view s)) (view_mask (view s)) (write_pos (ring s)) data = Inr b\<rbrakk> \<Longrightarrow>
     spsc_step s (s\<lparr>view := (view s)\<lparr>view_buf := b\<rparr>, ppc := PCopied data\<rparr>)"
| p_publish:
    "ppc s = PCopied data \<Longrightarrow>
     spsc_step s (s\<lparr>ring := (ring s)\<lparr>write_pos := write_pos (ring s) + of_nat (length data)\<rparr>,
       ppc := PIdle, sent := sent s @ data\<rparr>)"
| c_check:
    "\<lbrakk>cpc s = CIdle; ring_buffer_view_can_read (ring s) (view s) n\<rbrakk> \<Longrightarrow>
     spsc_step s (s\<lparr>cpc := CChecked n\<rparr>)"
| c_copy:
    "\<lbrakk>cpc s = CChecked n;
      copy_out (view_buf (view s)) (view_size (view s)) (view_mask (view s)) (read_pos (ring s)) n = Inr chunk\<rbrakk> \<Longrightarrow>
     spsc_step s (s\<lparr>cpc := CCopied chunk\<rparr>)"
| c_publish:
    "cpc s = CCopied chunk \<Longrightarrow>
     spsc_step s (s\<lparr>ring := (ring s)\<lparr>read_pos := read_pos (ring s) + of_nat (length chunk)\<rparr>,
       cpc := CIdle, received := received s @ chunk\<rparr>)"

inductive spsc_reach :: "ring_buffer \<Rightarrow> ring_buffer_view \<Rightarrow> spsc \<Rightarrow> bool" for r v where
  start: "spsc_reach r v \<lparr>ring = ring_buffer_init r, view = v, ppc = PIdle, cpc = CIdle, sent = [], received = []\<rparr>"
| step: "spsc_reach r v s \<Longrightarrow> spsc_step s s' \<Longrightarrow> spsc_reach r v s'"

text \<open>What each side may rely on between its actions.\<close>

definition producer_inv :: "nat \<Rightarrow> spsc \<Rightarrow> bool" where
  "producer_inv k s =
    (let f = filled (read_pos (ring s)) (write_pos (ring s)) in
     case ppc s of
       PIdle \<Rightarrow> True
     | PChecked data \<Rightarrow> f + length data < 2 ^ k
     | PCopied data \<Rightarrow> f + length data < 2 ^ k \<and>
         segment (view_buf (view s)) (unat (write_pos (ring s))) (length data) = data)"

definition consumer_inv :: "spsc \<Rightarrow> bool" where
  "consumer_inv s =
    (case cpc s of
       CIdle \<Rightarrow> True
     | CChecked n \<Rightarrow> unat n \<le> filled (read_pos (ring s)) (write_pos (ring s))
     | CCopied chunk \<Rightarrow> length chunk \<le> filled (read_pos (ring s)) (write_pos (ring s)) \<and>
         chunk = take (length chunk) (view_contents (ring s, view s)))"

definition spsc_inv :: "nat \<Rightarrow> spsc \<Rightarrow> bool" where
  "spsc_inv k s \<longleftrightarrow> view_shape k (view s) \<and> filled (read_pos (ring s)) (write_pos (ring s)) < 2 ^ k \<and>
     sent s = received s @ view_contents (ring s, view s) \<and> producer_inv k s \<and> consumer_inv s"

lemma publish_split:
  assumes shape: "ring_shape k b sz msk" and room: "filled rp wp + len < 2 ^ k"
  shows "filled rp (wp + of_nat len) = filled rp wp + len"
    "held b rp (wp + of_nat len) = held b rp wp @ segment b (unat wp) len"
proof -
  note f = ring_shape_facts [OF shape]
  have n: "unat (of_nat len :: u32) = len"
    using room f(5) by (intro unat_of_length) simp
  have "wp + of_nat len - rp = (wp - rp) + of_nat len" by simp
  then show cnt: "filled rp (wp + of_nat len) = filled rp wp + len"
    unfolding filled_def using room n f(5)
    by (simp only:) (subst unat_plus_no_overflow, simp_all add: filled_def)
  have "unat wp mod 2 ^ k = (unat rp + filled rp wp) mod 2 ^ k"
    using unat_plus_mod [of k rp "wp - rp"] f(4) by (simp add: filled_def)
  then have "segment b (unat rp + filled rp wp) len = segment b (unat wp) len"
    using segment_mod [of b "unat wp" len] segment_mod [of b "unat rp + filled rp wp" len] f(3) by simp
  then show "held b rp (wp + of_nat len) = held b rp wp @ segment b (unat wp) len"
    unfolding held_def cnt by (simp add: segment_append)
qed

lemma copy_in_keeps:
  assumes shape: "ring_shape k b sz msk" and room: "filled rp wp + length data < 2 ^ k"
    and copy: "copy_in b sz msk wp data = Inr b'"
  shows "ring_shape k b' sz msk" "held b' rp wp = held b rp wp" "segment b' (unat wp) (length data) = data"
proof -
  have n: "unat (of_nat (length data) :: u32) = length data"
    using room ring_shape_facts(5) [OF shape] by (intro unat_of_length) simp
  have w: "ring_shape k b' sz msk" "held b' rp (wp + of_nat (length data)) = held b rp wp @ data"
    using write_step [OF shape room n] copy by auto
  then show "ring_shape k b' sz msk" by simp
  have "held b' rp wp @ segment b' (unat wp) (length data) = held b rp wp @ data"
    using publish_split(2) [OF w(1) room] w(2) by simp
  then show "held b' rp wp = held b rp wp" "segment b' (unat wp) (length data) = data"
    by (auto simp: append_eq_append_conv)
qed

lemma spsc_inv_shape:
  "spsc_inv k s \<Longrightarrow> ring_shape k (view_buf (view s)) (view_size (view s)) (view_mask (view s))"
  by (simp add: spsc_inv_def view_shape_def)

lemmas spsc_inv_defs = spsc_inv_def producer_inv_def consumer_inv_def view_contents_def view_shape_def Let_def

lemma spsc_step_inv:
  assumes "spsc_step s s'" "spsc_inv k s"
  shows "spsc_inv k s'"
  using assms
proof cases
  case (p_check data)
  have "filled (read_pos (ring s)) (write_pos (ring s)) < 2 ^ k" using assms(2) by (simp add: spsc_inv_def)
  from writable [OF spsc_inv_shape [OF assms(2)] this, of "of_nat (length data)"] p_check
  have "filled (read_pos (ring s)) (write_pos (ring s)) + length data < 2 ^ k"
    by (simp add: ring_buffer_view_can_write_def ring_buffer_view_get_ring_pos_def unat_of_length)
  then show ?thesis
    using assms(2) p_check by (simp add: spsc_inv_defs cong: consumer_pc.case_cong)
next
  case (p_copy data b)
  have room: "filled (read_pos (ring s)) (write_pos (ring s)) + length data < 2 ^ k"
    using assms(2) p_copy by (simp add: spsc_inv_defs)
  show ?thesis
    using assms(2) p_copy(1) room copy_in_keeps [OF spsc_inv_shape [OF assms(2)] room p_copy(3)]
    by (simp add: spsc_inv_defs cong: consumer_pc.case_cong)
next
  case (p_publish data)
  have c: "filled (read_pos (ring s)) (write_pos (ring s)) + length data < 2 ^ k"
    "segment (view_buf (view s)) (unat (write_pos (ring s))) (length data) = data"
    using assms(2) p_publish by (simp_all add: spsc_inv_defs)
  show ?thesis
    using assms(2) p_publish(1) c publish_split [OF spsc_inv_shape [OF assms(2)] c(1)]
    by (auto simp: spsc_inv_defs split: consumer_pc.splits)
next
  case (c_check n)
  have "filled (read_pos (ring s)) (write_pos (ring s)) < 2 ^ k" using assms(2) by (simp add: spsc_inv_def)
  from readable [OF spsc_inv_shape [OF assms(2)] this, of n] c_check
  have "unat n \<le> filled (read_pos (ring s)) (write_pos (ring s))"
    by (simp add: ring_buffer_view_can_read_def ring_buffer_view_get_ring_pos_def)
  then show ?thesis
    using assms(2) c_check by (simp add: spsc_inv_defs cong: producer_pc.case_cong)
next
  case (c_copy n chunk)
  have n: "filled (read_pos (ring s)) (write_pos (ring s)) < 2 ^ k"
    "unat n \<le> filled (read_pos (ring s)) (write_pos (ring s))"
    using assms(2) c_copy by (simp_all add: spsc_inv_defs)
  have "chunk = take (unat n) (held (view_buf (view s)) (read_pos (ring s)) (write_pos (ring s)))"
    using read_step [OF spsc_inv_shape [OF assms(2)] n] c_copy(3) by simp
  then show ?thesis
    using assms(2) c_copy(1) n by (simp add: spsc_inv_defs min.absorb2 cong: producer_pc.case_cong)
next
  case (c_publish chunk)
  let ?c = "of_nat (length chunk) :: u32"
  have c: "filled (read_pos (ring s)) (write_pos (ring s)) < 2 ^ k"
    "length chunk \<le> filled (read_pos (ring s)) (write_pos (ring s))"
    "chunk = take (length chunk) (held (view_buf (view s)) (read_pos (ring s)) (write_pos (ring s)))"
    using assms(2) c_publish by (simp_all add: spsc_inv_defs)
  have n: "unat ?c = length chunk"
    using c(1,2) ring_shape_facts(5) [OF spsc_inv_shape [OF assms(2)]] by (intro unat_of_length) simp
  have rd: "filled (read_pos (ring s) + ?c) (write_pos (ring s)) =
      filled (read_pos (ring s)) (write_pos (ring s)) - length chunk"
    "held (view_buf (view s)) (read_pos (ring s) + ?c) (write_pos (ring s)) =
      drop (length chunk) (held (view_buf (view s)) (read_pos (ring s)) (write_pos (ring s)))"
    using read_step [OF spsc_inv_shape [OF assms(2)] c(1), of ?c] c(2) n by simp_all
  have "chunk @ drop (length chunk) (held (view_buf (view s)) (read_pos (ring s)) (write_pos (ring s))) =
      held (view_buf (view s)) (read_pos (ring s)) (write_pos (ring s))"
    using c(3) by (metis append_take_drop_id)
  then show ?thesis
    using assms(2) c_publish(1) rd c(1,2) by (auto simp: spsc_inv_defs split: producer_pc.splits)
qed

lemma spsc_reach_inv:
  assumes "spsc_reach r v s" "view_shape k v"
  shows "spsc_inv k s"
  using assms
proof induction
  case start
  then show ?case
    by (simp add: spsc_inv_defs ring_buffer_init_def filled_def held_def segment_def)
qed (blast intro: spsc_step_inv)

text \<open>
  C15. However the actions of the two sides interleave, what the consumer has
  taken and what it may still take are exactly what the producer published, in order,
  and neither copy, whenever a side reaches it, leaves the array.
\<close>

theorem concurrent_ring_is_fifo:
  assumes "view_shape k v" "spsc_reach r v s"
  shows "received s @ view_contents (ring s, view s) = sent s \<and>
    (\<forall>data. ppc s = PChecked data \<longrightarrow>
       returns (copy_in (view_buf (view s)) (view_size (view s)) (view_mask (view s)) (write_pos (ring s)) data)) \<and>
    (\<forall>n. cpc s = CChecked n \<longrightarrow>
       copy_out (view_buf (view s)) (view_size (view s)) (view_mask (view s)) (read_pos (ring s)) n =
       Inr (take (unat n) (view_contents (ring s, view s))))"
proof -
  have inv: "spsc_inv k s" using spsc_reach_inv assms by blast
  note shape = spsc_inv_shape [OF inv]
  show ?thesis
    using inv copy_in_put_at [OF shape] read_step [OF shape]
    by (auto simp: spsc_inv_defs returns_iff split: producer_pc.splits consumer_pc.splits)
qed

definition spsc_demo :: spsc where
  "spsc_demo = \<lparr>ring = ring_buffer_init wrapped_ring, view = small_view, ppc = PChecked [1, 2, 3], cpc = CIdle,
     sent = [], received = []\<rparr>"

lemma spsc_demo_reach: "spsc_reach wrapped_ring small_view spsc_demo"
proof -
  let ?s = "\<lparr>ring = ring_buffer_init wrapped_ring, view = small_view, ppc = PIdle, cpc = CIdle, sent = [], received = []\<rparr>"
  have "spsc_step ?s (?s\<lparr>ppc := PChecked [1, 2, 3]\<rparr>)"
    by (rule spsc_step.p_check)
      (simp_all add: ring_buffer_view_can_write_def ring_buffer_view_get_ring_pos_def ring_buffer_init_def
        wrapped_ring_def small_view_def)
  then show ?thesis
    using spsc_reach.step [OF spsc_reach.start] by (simp add: spsc_demo_def)
qed

theorem concurrent_ring_is_fifo_witness:
  "returns (copy_in (view_buf small_view) (view_size small_view) (view_mask small_view) (write_pos (ring spsc_demo)) [1, 2, 3])"
proof -
  have "view_shape 4 small_view" by (simp add: view_shape_def ring_shape_def small_view_def)
  from concurrent_ring_is_fifo [OF this spsc_demo_reach] show ?thesis
    by (simp add: spsc_demo_def)
qed

section \<open>Hand-over as a lock\<close>

text \<open>
  The callers' protocol: a producer that acquired the channel, from idle or from a
  hang-up, ends with \<^const>\<open>ring_buffer_producer_idle\<close>; a consumer that began to hang
  up ends with \<^const>\<open>ring_buffer_consumer_hung_up\<close>. The counters are the number of
  each inside its section.
\<close>

inductive handover_step :: "ring_buffer \<times> nat \<times> nat \<Rightarrow> ring_buffer \<times> nat \<times> nat \<Rightarrow> bool" where
  acquire: "ring_buffer_producer_acquire r = (r', ok) \<Longrightarrow>
    handover_step (r, p, c) (r', if ok then Suc p else p, c)"
| acquire_from_hangup: "ring_buffer_producer_acquire_from_hangup r = (r', ok) \<Longrightarrow>
    handover_step (r, p, c) (r', if ok then Suc p else p, c)"
| idle: "handover_step (r, Suc p, c) (ring_buffer_producer_idle r, p, c)"
| hangup: "ring_buffer_consumer_hangup r = (r', ok) \<Longrightarrow>
    handover_step (r, p, c) (r', p, if ok then Suc c else c)"
| hung_up: "handover_step (r, p, Suc c) (ring_buffer_consumer_hung_up r, p, c)"

inductive handover_reach :: "ring_buffer \<Rightarrow> ring_buffer \<times> nat \<times> nat \<Rightarrow> bool" for r where
  start: "handover_reach r (ring_buffer_sync_init r, 0, 0)"
| step: "handover_reach r s \<Longrightarrow> handover_step s s' \<Longrightarrow> handover_reach r s'"

lemmas sync_defs = SYNC_PRODUCER_IDLE_def SYNC_PRODUCER_ACTIVE_def SYNC_CONSUMER_HANGING_UP_def
  SYNC_CONSUMER_HUNG_UP_def compare_exchange_def ring_buffer_producer_acquire_def
  ring_buffer_producer_acquire_from_hangup_def ring_buffer_producer_idle_def ring_buffer_consumer_hangup_def
  ring_buffer_consumer_hung_up_def ring_buffer_sync_init_def

definition handover_inv :: "ring_buffer \<times> nat \<times> nat \<Rightarrow> bool" where
  "handover_inv s = (case s of (r, p, c) \<Rightarrow>
     p = (if sync_state r = SYNC_PRODUCER_ACTIVE then 1 else 0) \<and>
     c = (if sync_state r = SYNC_CONSUMER_HANGING_UP then 1 else 0))"

lemma handover_step_inv: "handover_step s s' \<Longrightarrow> handover_inv s \<Longrightarrow> handover_inv s'"
  by (induction rule: handover_step.induct) (auto simp: handover_inv_def sync_defs split: if_splits)

lemma handover_reach_inv: "handover_reach r s \<Longrightarrow> handover_inv s"
proof (induction rule: handover_reach.induct)
  case start
  then show ?case by (simp add: handover_inv_def sync_defs)
qed (blast intro: handover_step_inv)

text \<open>
  Sending and hanging up exclude each other: between a successful acquisition and the
  return to idle no consumer hangs up, and while one hangs up no producer acquires.
  Consuming is not covered by the word: a consumer may read in any state.
\<close>

theorem handover_excludes:
  assumes "handover_reach r (r', p, c)"
  shows "p + c \<le> 1 \<and> (p = 1 \<longleftrightarrow> sync_state r' = SYNC_PRODUCER_ACTIVE) \<and>
     (c = 1 \<longleftrightarrow> sync_state r' = SYNC_CONSUMER_HANGING_UP)"
  using handover_reach_inv [OF assms] by (auto simp: handover_inv_def sync_defs)

end
