(* ===== verification/Qemu_File.thy ===== *)
theory Qemu_File
  imports Streams
begin

text \<open>
  The buffered migration stream of \<^verbatim>\<open>migration/qemu-file.c\<close>, through which every device
  saves and loads its snapshot. Writing collects segments of the internal buffer and
  of foreign memory in an I/O vector that is handed to the backend when the buffer or
  the vector is full; reading refills the buffer from the backend, which may give fewer
  bytes than it was asked for. The backend is a table of operations; what the stream
  relies on are the locales \<open>file_sink\<close> and \<open>file_source\<close>.
\<close>

section \<open>State\<close>

text \<open>A pointer into the internal buffer or to foreign memory.\<close>

datatype host_ptr = BufPtr nat | MemPtr nat

record iovec =
  iov_base :: host_ptr
  iov_len :: nat

text \<open>
  The operations of a backend: \<^verbatim>\<open>writev_buffer\<close> returns the number of bytes taken or a
  negative error, \<^verbatim>\<open>get_buffer\<close> the bytes it stored (none at the end) or \<open>Inl e\<close> for
  the negative result \<open>-e\<close>.
\<close>

record 's QEMUFileOps =
  writev_buffer :: "('s \<Rightarrow> u8 list list \<Rightarrow> int \<Rightarrow> (int \<times> 's) res) option"
  get_buffer :: "('s \<Rightarrow> int \<Rightarrow> nat \<Rightarrow> ((nat + u8 list) \<times> 's) res) option"
  close_op :: "('s \<Rightarrow> int \<times> 's) option"

text \<open>
  \<open>host_mem\<close> is the memory of the process that foreign segments point to, \<open>advised\<close>
  records the ranges given back to the system.
\<close>

record 's QEMUFile =
  ops :: "'s QEMUFileOps"
  opaque :: 's
  bytes_xfer :: int
  xfer_limit :: int
  pos :: int
  buf_index :: nat
  buf_size :: nat
  io_buf :: "nat \<Rightarrow> u8"
  may_free :: "bool list"
  iov :: "iovec list"
  last_error :: int
  host_mem :: "nat \<Rightarrow> u8"
  advised :: "iovec list"

definition IO_BUF_SIZE :: nat where
  "IO_BUF_SIZE = 1024 * 1024"

definition MAX_IOV_SIZE :: nat where
  "MAX_IOV_SIZE = 64"

definition qemu_fopen_ops :: "'s \<Rightarrow> 's QEMUFileOps \<Rightarrow> (nat \<Rightarrow> u8) \<Rightarrow> 's QEMUFile" where
  "qemu_fopen_ops opq tab mem =
     \<lparr>ops = tab, opaque = opq, bytes_xfer = 0, xfer_limit = 0, pos = 0, buf_index = 0, buf_size = 0,
      io_buf = (\<lambda>i. 0), may_free = replicate MAX_IOV_SIZE False, iov = [], last_error = 0,
      host_mem = mem, advised = []\<rparr>"

definition qemu_file_get_error :: "'s QEMUFile \<Rightarrow> int" where
  "qemu_file_get_error f = last_error f"

definition qemu_file_set_error :: "'s QEMUFile \<Rightarrow> int \<Rightarrow> 's QEMUFile" where
  "qemu_file_set_error f ret = (if last_error f = 0 then f\<lparr>last_error := ret\<rparr> else f)"

definition qemu_file_is_writable :: "'s QEMUFile \<Rightarrow> bool" where
  "qemu_file_is_writable f \<longleftrightarrow> writev_buffer (ops f) \<noteq> None"

section \<open>Writing\<close>

fun ptr_add :: "host_ptr \<Rightarrow> nat \<Rightarrow> host_ptr" where
  "ptr_add (BufPtr a) n = BufPtr (a + n)"
| "ptr_add (MemPtr a) n = MemPtr (a + n)"

fun ptr_data :: "'s QEMUFile \<Rightarrow> host_ptr \<Rightarrow> nat \<Rightarrow> u8 list" where
  "ptr_data f (BufPtr a) n = map (io_buf f) [a..<a + n]"
| "ptr_data f (MemPtr a) n = map (host_mem f) [a..<a + n]"

definition iov_data :: "'s QEMUFile \<Rightarrow> iovec \<Rightarrow> u8 list" where
  "iov_data f e = ptr_data f (iov_base e) (iov_len e)"

definition iov_size :: "iovec list \<Rightarrow> nat" where
  "iov_size es = sum_list (map iov_len es)"

text \<open>Adjacent ranges marked as free are given back in one call.\<close>

fun coalesce :: "iovec \<Rightarrow> iovec list \<Rightarrow> iovec list" where
  "coalesce c [] = [c]"
| "coalesce c (x # xs) =
     (if ptr_add (iov_base c) (iov_len c) = iov_base x then coalesce (c\<lparr>iov_len := iov_len c + iov_len x\<rparr>) xs
      else c # coalesce x xs)"

definition qemu_iovec_release_ram :: "'s QEMUFile \<Rightarrow> 's QEMUFile" where
  "qemu_iovec_release_ram f =
    (case map ((!) (iov f)) (filter (\<lambda>i. may_free f ! i) [0..<length (iov f)]) of
       [] \<Rightarrow> f
     | c # rest \<Rightarrow> f\<lparr>advised := advised f @ coalesce c rest, may_free := replicate MAX_IOV_SIZE False\<rparr>)"

definition qemu_fflush :: "'s QEMUFile \<Rightarrow> 's QEMUFile res" where
  "qemu_fflush f =
    (case writev_buffer (ops f) of
       None \<Rightarrow> Inr f
     | Some w \<Rightarrow>
         rbind (if iov f \<noteq> []
                then rbind (w (opaque f) (map (iov_data f) (iov f)) (pos f)) (\<lambda>(ret, s).
                  Inr (ret, int (iov_size (iov f)), qemu_iovec_release_ram (f\<lparr>opaque := s\<rparr>)))
                else Inr (0, 0, f)) (\<lambda>(ret, expect, f).
         let f = (if ret \<ge> 0 then f\<lparr>pos := pos f + ret\<rparr> else f);
             f = (if ret \<noteq> expect then qemu_file_set_error f (if ret < 0 then ret else - int EIO) else f)
         in Inr (f\<lparr>buf_index := 0, iov := []\<rparr>)))"

definition add_to_iovec :: "'s QEMUFile \<Rightarrow> host_ptr \<Rightarrow> nat \<Rightarrow> bool \<Rightarrow> 's QEMUFile res" where
  "add_to_iovec f b sz free =
    (let n = length (iov f); l = last (iov f) in
     rbind (if n > 0 \<and> b = ptr_add (iov_base l) (iov_len l) \<and> free = may_free f ! (n - 1)
            then Inr (f\<lparr>iov := (iov f)[n - 1 := l\<lparr>iov_len := iov_len l + sz\<rparr>]\<rparr>)
            else if n < MAX_IOV_SIZE
            then Inr (f\<lparr>may_free := (if free then (may_free f)[n := True] else may_free f),
                        iov := iov f @ [\<lparr>iov_base = b, iov_len = sz\<rparr>]\<rparr>)
            else Inl OutOfBounds) (\<lambda>f.
     if length (iov f) \<ge> MAX_IOV_SIZE then qemu_fflush f else Inr f))"

definition qemu_put_buffer_async :: "'s QEMUFile \<Rightarrow> nat \<Rightarrow> nat \<Rightarrow> bool \<Rightarrow> 's QEMUFile res" where
  "qemu_put_buffer_async f addr sz free =
    (if last_error f \<noteq> 0 then Inr f
     else add_to_iovec (f\<lparr>bytes_xfer := bytes_xfer f + int sz\<rparr>) (MemPtr addr) sz free)"

text \<open>\<^verbatim>\<open>memcpy(f->buf + off, data, size)\<close>.\<close>

definition buf_store :: "'s QEMUFile \<Rightarrow> nat \<Rightarrow> u8 list \<Rightarrow> 's QEMUFile res" where
  "buf_store f off data =
    (if off + length data \<le> IO_BUF_SIZE
     then Inr (f\<lparr>io_buf := (\<lambda>i. if off \<le> i \<and> i < off + length data then data ! (i - off) else io_buf f i)\<rparr>)
     else Inl OutOfBounds)"

text \<open>One chunk goes to the end of the buffer; a full buffer is flushed.\<close>

definition put_chunk :: "'s QEMUFile \<Rightarrow> u8 list \<Rightarrow> 's QEMUFile res" where
  "put_chunk f data =
     rbind (buf_store f (buf_index f) data) (\<lambda>f.
     rbind (add_to_iovec (f\<lparr>bytes_xfer := bytes_xfer f + int (length data)\<rparr>) (BufPtr (buf_index f)) (length data) False)
       (\<lambda>f.
     let f = f\<lparr>buf_index := buf_index f + length data\<rparr> in
     if buf_index f = IO_BUF_SIZE then qemu_fflush f else Inr f))"

text \<open>
  The loop of \<^verbatim>\<open>qemu_put_buffer\<close>. A pass that copies nothing repeats forever; a pass
  that copies something shortens the data, so that its length is fuel enough.
\<close>

fun put_buffer_loop :: "nat \<Rightarrow> 's QEMUFile \<Rightarrow> u8 list \<Rightarrow> 's QEMUFile res" where
  "put_buffer_loop 0 f data = (if data = [] then Inr f else Inl Hang)"
| "put_buffer_loop (Suc fuel) f data =
    (if data = [] then Inr f
     else let l = min (IO_BUF_SIZE - buf_index f) (length data) in
          rbind (put_chunk f (take l data)) (\<lambda>f.
          if qemu_file_get_error f \<noteq> 0 then Inr f else put_buffer_loop fuel f (drop l data)))"

definition qemu_put_buffer :: "'s QEMUFile \<Rightarrow> u8 list \<Rightarrow> 's QEMUFile res" where
  "qemu_put_buffer f data = (if last_error f \<noteq> 0 then Inr f else put_buffer_loop (length data) f data)"

definition qemu_put_byte :: "'s QEMUFile \<Rightarrow> u8 \<Rightarrow> 's QEMUFile res" where
  "qemu_put_byte f v = (if last_error f \<noteq> 0 then Inr f else put_chunk f [v])"

section \<open>Reading\<close>

text \<open>The bytes not yet consumed move to the start of the buffer.\<close>

definition buf_compact :: "'s QEMUFile \<Rightarrow> 's QEMUFile" where
  "buf_compact f =
    (let pending = buf_size f - buf_index f in
     f\<lparr>io_buf := (\<lambda>i. if i < pending then io_buf f (i + buf_index f) else io_buf f i),
       buf_index := 0, buf_size := pending\<rparr>)"

definition fill_result :: "'s QEMUFile \<Rightarrow> nat + u8 list \<Rightarrow> (int \<times> 's QEMUFile) res" where
  "fill_result f r =
    (case r of
       Inr [] \<Rightarrow> Inr (0, qemu_file_set_error f (- int EIO))
     | Inr bs \<Rightarrow>
         rbind (buf_store f (buf_size f) bs) (\<lambda>f.
           Inr (int (length bs), f\<lparr>buf_size := buf_size f + length bs, pos := pos f + int (length bs)\<rparr>))
     | Inl e \<Rightarrow>
         Inr (- int e,
           if e = 0 then qemu_file_set_error f (- int EIO)
           else if e \<noteq> 11 then qemu_file_set_error f (- int e) else f))"

definition qemu_fill_buffer :: "'s QEMUFile \<Rightarrow> (int \<times> 's QEMUFile) res" where
  "qemu_fill_buffer f =
     assert_then (\<not> qemu_file_is_writable f)
      (let f = buf_compact f in
       case get_buffer (ops f) of
         None \<Rightarrow> Inl NullDeref
       | Some g \<Rightarrow>
           rbind (g (opaque f) (pos f) (IO_BUF_SIZE - buf_size f)) (\<lambda>(r, s).
             fill_result (f\<lparr>opaque := s\<rparr>) r))"

definition qemu_file_skip :: "'s QEMUFile \<Rightarrow> nat \<Rightarrow> 's QEMUFile" where
  "qemu_file_skip f sz =
    (if buf_index f + sz \<le> buf_size f then f\<lparr>buf_index := buf_index f + sz\<rparr> else f)"

text \<open>
  The number of bytes at an offset, an \<^verbatim>\<open>ssize_t\<close>, is compared with a \<^verbatim>\<open>size_t\<close>: when
  it is negative the comparison fails and nothing is read.
\<close>

definition peek_pending :: "'s QEMUFile \<Rightarrow> nat \<Rightarrow> int" where
  "peek_pending f offset = int (buf_size f) - int (buf_index f + offset)"

lemma buf_compact_simps [simp]:
  "buf_index (buf_compact f) = 0" "buf_size (buf_compact f) = buf_size f - buf_index f"
  "ops (buf_compact f) = ops f" "opaque (buf_compact f) = opaque f" "pos (buf_compact f) = pos f"
  "last_error (buf_compact f) = last_error f"
  by (simp_all add: buf_compact_def Let_def)

lemma fill_result_progress:
  assumes "fill_result f r = Inr (received, f')" "0 < received"
  obtains bs where "r = Inr bs" "bs \<noteq> []" "buf_size f + length bs \<le> IO_BUF_SIZE"
    "buf_size f' = buf_size f + length bs" "buf_index f' = buf_index f"
  using assms
  by (auto simp: fill_result_def buf_store_def rbind_eq_Inr_iff split: sum.splits list.splits if_splits)

lemma fill_buffer_progress:
  assumes "qemu_fill_buffer f = Inr (received, f')" "0 < received"
  shows "IO_BUF_SIZE - (buf_size f' - buf_index f') < IO_BUF_SIZE - (buf_size f - buf_index f)"
proof -
  obtain s r where "fill_result ((buf_compact f)\<lparr>opaque := s\<rparr>) r = Inr (received, f')"
    using assms(1)
    by (auto simp: qemu_fill_buffer_def assert_then_def Let_def rbind_eq_Inr_iff
        split: if_splits option.splits)
  from fill_result_progress [OF this assms(2)] obtain bs :: "u8 list"
    where bs: "bs \<noteq> []" "buf_size f - buf_index f + length bs \<le> IO_BUF_SIZE"
      "buf_size f' = buf_size f - buf_index f + length bs" "buf_index f' = 0"
    by auto
  then show ?thesis by (cases bs) auto
qed

text \<open>
  Returns the index and the number of bytes pending as the loop leaves its variables: after
  a fill that brings nothing they are those from before, although the fill has moved the
  pending bytes to the start of the buffer. The comparison with the size is unsigned.
\<close>

function peek_loop :: "'s QEMUFile \<Rightarrow> nat \<Rightarrow> nat \<Rightarrow> (nat \<times> int \<times> 's QEMUFile) res" where
  "peek_loop f sz offset =
    (if 0 \<le> peek_pending f offset \<and> peek_pending f offset < int sz
     then case qemu_fill_buffer f of
            Inl e \<Rightarrow> Inl e
          | Inr (received, f') \<Rightarrow>
              if received \<le> 0 then Inr (buf_index f + offset, peek_pending f offset, f')
              else peek_loop f' sz offset
     else Inr (buf_index f + offset, peek_pending f offset, f))"
  by auto

termination
  by (relation "measure (\<lambda>(f, _, _). IO_BUF_SIZE - (buf_size f - buf_index f))")
    (auto dest: fill_buffer_progress)

declare peek_loop.simps [simp del]

text \<open>Returns the number of bytes available and their index in the buffer.\<close>

definition qemu_peek_buffer :: "'s QEMUFile \<Rightarrow> nat \<Rightarrow> nat \<Rightarrow> (nat \<times> nat \<times> 's QEMUFile) res" where
  "qemu_peek_buffer f sz offset =
     assert_then (\<not> qemu_file_is_writable f)
     (assert_then (offset < IO_BUF_SIZE)
     (assert_then (sz \<le> IO_BUF_SIZE - offset)
       (rbind (peek_loop f sz offset) (\<lambda>(index, pending, f).
        if pending \<le> 0 then Inr (0, 0, f) else Inr (min sz (nat pending), index, f)))))"

function get_buffer_loop :: "'s QEMUFile \<Rightarrow> nat \<Rightarrow> u8 list \<Rightarrow> (u8 list \<times> 's QEMUFile) res" where
  "get_buffer_loop f pending done =
    (if pending = 0 then Inr (done, f)
     else case qemu_peek_buffer f (min pending IO_BUF_SIZE) 0 of
            Inl e \<Rightarrow> Inl e
          | Inr (n, src, f') \<Rightarrow>
              if n = 0 then Inr (done, f')
              else get_buffer_loop (qemu_file_skip f' n) (pending - n) (done @ map (io_buf f') [src..<src + n]))"
  by auto

termination
  by (relation "measure (\<lambda>(_, pending, _). pending)") auto

declare get_buffer_loop.simps [simp del]

text \<open>The bytes stored in the caller's buffer; their number is what the function returns.\<close>

definition qemu_get_buffer :: "'s QEMUFile \<Rightarrow> nat \<Rightarrow> (u8 list \<times> 's QEMUFile) res" where
  "qemu_get_buffer f sz = get_buffer_loop f sz []"

definition qemu_get_buffer_in_place :: "'s QEMUFile \<Rightarrow> nat \<Rightarrow> (u8 list \<times> 's QEMUFile) res" where
  "qemu_get_buffer_in_place f sz =
    (if sz < IO_BUF_SIZE
     then rbind (qemu_peek_buffer f sz 0) (\<lambda>(n, src, f).
            if n = sz then Inr (map (io_buf f) [src..<src + n], qemu_file_skip f n)
            else qemu_get_buffer f sz)
     else qemu_get_buffer f sz)"

definition qemu_peek_byte :: "'s QEMUFile \<Rightarrow> nat \<Rightarrow> (u8 \<times> 's QEMUFile) res" where
  "qemu_peek_byte f offset =
     assert_then (\<not> qemu_file_is_writable f)
     (assert_then (offset < IO_BUF_SIZE)
       (if buf_index f + offset \<ge> buf_size f
        then rbind (qemu_fill_buffer f) (\<lambda>(_, f).
               if buf_index f + offset \<ge> buf_size f then Inr (0, f)
               else Inr (io_buf f (buf_index f + offset), f))
        else Inr (io_buf f (buf_index f + offset), f)))"

definition qemu_get_byte :: "'s QEMUFile \<Rightarrow> (u8 \<times> 's QEMUFile) res" where
  "qemu_get_byte f = rbind (qemu_peek_byte f 0) (\<lambda>(b, f). Inr (b, qemu_file_skip f 1))"

section \<open>Positions, limits, closing\<close>

definition qemu_update_position :: "'s QEMUFile \<Rightarrow> nat \<Rightarrow> 's QEMUFile" where
  "qemu_update_position f sz = f\<lparr>pos := pos f + int sz\<rparr>"

definition qemu_ftell_fast :: "'s QEMUFile \<Rightarrow> int" where
  "qemu_ftell_fast f = pos f + int (iov_size (iov f))"

definition qemu_ftell :: "'s QEMUFile \<Rightarrow> (int \<times> 's QEMUFile) res" where
  "qemu_ftell f = rbind (qemu_fflush f) (\<lambda>f. Inr (pos f, f))"

definition qemu_file_rate_limit :: "'s QEMUFile \<Rightarrow> bool" where
  "qemu_file_rate_limit f \<longleftrightarrow>
     qemu_file_get_error f \<noteq> 0 \<or> (xfer_limit f > 0 \<and> bytes_xfer f > xfer_limit f)"

definition qemu_file_set_rate_limit :: "'s QEMUFile \<Rightarrow> int \<Rightarrow> 's QEMUFile" where
  "qemu_file_set_rate_limit f limit = f\<lparr>xfer_limit := limit\<rparr>"

definition qemu_file_reset_rate_limit :: "'s QEMUFile \<Rightarrow> 's QEMUFile" where
  "qemu_file_reset_rate_limit f = f\<lparr>bytes_xfer := 0\<rparr>"

text \<open>The result, and the backend as it is left.\<close>

definition qemu_fclose :: "'s QEMUFile \<Rightarrow> (int \<times> 's) res" where
  "qemu_fclose f =
     rbind (qemu_fflush f) (\<lambda>f.
     let ret = qemu_file_get_error f;
         (ret, s) = (case close_op (ops f) of
            Some c \<Rightarrow> (let (ret2, s) = c (opaque f) in (if ret \<ge> 0 then ret2 else ret, s))
          | None \<Rightarrow> (ret, opaque f))
     in Inr (if last_error f \<noteq> 0 then last_error f else ret, s))"

section \<open>Integers and strings\<close>

text \<open>The memory of an integer on a little-endian host.\<close>

definition le16 :: "u16 \<Rightarrow> u8 list" where
  "le16 v = [ucast v, ucast (drop_bit 8 v)]"

definition le32 :: "u32 \<Rightarrow> u8 list" where
  "le32 v = [ucast v, ucast (drop_bit 8 v), ucast (drop_bit 16 v), ucast (drop_bit 24 v)]"

definition le64 :: "u64 \<Rightarrow> u8 list" where
  "le64 v = [ucast v, ucast (drop_bit 8 v), ucast (drop_bit 16 v), ucast (drop_bit 24 v),
     ucast (drop_bit 32 v), ucast (drop_bit 40 v), ucast (drop_bit 48 v), ucast (drop_bit 56 v)]"

definition swap_endianness_16 :: "u16 \<Rightarrow> u32" where
  "swap_endianness_16 v =
    (let v = ucast v :: u32 in drop_bit 8 (v AND 0xff00) OR push_bit 8 (v AND 0xff))"

definition swap_endianness_32 :: "u32 \<Rightarrow> u32" where
  "swap_endianness_32 v =
     drop_bit 24 (v AND 0xff000000) OR drop_bit 8 (v AND 0xff0000) OR push_bit 8 (v AND 0xff00) OR push_bit 24 v"

definition swap_endianness_64 :: "u64 \<Rightarrow> u64" where
  "swap_endianness_64 v =
     drop_bit 56 (v AND 0xff00000000000000) OR drop_bit 40 (v AND 0xff000000000000) OR
     drop_bit 24 (v AND 0xff0000000000) OR drop_bit 8 (v AND 0xff00000000) OR
     push_bit 8 (v AND 0xff000000) OR push_bit 24 (v AND 0xff0000) OR
     push_bit 40 (v AND 0xff00) OR push_bit 56 v"

definition qemu_put_be16 :: "'s QEMUFile \<Rightarrow> u32 \<Rightarrow> 's QEMUFile res" where
  "qemu_put_be16 f v = qemu_put_buffer f (take 2 (le32 (swap_endianness_16 (ucast v))))"

definition qemu_put_be32 :: "'s QEMUFile \<Rightarrow> u32 \<Rightarrow> 's QEMUFile res" where
  "qemu_put_be32 f v = qemu_put_buffer f (le32 (swap_endianness_32 v))"

definition qemu_put_be64 :: "'s QEMUFile \<Rightarrow> u64 \<Rightarrow> 's QEMUFile res" where
  "qemu_put_be64 f v = qemu_put_buffer f (le64 (swap_endianness_64 v))"

text \<open>A short read leaves a part of the local variable as it was: never set.\<close>

definition from_le16 :: "u8 list \<Rightarrow> u16" where
  "from_le16 b = ucast (b ! 0) OR push_bit 8 (ucast (b ! 1))"

definition from_le32 :: "u8 list \<Rightarrow> u32" where
  "from_le32 b = ucast (b ! 0) OR push_bit 8 (ucast (b ! 1)) OR push_bit 16 (ucast (b ! 2)) OR
     push_bit 24 (ucast (b ! 3))"

definition from_le64 :: "u8 list \<Rightarrow> u64" where
  "from_le64 b = ucast (b ! 0) OR push_bit 8 (ucast (b ! 1)) OR push_bit 16 (ucast (b ! 2)) OR
     push_bit 24 (ucast (b ! 3)) OR push_bit 32 (ucast (b ! 4)) OR push_bit 40 (ucast (b ! 5)) OR
     push_bit 48 (ucast (b ! 6)) OR push_bit 56 (ucast (b ! 7))"

definition qemu_get_be16 :: "'s QEMUFile \<Rightarrow> (u32 \<times> 's QEMUFile) res" where
  "qemu_get_be16 f = rbind (qemu_get_buffer f 2) (\<lambda>(b, f).
     if length b < 2 then Inl Uninit else Inr (swap_endianness_16 (from_le16 b), f))"

definition qemu_get_be32 :: "'s QEMUFile \<Rightarrow> (u32 \<times> 's QEMUFile) res" where
  "qemu_get_be32 f = rbind (qemu_get_buffer f 4) (\<lambda>(b, f).
     if length b < 4 then Inl Uninit else Inr (swap_endianness_32 (from_le32 b), f))"

definition qemu_get_be64 :: "'s QEMUFile \<Rightarrow> (u64 \<times> 's QEMUFile) res" where
  "qemu_get_be64 f = rbind (qemu_get_buffer f 8) (\<lambda>(b, f).
     if length b < 8 then Inl Uninit else Inr (swap_endianness_64 (from_le64 b), f))"

text \<open>The length of a string is what \<^verbatim>\<open>strlen\<close> gives; the length returned is 0 on a short read.\<close>

definition qemu_put_counted_string :: "'s QEMUFile \<Rightarrow> u8 list \<Rightarrow> 's QEMUFile res" where
  "qemu_put_counted_string f str =
    (let len = length (cstr str) in
     assert_then (len < 256)
       (rbind (qemu_put_byte f (of_nat len)) (\<lambda>f. qemu_put_buffer f (take len str))))"

definition qemu_get_counted_string :: "'s QEMUFile \<Rightarrow> (nat \<times> u8 list \<times> 's QEMUFile) res" where
  "qemu_get_counted_string f =
     rbind (qemu_get_byte f) (\<lambda>(len, f).
     rbind (qemu_get_buffer f (unat len)) (\<lambda>(b, f).
       Inr (if length b = unat len then length b else 0, b, f)))"

section \<open>What was put arrives, in order\<close>

lemma length_ptr_data [simp]: "length (ptr_data f p n) = n"
  by (cases p) simp_all

lemma length_iov_data [simp]: "length (iov_data f e) = iov_len e"
  by (simp add: iov_data_def)

lemma iov_size_eq: "length (concat (map (iov_data f) es)) = iov_size es"
  by (induction es) (simp_all add: iov_size_def)

lemma ptr_data_append: "ptr_data f p (n + m) = ptr_data f p n @ ptr_data f (ptr_add p n) m"
proof -
  have "[a..<a + (n + m)] = [a..<a + n] @ [a + n..<a + n + m]" for a :: nat
    using upt_add_eq_append [of a "a + n" m] by (simp add: add.assoc)
  then show ?thesis by (cases p) simp_all
qed

lemma ptr_data_cong:
  assumes "host_mem f' = host_mem f"
    and "\<And>a. p = BufPtr a \<Longrightarrow> \<forall>i. a \<le> i \<and> i < a + n \<longrightarrow> io_buf f' i = io_buf f i"
  shows "ptr_data f' p n = ptr_data f p n"
  using assms by (cases p) auto

lemma iov_data_same:
  assumes "io_buf f' = io_buf f" "host_mem f' = host_mem f"
  shows "iov_data f' = iov_data f"
  by (rule ext, unfold iov_data_def, rule ptr_data_cong) (use assms in simp_all)

lemma release_ram_simps [simp]:
  "ops (qemu_iovec_release_ram f) = ops f" "opaque (qemu_iovec_release_ram f) = opaque f"
  "pos (qemu_iovec_release_ram f) = pos f" "last_error (qemu_iovec_release_ram f) = last_error f"
  "host_mem (qemu_iovec_release_ram f) = host_mem f" "iov (qemu_iovec_release_ram f) = iov f"
  "bytes_xfer (qemu_iovec_release_ram f) = bytes_xfer f"
  by (auto simp: qemu_iovec_release_ram_def split: list.splits)

lemma release_ram_may_free:
  "length (may_free f) = MAX_IOV_SIZE \<Longrightarrow> length (may_free (qemu_iovec_release_ram f)) = MAX_IOV_SIZE"
  by (auto simp: qemu_iovec_release_ram_def split: list.splits)

lemma buf_store_ok:
  assumes "off + length data \<le> IO_BUF_SIZE"
  shows "\<exists>b. buf_store f off data = Inr (f\<lparr>io_buf := b\<rparr>) \<and> map b [off..<off + length data] = data \<and>
     (\<forall>i. i < off \<longrightarrow> b i = io_buf f i)"
  using assms by (auto simp: buf_store_def intro!: exI nth_equalityI)

text \<open>A segment of the vector lies below a bound of the internal buffer.\<close>

definition below :: "nat \<Rightarrow> iovec \<Rightarrow> bool" where
  "below n e = (case iov_base e of BufPtr a \<Rightarrow> a + iov_len e \<le> n | MemPtr _ \<Rightarrow> True)"

lemma below_mono: "below n e \<Longrightarrow> n \<le> m \<Longrightarrow> below m e"
  by (auto simp: below_def split: host_ptr.splits)

lemma iov_data_below:
  assumes "below n e" "host_mem f' = host_mem f" "\<forall>i < n. io_buf f' i = io_buf f i"
  shows "iov_data f' e = iov_data f e"
  unfolding iov_data_def using assms
  by (intro ptr_data_cong) (auto simp: below_def)

text \<open>What a stream relies on when it is written.\<close>

locale file_sink =
  fixes w :: "'s \<Rightarrow> u8 list list \<Rightarrow> int \<Rightarrow> (int \<times> 's) res"
    and taken :: "'s \<Rightarrow> u8 list"
    and sink_ok :: "'s \<Rightarrow> bool"
  assumes accepts:
    "sink_ok s \<Longrightarrow> \<exists>s'. w s chunks p = Inr (int (length (concat chunks)), s') \<and> sink_ok s' \<and>
       taken s' = taken s @ concat chunks"
begin

definition wr_base :: "'s QEMUFile \<Rightarrow> bool" where
  "wr_base f \<longleftrightarrow> writev_buffer (ops f) = Some w \<and> last_error f = 0 \<and> sink_ok (opaque f) \<and>
     length (may_free f) = MAX_IOV_SIZE"

definition wr_ok :: "'s QEMUFile \<Rightarrow> bool" where
  "wr_ok f \<longleftrightarrow> wr_base f \<and> buf_index f < IO_BUF_SIZE \<and> length (iov f) < MAX_IOV_SIZE \<and>
     (\<forall>e \<in> set (iov f). below (buf_index f) e)"

text \<open>What the backend has taken and what waits in the vector.\<close>

definition written :: "'s QEMUFile \<Rightarrow> u8 list" where
  "written f = taken (opaque f) @ concat (map (iov_data f) (iov f))"

lemma fflush_written:
  assumes "wr_base f"
  shows "\<exists>f'. qemu_fflush f = Inr f' \<and> wr_ok f' \<and> written f' = written f \<and> buf_index f' = 0 \<and> iov f' = [] \<and>
     taken (opaque f') = written f \<and> ops f' = ops f \<and> pos f' = pos f + int (iov_size (iov f)) \<and>
     host_mem f' = host_mem f \<and> bytes_xfer f' = bytes_xfer f"
proof (cases "iov f = []")
  case True
  then show ?thesis
    using assms
    by (auto simp: qemu_fflush_def wr_base_def wr_ok_def written_def iov_size_def IO_BUF_SIZE_def MAX_IOV_SIZE_def)
next
  case False
  obtain s where s: "w (opaque f) (map (iov_data f) (iov f)) (pos f) = Inr (int (iov_size (iov f)), s)"
    "sink_ok s" "taken s = written f"
    using accepts [of "opaque f" "map (iov_data f) (iov f)" "pos f"] assms
    unfolding iov_size_eq wr_base_def written_def by blast
  then show ?thesis
    using assms False release_ram_may_free [of "f\<lparr>opaque := s\<rparr>"]
    by (auto simp: qemu_fflush_def wr_base_def wr_ok_def written_def Let_def IO_BUF_SIZE_def MAX_IOV_SIZE_def)
qed

lemma add_to_iovec_written:
  assumes base: "wr_base f" and n: "length (iov f) < MAX_IOV_SIZE"
    and bound: "\<forall>e \<in> set (iov f). below m e" and new: "below m \<lparr>iov_base = p, iov_len = sz\<rparr>"
  shows "\<exists>f'. add_to_iovec f p sz free = Inr f' \<and> wr_base f' \<and> written f' = written f @ ptr_data f p sz \<and>
     ops f' = ops f \<and> host_mem f' = host_mem f \<and> bytes_xfer f' = bytes_xfer f \<and> length (iov f') < MAX_IOV_SIZE \<and>
     (buf_index f' = buf_index f \<and> (\<forall>e \<in> set (iov f'). below m e) \<or> buf_index f' = 0 \<and> iov f' = [])"
proof -
  let ?l = "last (iov f)"
  define merge where "merge \<longleftrightarrow> iov f \<noteq> [] \<and> p = ptr_add (iov_base ?l) (iov_len ?l) \<and> free = may_free f ! (length (iov f) - 1)"
  define g where "g = (if merge
      then f\<lparr>iov := butlast (iov f) @ [?l\<lparr>iov_len := iov_len ?l + sz\<rparr>]\<rparr>
      else f\<lparr>may_free := (if free then (may_free f)[length (iov f) := True] else may_free f),
             iov := iov f @ [\<lparr>iov_base = p, iov_len = sz\<rparr>]\<rparr>)"
  have add: "add_to_iovec f p sz free = (if length (iov g) \<ge> MAX_IOV_SIZE then qemu_fflush g else Inr g)"
    using n update_last [of "iov f"] by (simp add: add_to_iovec_def Let_def g_def merge_def)
  have base_g: "wr_base g"
    using base by (simp add: g_def wr_base_def)
  have same: "iov_data g = iov_data f"
    by (rule iov_data_same) (simp_all add: g_def)
  have merged: "concat (map (iov_data f) (iov g)) = concat (map (iov_data f) (iov f)) @ ptr_data f p sz"
  proof (cases merge)
    case True
    then have "iov f \<noteq> []" "p = ptr_add (iov_base ?l) (iov_len ?l)" by (simp_all add: merge_def)
    then have "concat (map (iov_data f) (iov f)) = concat (map (iov_data f) (butlast (iov f))) @ iov_data f ?l"
      by (simp add: concat_map_last)
    moreover have "iov_data f (?l\<lparr>iov_len := iov_len ?l + sz\<rparr>) = iov_data f ?l @ ptr_data f p sz"
      using \<open>p = ptr_add (iov_base ?l) (iov_len ?l)\<close> by (simp add: iov_data_def ptr_data_append)
    ultimately show ?thesis
      using True by (simp add: g_def)
  qed (simp add: g_def iov_data_def)
  have wr: "written g = written f @ ptr_data f p sz"
    unfolding written_def same merged by (simp add: g_def)
  have bound_g: "\<forall>e \<in> set (iov g). below m e"
  proof (cases merge)
    case True
    then have "p = ptr_add (iov_base ?l) (iov_len ?l)" by (simp add: merge_def)
    then have "below m (?l\<lparr>iov_len := iov_len ?l + sz\<rparr>)"
      using new by (cases "iov_base ?l") (simp_all add: below_def)
    then show ?thesis
      using True bound by (auto simp: g_def dest: in_set_butlastD)
  qed (use bound new in \<open>auto simp: g_def\<close>)
  have fields: "ops g = ops f" "host_mem g = host_mem f" "bytes_xfer g = bytes_xfer f" "buf_index g = buf_index f"
    by (simp_all add: g_def)
  show ?thesis
  proof (cases "length (iov g) \<ge> MAX_IOV_SIZE")
    case True
    then show ?thesis
      using fflush_written [OF base_g] add wr fields by (auto simp: wr_ok_def MAX_IOV_SIZE_def)
  next
    case False
    then show ?thesis
      using add base_g wr bound_g fields by auto
  qed
qed

lemma put_chunk_written:
  assumes ok: "wr_ok f" and room: "buf_index f + length data \<le> IO_BUF_SIZE"
  shows "\<exists>f'. put_chunk f data = Inr f' \<and> wr_ok f' \<and> written f' = written f @ data \<and>
     bytes_xfer f' = bytes_xfer f + int (length data) \<and> ops f' = ops f \<and> host_mem f' = host_mem f"
proof -
  obtain b where b: "buf_store f (buf_index f) data = Inr (f\<lparr>io_buf := b\<rparr>)"
    "map b [buf_index f..<buf_index f + length data] = data" "\<forall>i < buf_index f. b i = io_buf f i"
    using buf_store_ok [OF room, of f] by blast
  define g where "g = f\<lparr>io_buf := b\<rparr>\<lparr>bytes_xfer := bytes_xfer f + int (length data)\<rparr>"
  let ?m = "buf_index f + length data"
  have fields: "iov g = iov f" "opaque g = opaque f" "buf_index g = buf_index f" "host_mem g = host_mem f"
    "ops g = ops f" "bytes_xfer g = bytes_xfer f + int (length data)" "may_free g = may_free f"
    "last_error g = last_error f" "io_buf g = b"
    by (simp_all add: g_def)
  have "map (iov_data g) (iov f) = map (iov_data f) (iov f)"
    using ok b(3) fields(4,9) by (auto simp: wr_ok_def intro!: iov_data_below)
  then have wr: "written g = written f"
    by (simp only: written_def fields)
  have "wr_base g" "length (iov g) < MAX_IOV_SIZE"
    using ok by (simp_all add: wr_ok_def wr_base_def fields)
  moreover have "\<forall>e \<in> set (iov g). below ?m e"
    using ok by (auto simp: wr_ok_def fields intro: below_mono)
  moreover have "below ?m \<lparr>iov_base = BufPtr (buf_index f), iov_len = length data\<rparr>"
    by (simp add: below_def)
  ultimately obtain h where h: "add_to_iovec g (BufPtr (buf_index f)) (length data) False = Inr h" "wr_base h"
    "written h = written g @ ptr_data g (BufPtr (buf_index f)) (length data)" "ops h = ops g"
    "host_mem h = host_mem g" "bytes_xfer h = bytes_xfer g" "length (iov h) < MAX_IOV_SIZE"
    "buf_index h = buf_index g \<and> (\<forall>e \<in> set (iov h). below ?m e) \<or> buf_index h = 0 \<and> iov h = []"
    using add_to_iovec_written by blast
  let ?h = "h\<lparr>buf_index := buf_index h + length data\<rparr>"
  have "ptr_data g (BufPtr (buf_index f)) (length data) = data"
    using b(2) fields(9) by simp
  then have "written h = written f @ data"
    using h(3) wr by simp
  moreover have "iov_data ?h = iov_data h"
    by (rule iov_data_same) simp_all
  ultimately have wh: "written ?h = written f @ data" "wr_base ?h"
    using h(2) by (simp_all add: written_def wr_base_def)
  have bound: "buf_index ?h \<le> IO_BUF_SIZE" "\<forall>e \<in> set (iov ?h). below (buf_index ?h) e"
    using h(8) room fields(3) by auto
  have step: "put_chunk f data = (if buf_index ?h = IO_BUF_SIZE then qemu_fflush ?h else Inr ?h)"
    using b(1) h(1) by (simp add: put_chunk_def Let_def g_def)
  show ?thesis
  proof (cases "buf_index ?h = IO_BUF_SIZE")
    case True
    then show ?thesis
      using step fflush_written [OF wh(2)] wh(1) h(4-6) fields by auto
  next
    case False
    then show ?thesis
      using step wh bound h(4-7) fields by (auto simp: wr_ok_def)
  qed
qed

lemma put_buffer_loop_written:
  assumes "wr_ok f" "length data \<le> fuel"
  shows "\<exists>f'. put_buffer_loop fuel f data = Inr f' \<and> wr_ok f' \<and> written f' = written f @ data \<and>
     bytes_xfer f' = bytes_xfer f + int (length data) \<and> ops f' = ops f \<and> host_mem f' = host_mem f"
  using assms
proof (induction fuel arbitrary: f data)
  case 0
  then show ?case by simp
next
  case (Suc fuel)
  show ?case
  proof (cases "data = []")
    case True
    then show ?thesis using Suc.prems by simp
  next
    case False
    let ?l = "min (IO_BUF_SIZE - buf_index f) (length data)"
    have l: "0 < ?l" "buf_index f + length (take ?l data) \<le> IO_BUF_SIZE"
      using Suc.prems(1) False by (auto simp: wr_ok_def)
    obtain g where g: "put_chunk f (take ?l data) = Inr g" "wr_ok g" "written g = written f @ take ?l data"
      "bytes_xfer g = bytes_xfer f + int (length (take ?l data))" "ops g = ops f" "host_mem g = host_mem f"
      using put_chunk_written [OF Suc.prems(1) l(2)] by blast
    have "length (drop ?l data) \<le> fuel"
      unfolding length_drop using l(1) Suc.prems(2) by linarith
    from Suc.IH [OF g(2) this] obtain h where h: "put_buffer_loop fuel g (drop ?l data) = Inr h" "wr_ok h"
      "written h = written g @ drop ?l data" "bytes_xfer h = bytes_xfer g + int (length (drop ?l data))"
      "ops h = ops g" "host_mem h = host_mem g" by blast
    have "last_error g = 0" using g(2) by (simp add: wr_ok_def wr_base_def)
    then have "put_buffer_loop (Suc fuel) f data = Inr h"
      using False g(1) h(1) by (simp add: Let_def qemu_file_get_error_def)
    moreover have "written h = written f @ data"
      using h(3) g(3) by simp
    moreover have "bytes_xfer h = bytes_xfer f + int (length data)"
      using h(4) g(4) by (simp add: of_nat_diff)
    ultimately show ?thesis
      using h g by auto
  qed
qed

lemma put_buffer_written:
  assumes "wr_ok f"
  shows "\<exists>f'. qemu_put_buffer f data = Inr f' \<and> wr_ok f' \<and> written f' = written f @ data \<and>
     bytes_xfer f' = bytes_xfer f + int (length data) \<and> ops f' = ops f \<and> host_mem f' = host_mem f"
  using put_buffer_loop_written [OF assms order_refl, of data] assms
  by (simp add: qemu_put_buffer_def wr_ok_def wr_base_def)

lemma put_byte_written:
  assumes "wr_ok f"
  shows "\<exists>f'. qemu_put_byte f v = Inr f' \<and> wr_ok f' \<and> written f' = written f @ [v] \<and>
     bytes_xfer f' = bytes_xfer f + 1 \<and> ops f' = ops f \<and> host_mem f' = host_mem f"
  using put_chunk_written [OF assms, of "[v]"] assms
  by (simp add: qemu_put_byte_def wr_ok_def wr_base_def)

end

section \<open>Byte order\<close>

lemma byte_masks:
  "(0xff00000000000000 :: u64) = push_bit 56 (mask 8)" "(0xff000000000000 :: u64) = push_bit 48 (mask 8)"
  "(0xff0000000000 :: u64) = push_bit 40 (mask 8)" "(0xff00000000 :: u64) = push_bit 32 (mask 8)"
  "(0xff000000 :: 'a::len word) = push_bit 24 (mask 8)" "(0xff0000 :: 'a::len word) = push_bit 16 (mask 8)"
  "(0xff00 :: 'a::len word) = push_bit 8 (mask 8)" "(0xff :: 'a::len word) = mask 8"
  by (simp_all add: mask_eq_exp_minus_1 push_bit_eq_mult)

lemma swap_endianness_64_le: "le64 (swap_endianness_64 v) = be64 v"
  unfolding le64_def be64_def swap_endianness_64_def byte_masks
  by (simp only: list.inject simp_thms, intro conjI; rule bit_word_eqI) (auto simp: bit_simps)

lemma swap_endianness_32_le: "le32 (swap_endianness_32 v) = be32 v"
  unfolding le32_def be32_def swap_endianness_32_def byte_masks
  by (simp only: list.inject simp_thms, intro conjI; rule bit_word_eqI) (auto simp: bit_simps)

lemma swap_endianness_16_le: "take 2 (le32 (swap_endianness_16 v)) = be16 v"
  unfolding le32_def be16_def swap_endianness_16_def byte_masks Let_def
  by (simp, intro conjI; rule bit_word_eqI) (auto simp: bit_simps)

lemma be_rev_le: "be16 a = rev (le16 a)" "be32 b = rev (le32 b)" "be64 c = rev (le64 c)"
  by (simp_all add: be16_def le16_def be32_def le32_def be64_def le64_def)

lemma from_le_rev:
  "length a = 2 \<Longrightarrow> from_le16 a = from_be16 (rev a)" "length b = 4 \<Longrightarrow> from_le32 b = from_be32 (rev b)"
  "length c = 8 \<Longrightarrow> from_le64 c = from_be64 (rev c)"
  by (simp_all add: from_le16_def from_be16_def from_le32_def from_be32_def from_le64_def from_be64_def rev_nth
      or.commute or.left_commute)

lemma length_le [simp]: "length (le16 a) = 2" "length (le32 b) = 4" "length (le64 c) = 8"
  by (simp_all add: le16_def le32_def le64_def)

lemma from_le_le [simp]: "from_le16 (le16 a) = a" "from_le32 (le32 b) = b" "from_le64 (le64 c) = c"
  by (simp_all add: from_le_rev flip: be_rev_le)

lemma swap_from_le64 [simp]: "swap_endianness_64 (from_le64 (be64 v)) = v"
proof -
  have "le64 (swap_endianness_64 (swap_endianness_64 v)) = le64 v"
    using swap_endianness_64_le be_rev_le(3) by (metis rev_rev_ident)
  then have "swap_endianness_64 (swap_endianness_64 v) = v"
    by (metis from_le_le(3))
  then show ?thesis
    by (simp flip: swap_endianness_64_le)
qed

lemma swap_from_le32 [simp]: "swap_endianness_32 (from_le32 (be32 v)) = v"
proof -
  have "le32 (swap_endianness_32 (swap_endianness_32 v)) = le32 v"
    using swap_endianness_32_le be_rev_le(2) by (metis rev_rev_ident)
  then have "swap_endianness_32 (swap_endianness_32 v) = v"
    by (metis from_le_le(2))
  then show ?thesis
    by (simp flip: swap_endianness_32_le)
qed

lemma swap_from_le16 [simp]: "swap_endianness_16 (from_le16 (be16 v)) = ucast v"
proof -
  have "from_le16 (be16 v) = from_be16 (le16 v)"
    by (simp add: from_le_rev(1) be_rev_le(1))
  also have "\<dots> = push_bit 8 (ucast (ucast v :: u8)) OR ucast (ucast (drop_bit 8 v) :: u8)"
    by (simp add: from_be16_def le16_def)
  finally show ?thesis
    unfolding swap_endianness_16_def byte_masks Let_def
    by (simp only:) (rule bit_word_eqI, auto simp: bit_simps dest: bit_imp_le_length, metis le_add_diff_inverse not_less)
qed

text \<open>Every integer goes to the stream in network byte order.\<close>

context file_sink
begin

lemma put_be16_written: "wr_ok f \<Longrightarrow> \<exists>f'. qemu_put_be16 f v = Inr f' \<and> wr_ok f' \<and> written f' = written f @ be16 (ucast v)"
  using put_buffer_written by (fastforce simp: qemu_put_be16_def swap_endianness_16_le)

lemma put_be32_written: "wr_ok f \<Longrightarrow> \<exists>f'. qemu_put_be32 f v = Inr f' \<and> wr_ok f' \<and> written f' = written f @ be32 v"
  using put_buffer_written by (fastforce simp: qemu_put_be32_def swap_endianness_32_le)

lemma put_be64_written: "wr_ok f \<Longrightarrow> \<exists>f'. qemu_put_be64 f v = Inr f' \<and> wr_ok f' \<and> written f' = written f @ be64 v"
  using put_buffer_written by (fastforce simp: qemu_put_be64_def swap_endianness_64_le)

text \<open>\<open>puts g bs\<close>: the operation succeeds on every well formed stream and appends \<open>bs\<close>.\<close>

definition puts :: "('s QEMUFile \<Rightarrow> 's QEMUFile res) \<Rightarrow> u8 list \<Rightarrow> bool" where
  "puts g bs \<longleftrightarrow> (\<forall>f. wr_ok f \<longrightarrow> (\<exists>f'. g f = Inr f' \<and> wr_ok f' \<and> written f' = written f @ bs))"

lemma puts_skip: "puts Inr []"
  by (simp add: puts_def)

lemma puts_bind:
  assumes "puts g bs" "puts h cs"
  shows "puts (\<lambda>f. rbind (g f) h) (bs @ cs)"
  unfolding puts_def
proof (intro allI impI)
  fix f assume "wr_ok f"
  then obtain f1 where f1: "g f = Inr f1" "wr_ok f1" "written f1 = written f @ bs"
    using assms(1) unfolding puts_def by blast
  then obtain f2 where "h f1 = Inr f2" "wr_ok f2" "written f2 = written f1 @ cs"
    using assms(2) unfolding puts_def by blast
  with f1 show "\<exists>f'. rbind (g f) h = Inr f' \<and> wr_ok f' \<and> written f' = written f @ bs @ cs" by simp
qed

lemma puts_byte: "puts (\<lambda>f. qemu_put_byte f v) [v]"
  using put_byte_written by (fastforce simp: puts_def)

lemma puts_buffer: "puts (\<lambda>f. qemu_put_buffer f bs) bs"
  using put_buffer_written by (fastforce simp: puts_def)

lemma puts_be16: "puts (\<lambda>f. qemu_put_be16 f v) (be16 (ucast v))"
  using put_be16_written by (simp add: puts_def)

lemma puts_be32: "puts (\<lambda>f. qemu_put_be32 f v) (be32 v)"
  using put_be32_written by (simp add: puts_def)

lemma puts_be64: "puts (\<lambda>f. qemu_put_be64 f v) (be64 v)"
  using put_be64_written by (simp add: puts_def)

lemma puts_counted_string:
  "length (cstr str) < 256 \<Longrightarrow>
   puts (\<lambda>f. qemu_put_counted_string f str) (of_nat (length (cstr str)) # cstr str)"
  using puts_bind [OF puts_byte puts_buffer, of "of_nat (length (cstr str))" "cstr str"]
  by (simp add: qemu_put_counted_string_def take_length_cstr)

end

section \<open>What is there is read, however the backend cuts it\<close>

text \<open>
  A backend that is read gives a non-empty piece of what it has left whenever it is
  asked for something, and nothing only at the end.
\<close>

locale file_source =
  fixes g :: "'s \<Rightarrow> int \<Rightarrow> nat \<Rightarrow> ((nat + u8 list) \<times> 's) res"
    and left :: "'s \<Rightarrow> u8 list"
    and source_ok :: "'s \<Rightarrow> bool"
  assumes gives:
    "source_ok s \<Longrightarrow> 0 < n \<Longrightarrow> \<exists>bs s'. g s p n = Inr (Inr bs, s') \<and> source_ok s' \<and> length bs \<le> n \<and>
       left s = bs @ left s' \<and> (bs = [] \<longrightarrow> left s = [])"
begin

definition rd_ok :: "'s QEMUFile \<Rightarrow> bool" where
  "rd_ok f \<longleftrightarrow> \<not> qemu_file_is_writable f \<and> get_buffer (ops f) = Some g \<and> source_ok (opaque f) \<and>
     buf_index f \<le> buf_size f \<and> buf_size f \<le> IO_BUF_SIZE"

definition buffered :: "'s QEMUFile \<Rightarrow> u8 list" where
  "buffered f = map (io_buf f) [buf_index f..<buf_size f]"

definition unread :: "'s QEMUFile \<Rightarrow> u8 list" where
  "unread f = buffered f @ left (opaque f)"

lemma length_buffered [simp]: "length (buffered f) = buf_size f - buf_index f"
  by (simp add: buffered_def)

lemma buffered_compact: "buffered (buf_compact f) = buffered f"
  by (rule nth_equalityI) (simp_all add: buffered_def buf_compact_def Let_def add.commute)

lemma fill_buffer_unread:
  assumes ok: "rd_ok f" and room: "buf_size f - buf_index f < IO_BUF_SIZE"
  shows "\<exists>received f'. qemu_fill_buffer f = Inr (received, f') \<and> rd_ok f' \<and> unread f' = unread f \<and> buf_index f' = 0 \<and>
     (0 < received \<and> buf_size f' - buf_index f' > buf_size f - buf_index f \<and> last_error f' = last_error f \<or>
      received = 0 \<and> unread f = buffered f \<and> unread f' = buffered f' \<and>
        last_error f' = (if last_error f = 0 then - int EIO else last_error f))"
proof -
  let ?c = "buf_compact f"
  obtain bs s where g: "g (opaque f) (pos f) (IO_BUF_SIZE - buf_size ?c) = Inr (Inr bs, s)" "source_ok s"
    "length bs \<le> IO_BUF_SIZE - buf_size ?c" "left (opaque f) = bs @ left s" "bs = [] \<longrightarrow> left (opaque f) = []"
    using gives [of "opaque f" "IO_BUF_SIZE - buf_size ?c" "pos f"] ok room unfolding rd_ok_def
    by (metis buf_compact_simps(2) zero_less_diff)
  have fill: "qemu_fill_buffer f = fill_result (?c\<lparr>opaque := s\<rparr>) (Inr bs)"
    using ok g(1) by (simp add: qemu_fill_buffer_def rd_ok_def Let_def)
  show ?thesis
  proof (cases bs)
    case Nil
    let ?f = "qemu_file_set_error (?c\<lparr>opaque := s\<rparr>) (- int EIO)"
    have same: "buffered ?f = buffered f" "opaque ?f = s" "buf_index ?f = 0"
      using buffered_compact [of f] by (simp_all add: qemu_file_set_error_def buffered_def)
    have "rd_ok ?f"
      using ok g(2) by (auto simp: rd_ok_def qemu_file_is_writable_def qemu_file_set_error_def)
    then show ?thesis
      using fill Nil g(4,5) same by (auto simp: fill_result_def unread_def qemu_file_set_error_def)
  next
    case (Cons b rest)
    have "buf_size f - buf_index f + length bs \<le> IO_BUF_SIZE"
      using g(3) room by simp
    then obtain m where m: "buf_store (?c\<lparr>opaque := s\<rparr>) (buf_size ?c) bs = Inr (?c\<lparr>opaque := s\<rparr>\<lparr>io_buf := m\<rparr>)"
      "map m [buf_size ?c..<buf_size ?c + length bs] = bs" "\<forall>i < buf_size ?c. m i = io_buf ?c i"
      using buf_store_ok [of "buf_size ?c" bs "?c\<lparr>opaque := s\<rparr>"] by auto
    let ?f = "?c\<lparr>opaque := s, io_buf := m, buf_size := buf_size ?c + length bs, pos := pos ?c + int (length bs)\<rparr>"
    have "[0..<buf_size ?c + length bs] = [0..<buf_size ?c] @ [buf_size ?c..<buf_size ?c + length bs]"
      using upt_add_eq_append [of 0 "buf_size ?c" "length bs"] by simp
    moreover have "map m [0..<buf_size ?c] = map (io_buf ?c) [0..<buf_size ?c]"
      using m(3) by simp
    then have "map m [0..<buf_size ?c] = buffered f"
      unfolding buffered_compact [of f, symmetric] by (simp only: buffered_def buf_compact_simps)
    ultimately have "buffered ?f = buffered f @ bs"
      using m(2) by (simp add: buffered_def)
    then have "unread ?f = unread f"
      using g(4) by (simp add: unread_def)
    moreover have "rd_ok ?f"
      using ok g(2) \<open>buf_size f - buf_index f + length bs \<le> IO_BUF_SIZE\<close>
      by (auto simp: rd_ok_def qemu_file_is_writable_def)
    moreover have "qemu_fill_buffer f = Inr (int (length bs), ?f)"
      using fill m(1) Cons by (simp add: fill_result_def)
    ultimately show ?thesis
      using Cons by (intro exI [of _ "int (length bs)"] exI [of _ ?f]) simp
  qed
qed


lemma peek_loop_unread:
  assumes "rd_ok f" "sz \<le> IO_BUF_SIZE" "sz \<le> length (unread f)"
  shows "\<exists>f'. peek_loop f sz 0 = Inr (buf_index f', int (buf_size f' - buf_index f'), f') \<and> rd_ok f' \<and>
     unread f' = unread f \<and> sz \<le> buf_size f' - buf_index f' \<and> last_error f' = last_error f"
  using assms(1,3)
proof (induction "IO_BUF_SIZE - (buf_size f - buf_index f)" arbitrary: f rule: less_induct)
  case less
  have le: "buf_index f \<le> buf_size f" using less.prems by (simp add: rd_ok_def)
  show ?case
  proof (cases "buf_size f - buf_index f < sz")
    case False
    then show ?thesis
      using less.prems le by (subst peek_loop.simps) (auto simp: peek_pending_def)
  next
    case True
    obtain received f' where fill: "qemu_fill_buffer f = Inr (received, f')" "rd_ok f'" "unread f' = unread f"
      "0 < received \<and> buf_size f' - buf_index f' > buf_size f - buf_index f \<and> last_error f' = last_error f \<or>
       received = 0 \<and> unread f = buffered f"
      using fill_buffer_unread [OF less.prems(1)] True assms(2) by auto
    have "\<not> (received = 0 \<and> unread f = buffered f)"
      using less.prems(2) True by (metis length_buffered not_le)
    then have more: "0 < received" "buf_size f' - buf_index f' > buf_size f - buf_index f" "last_error f' = last_error f"
      using fill(4) by auto
    have "peek_loop f sz 0 = peek_loop f' sz 0"
      using True le fill(1) more(1) by (subst peek_loop.simps) (auto simp: peek_pending_def)
    moreover have "buf_size f' - buf_index f' \<le> IO_BUF_SIZE"
      using fill(2) by (auto simp: rd_ok_def)
    ultimately show ?thesis
      using less.hyps [OF _ fill(2)] less.prems(2) fill(3) more by auto
  qed
qed

lemma peek_buffer_unread:
  assumes "rd_ok f" "sz \<le> IO_BUF_SIZE" "sz \<le> length (unread f)" "0 < sz"
  shows "\<exists>f'. qemu_peek_buffer f sz 0 = Inr (sz, buf_index f', f') \<and> rd_ok f' \<and>
     unread f' = unread f \<and> last_error f' = last_error f \<and> buf_index f' + sz \<le> buf_size f'"
proof -
  obtain f' where f': "peek_loop f sz 0 = Inr (buf_index f', int (buf_size f' - buf_index f'), f')" "rd_ok f'"
    "unread f' = unread f" "sz \<le> buf_size f' - buf_index f'" "last_error f' = last_error f"
    using peek_loop_unread [OF assms(1-3)] by blast
  then show ?thesis
    using assms(1,2,4) by (auto simp: qemu_peek_buffer_def rd_ok_def IO_BUF_SIZE_def min_def)
qed

lemma skip_unread:
  assumes "rd_ok f" "buf_index f + n \<le> buf_size f"
  shows "rd_ok (qemu_file_skip f n)" "unread (qemu_file_skip f n) = drop n (unread f)"
    "map (io_buf f) [buf_index f..<buf_index f + n] = take n (unread f)"
    "last_error (qemu_file_skip f n) = last_error f"
proof -
  have "[buf_index f..<buf_size f] = [buf_index f..<buf_index f + n] @ [buf_index f + n..<buf_size f]"
    using assms(2) upt_add_eq_append [of "buf_index f" "buf_index f + n" "buf_size f - (buf_index f + n)"] by simp
  then have split: "buffered f = map (io_buf f) [buf_index f..<buf_index f + n] @ buffered (qemu_file_skip f n)"
    using assms(2) by (simp add: buffered_def qemu_file_skip_def)
  have "opaque (qemu_file_skip f n) = opaque f" by (simp add: qemu_file_skip_def)
  then show "unread (qemu_file_skip f n) = drop n (unread f)"
    "map (io_buf f) [buf_index f..<buf_index f + n] = take n (unread f)"
    using split by (simp_all add: unread_def)
  show "rd_ok (qemu_file_skip f n)" "last_error (qemu_file_skip f n) = last_error f"
    using assms by (auto simp: rd_ok_def qemu_file_skip_def qemu_file_is_writable_def)
qed

lemma get_buffer_loop_unread:
  assumes "rd_ok f" "n \<le> length (unread f)"
  shows "\<exists>f'. get_buffer_loop f n acc = Inr (acc @ take n (unread f), f') \<and> rd_ok f' \<and> unread f' = drop n (unread f) \<and>
     last_error f' = last_error f"
  using assms
proof (induction n arbitrary: f acc rule: less_induct)
  case (less n)
  show ?case
  proof (cases "n = 0")
    case True
    then show ?thesis using less.prems by (subst get_buffer_loop.simps) simp
  next
    case False
    let ?k = "min n IO_BUF_SIZE"
    have k: "?k \<le> IO_BUF_SIZE" "?k \<le> length (unread f)" "0 < ?k"
      using False less.prems(2) by (auto simp: IO_BUF_SIZE_def)
    obtain f' where f': "qemu_peek_buffer f ?k 0 = Inr (?k, buf_index f', f')" "rd_ok f'"
      "unread f' = unread f" "last_error f' = last_error f" "buf_index f' + ?k \<le> buf_size f'"
      using peek_buffer_unread [OF less.prems(1) k] by blast
    note sk = skip_unread [OF f'(2,5)]
    have step: "get_buffer_loop f n acc =
        get_buffer_loop (qemu_file_skip f' ?k) (n - ?k) (acc @ take ?k (unread f))"
      using False f'(1,3) sk(3) less_not_refl2 [OF k(3)]
      by (subst get_buffer_loop.simps) (simp only: if_False sum.case prod.case)
    have "n - ?k < n" "n - ?k \<le> length (unread (qemu_file_skip f' ?k))"
      using False k(3) less.prems(2) sk(2) f'(3) by auto
    from less.IH [OF this(1) sk(1) this(2), of "acc @ take ?k (unread f)"] obtain h where h:
      "get_buffer_loop (qemu_file_skip f' ?k) (n - ?k) (acc @ take ?k (unread f)) =
        Inr ((acc @ take ?k (unread f)) @ take (n - ?k) (unread (qemu_file_skip f' ?k)), h)"
      "rd_ok h" "unread h = drop (n - ?k) (unread (qemu_file_skip f' ?k))"
      "last_error h = last_error (qemu_file_skip f' ?k)"
      by blast
    have n: "?k + (n - ?k) = n" by simp
    have "take ?k (unread f) @ take (n - ?k) (drop ?k (unread f)) = take n (unread f)"
      using take_add [of ?k "n - ?k" "unread f"] n by simp
    moreover have "drop (n - ?k) (drop ?k (unread f)) = drop n (unread f)"
      using n by (simp add: drop_drop add.commute)
    ultimately show ?thesis
      using step h sk(2,4) f'(3,4) by auto
  qed
qed

lemma get_buffer_unread:
  assumes "rd_ok f" "n \<le> length (unread f)"
  shows "\<exists>f'. qemu_get_buffer f n = Inr (take n (unread f), f') \<and> rd_ok f' \<and> unread f' = drop n (unread f) \<and>
     last_error f' = last_error f"
  using get_buffer_loop_unread [OF assms, of "[]"] by (simp add: qemu_get_buffer_def)

lemma get_buffer_loop_end:
  assumes "rd_ok f" "unread f = []" "0 < n"
  shows "\<exists>f'. get_buffer_loop f n acc = Inr (acc, f') \<and>
     last_error f' = (if last_error f = 0 then - int EIO else last_error f)"
proof -
  have empty: "buf_size f = buf_index f"
    using assms by (auto simp: unread_def buffered_def rd_ok_def)
  then obtain received f' where fill: "qemu_fill_buffer f = Inr (received, f')" "unread f' = []"
    "0 < received \<and> buf_size f' > buf_index f' \<or>
     received = 0 \<and> last_error f' = (if last_error f = 0 then - int EIO else last_error f)"
    using fill_buffer_unread [OF assms(1)] assms(2) by (auto simp: IO_BUF_SIZE_def)
  then have none: "received = 0" "last_error f' = (if last_error f = 0 then - int EIO else last_error f)"
    by (auto simp: unread_def buffered_def)
  then have "peek_loop f (min n IO_BUF_SIZE) 0 = Inr (buf_index f, 0, f')"
    using assms(3) empty fill(1) by (subst peek_loop.simps) (simp add: peek_pending_def IO_BUF_SIZE_def)
  then have "qemu_peek_buffer f (min n IO_BUF_SIZE) 0 = Inr (0, 0, f')"
    using assms(1) by (simp add: qemu_peek_buffer_def rd_ok_def IO_BUF_SIZE_def)
  then show ?thesis
    using assms(3) none(2) by (subst get_buffer_loop.simps) simp
qed

lemma get_buffer_end:
  assumes "rd_ok f" "unread f = []"
  shows "\<exists>f'. qemu_get_buffer f n = Inr ([], f')"
  using get_buffer_loop_end [OF assms, of n "[]"]
  by (cases "n = 0") (auto simp: qemu_get_buffer_def get_buffer_loop.simps [of f 0])

text \<open>
  A read of more than there is, when the pending bytes are all in the buffer behind some
  that were read: the fill moves them to the start of the buffer, and they are copied from
  where they were before.
\<close>

lemma moved_bytes:
  assumes "k = buf_size f - buf_index f" "buf_index f < k"
  shows "map (io_buf (buf_compact f)) [buf_index f..<buf_index f + k] =
    drop (buf_index f) (buffered f) @ drop (k - buf_index f) (buffered f)"
  using assms
  by (intro nth_equalityI) (auto simp: buffered_def buf_compact_def Let_def nth_append add.commute add.left_commute)

lemma get_buffer_short:
  assumes ok: "rd_ok f" and all: "left (opaque f) = []" and i: "0 < buf_index f"
    and k: "k = buf_size f - buf_index f" "buf_index f < k" "k < n" and err: "last_error f = 0"
  shows "\<exists>f'. qemu_get_buffer f n =
       Inr (drop (buf_index f) (unread f) @ drop (k - buf_index f) (unread f), f') \<and> last_error f' = - int EIO"
proof -
  have sz: "k < min n IO_BUF_SIZE"
    using ok i k by (auto simp: rd_ok_def)
  let ?c = "buf_compact f"
  obtain s where g: "g (opaque f) (pos f) (IO_BUF_SIZE - k) = Inr (Inr [], s)" "source_ok s" "left s = []"
    using gives [of "opaque f" "IO_BUF_SIZE - k" "pos f"] ok sz all by (fastforce simp: rd_ok_def)
  let ?f = "qemu_file_set_error (?c\<lparr>opaque := s\<rparr>) (- int EIO)"
  have f: "buf_index ?f = 0" "buf_size ?f = k" "io_buf ?f = io_buf ?c" "opaque ?f = s" "last_error ?f = - int EIO"
    using k(1) err by (simp_all add: qemu_file_set_error_def)
  have "qemu_fill_buffer f = Inr (0, ?f)"
    using ok g(1) k(1) by (simp add: qemu_fill_buffer_def rd_ok_def Let_def fill_result_def)
  then have "peek_loop f (min n IO_BUF_SIZE) 0 = Inr (buf_index f, int k, ?f)"
    using sz k by (subst peek_loop.simps) (auto simp: peek_pending_def)
  then have "qemu_peek_buffer f (min n IO_BUF_SIZE) 0 = Inr (k, buf_index f, ?f)"
    using ok sz k by (auto simp: qemu_peek_buffer_def rd_ok_def IO_BUF_SIZE_def min_def)
  then have loop: "qemu_get_buffer f n = get_buffer_loop (qemu_file_skip ?f k) (n - k)
      (map (io_buf ?c) [buf_index f..<buf_index f + k])"
    unfolding qemu_get_buffer_def using k f(3) by (subst get_buffer_loop.simps) auto
  let ?e = "qemu_file_skip ?f k"
  have e: "rd_ok ?e" "unread ?e = []"
    using ok f g(2,3) k by (auto simp: rd_ok_def unread_def buffered_def qemu_file_skip_def qemu_file_set_error_def
        qemu_file_is_writable_def)
  have "0 < n - k" "last_error ?e = - int EIO"
    using k(3) f by (simp_all add: qemu_file_skip_def)
  moreover have "buffered f = unread f"
    using all by (simp add: unread_def)
  ultimately show ?thesis
    using get_buffer_loop_end [OF e, of "n - k"] moved_bytes [OF k(1,2)] unfolding loop by auto
qed

text \<open>
  \<open>gets g bs v\<close>: on every well formed stream that goes on with \<open>bs\<close> the operation returns
  \<open>v\<close>, consumes \<open>bs\<close> and sets no error.
\<close>

definition gets :: "('s QEMUFile \<Rightarrow> ('a \<times> 's QEMUFile) res) \<Rightarrow> u8 list \<Rightarrow> 'a \<Rightarrow> bool" where
  "gets h bs v \<longleftrightarrow> (\<forall>f rest. rd_ok f \<longrightarrow> unread f = bs @ rest \<longrightarrow>
     (\<exists>f'. h f = Inr (v, f') \<and> rd_ok f' \<and> unread f' = rest \<and> last_error f' = last_error f))"

lemma getsD:
  assumes "gets h bs v" "rd_ok f" "unread f = bs @ rest"
  shows "\<exists>f'. h f = Inr (v, f') \<and> rd_ok f' \<and> unread f' = rest \<and> last_error f' = last_error f"
  using assms by (simp add: gets_def)

lemma gets_return: "gets (\<lambda>f. Inr (v, f)) [] v"
  by (simp add: gets_def)

lemma gets_bind:
  assumes "gets h bs v" "gets (k v) cs w"
  shows "gets (\<lambda>f. rbind (h f) (\<lambda>(x, f). k x f)) (bs @ cs) w"
  unfolding gets_def
proof (intro allI impI)
  fix f rest assume "rd_ok f" "unread f = (bs @ cs) @ rest"
  then obtain f1 where f1: "h f = Inr (v, f1)" "rd_ok f1" "unread f1 = cs @ rest" "last_error f1 = last_error f"
    using getsD [OF assms(1), of f "cs @ rest"] by auto
  then obtain f2 where "k v f1 = Inr (w, f2)" "rd_ok f2" "unread f2 = rest" "last_error f2 = last_error f1"
    using getsD [OF assms(2)] by blast
  with f1 show "\<exists>f'. rbind (h f) (\<lambda>(x, f). k x f) = Inr (w, f') \<and> rd_ok f' \<and> unread f' = rest \<and>
      last_error f' = last_error f" by simp
qed

lemma gets_map:
  assumes "gets h bs v"
  shows "gets (\<lambda>f. rbind (h f) (\<lambda>(x, f). Inr (k x, f))) bs (k v)"
  unfolding gets_def
proof (intro allI impI)
  fix f rest assume "rd_ok f" "unread f = bs @ rest"
  then show "\<exists>f'. rbind (h f) (\<lambda>(x, f). Inr (k x, f)) = Inr (k v, f') \<and> rd_ok f' \<and> unread f' = rest \<and>
      last_error f' = last_error f"
    using getsD [OF assms] by fastforce
qed

lemma gets_buffer: "gets (\<lambda>f. qemu_get_buffer f (length bs)) bs bs"
  unfolding gets_def
proof (intro allI impI)
  fix f rest assume "rd_ok f" "unread f = bs @ rest"
  then show "\<exists>f'. qemu_get_buffer f (length bs) = Inr (bs, f') \<and> rd_ok f' \<and> unread f' = rest \<and>
      last_error f' = last_error f"
    using get_buffer_unread [of f "length bs"] by auto
qed

lemma gets_be16: "gets qemu_get_be16 (be16 v) (ucast v)"
  unfolding gets_def qemu_get_be16_def
proof (intro allI impI)
  fix f rest assume "rd_ok f" "unread f = be16 v @ rest"
  then show "\<exists>f'. rbind (qemu_get_buffer f 2) (\<lambda>(b, f). if length b < 2 then Inl Uninit
      else Inr (swap_endianness_16 (from_le16 b), f)) = Inr (ucast v, f') \<and> rd_ok f' \<and> unread f' = rest \<and>
      last_error f' = last_error f"
    using getsD [OF gets_buffer [of "be16 v"]] by fastforce
qed

lemma gets_be32: "gets qemu_get_be32 (be32 v) v"
  unfolding gets_def qemu_get_be32_def
proof (intro allI impI)
  fix f rest assume "rd_ok f" "unread f = be32 v @ rest"
  then show "\<exists>f'. rbind (qemu_get_buffer f 4) (\<lambda>(b, f). if length b < 4 then Inl Uninit
      else Inr (swap_endianness_32 (from_le32 b), f)) = Inr (v, f') \<and> rd_ok f' \<and> unread f' = rest \<and>
      last_error f' = last_error f"
    using getsD [OF gets_buffer [of "be32 v"]] by fastforce
qed

lemma gets_be64: "gets qemu_get_be64 (be64 v) v"
  unfolding gets_def qemu_get_be64_def
proof (intro allI impI)
  fix f rest assume "rd_ok f" "unread f = be64 v @ rest"
  then show "\<exists>f'. rbind (qemu_get_buffer f 8) (\<lambda>(b, f). if length b < 8 then Inl Uninit
      else Inr (swap_endianness_64 (from_le64 b), f)) = Inr (v, f') \<and> rd_ok f' \<and> unread f' = rest \<and>
      last_error f' = last_error f"
    using getsD [OF gets_buffer [of "be64 v"]] by fastforce
qed

lemma gets_byte: "gets qemu_get_byte [b] b"
  unfolding gets_def
proof (intro allI impI)
  fix f rest assume ok: "rd_ok f" and u: "unread f = [b] @ rest"
  obtain f1 where f1: "qemu_peek_byte f 0 = Inr (b, f1)" "rd_ok f1" "unread f1 = b # rest" "buf_index f1 < buf_size f1"
    "last_error f1 = last_error f"
  proof (cases "buf_index f < buf_size f")
    case True
    then have "[buf_index f..<buf_size f] = buf_index f # [Suc (buf_index f)..<buf_size f]"
      by (rule upt_conv_Cons)
    then have "io_buf f (buf_index f) = b"
      using u by (simp add: unread_def buffered_def)
    then show ?thesis
      using True ok u that [of f] by (simp add: qemu_peek_byte_def rd_ok_def IO_BUF_SIZE_def)
  next
    case False
    then have empty: "buf_size f - buf_index f = 0" "buffered f = []" by (simp_all add: buffered_def)
    obtain received f1 where fill: "qemu_fill_buffer f = Inr (received, f1)" "rd_ok f1" "unread f1 = unread f" "buf_index f1 = 0"
      "0 < received \<and> buf_size f1 - buf_index f1 > buf_size f - buf_index f \<and> last_error f1 = last_error f \<or>
       received = 0 \<and> unread f = buffered f \<and> unread f1 = buffered f1"
      using fill_buffer_unread [OF ok] empty(1) by (auto simp: IO_BUF_SIZE_def)
    then have pos: "0 < buf_size f1" "last_error f1 = last_error f"
      using u empty by auto
    then have "[buf_index f1..<buf_size f1] = 0 # [Suc 0..<buf_size f1]"
      using fill(4) upt_conv_Cons [of 0 "buf_size f1"] by simp
    then have "io_buf f1 0 = b"
      using u fill(3) by (simp add: unread_def buffered_def)
    then show ?thesis
      using False ok fill(1-4) pos u that [of f1] by (simp add: qemu_peek_byte_def rd_ok_def IO_BUF_SIZE_def)
  qed
  then show "\<exists>f'. qemu_get_byte f = Inr (b, f') \<and> rd_ok f' \<and> unread f' = rest \<and> last_error f' = last_error f"
    using skip_unread [OF f1(2), of 1] by (simp add: qemu_get_byte_def)
qed

lemma gets_counted_string:
  assumes "length str < 256"
  shows "\<exists>f'. rd_ok f \<longrightarrow> unread f = of_nat (length str) # str @ rest \<longrightarrow>
     qemu_get_counted_string f = Inr (length str, str, f') \<and> rd_ok f' \<and> unread f' = rest \<and> last_error f' = last_error f"
proof (cases "rd_ok f \<and> unread f = of_nat (length str) # str @ rest")
  case True
  then obtain f1 where f1: "qemu_get_byte f = Inr (of_nat (length str), f1)" "rd_ok f1" "unread f1 = str @ rest"
    "last_error f1 = last_error f"
    using getsD [OF gets_byte, of f "of_nat (length str)" "str @ rest"] by auto
  then obtain f2 where "qemu_get_buffer f1 (length str) = Inr (str, f2)" "rd_ok f2" "unread f2 = rest"
    "last_error f2 = last_error f1"
    using getsD [OF gets_buffer] by blast
  moreover have "unat (of_nat (length str) :: u8) = length str"
    using assms by (simp add: unat_of_nat)
  ultimately show ?thesis
    using f1 by (auto simp: qemu_get_counted_string_def)
qed blast

end

end
