(* ===== verification/Guest_Memory.thy ===== *)
theory Guest_Memory
  imports Qemu_File Interfaces
begin

text \<open>
  What several devices share: guest physical memory as \<^verbatim>\<open>cpu_physical_memory_read\<close> and
  \<^verbatim>\<open>cpu_physical_memory_write\<close> see it where it is RAM, the layout of structures in it, and
  the running of sequences of accesses.
\<close>

section \<open>Physical memory\<close>

type_synonym phys_mem = "u64 \<Rightarrow> u8"

definition cpu_physical_memory_write :: "phys_mem \<Rightarrow> u64 \<Rightarrow> u8 list \<Rightarrow> phys_mem" where
  "cpu_physical_memory_write m addr bs =
     (\<lambda>x. if unat (x - addr) < length bs then bs ! unat (x - addr) else m x)"

definition cpu_physical_memory_read :: "phys_mem \<Rightarrow> u64 \<Rightarrow> nat \<Rightarrow> u8 list" where
  "cpu_physical_memory_read m addr n = map (\<lambda>i. m (addr + of_nat i)) [0..<n]"

lemma length_phys_read [simp]: "length (cpu_physical_memory_read m a n) = n"
  by (simp add: cpu_physical_memory_read_def)

lemma unat_of_nat_64: "i < 2 ^ 64 \<Longrightarrow> unat (of_nat i :: u64) = i"
  by (simp add: unat_of_nat)

lemma phys_read_write [simp]:
  assumes "length bs = n" "n \<le> 2 ^ 64"
  shows "cpu_physical_memory_read (cpu_physical_memory_write m a bs) a n = bs"
  using assms unat_of_nat_64
  by (auto simp: cpu_physical_memory_read_def cpu_physical_memory_write_def intro!: nth_equalityI)

lemma phys_read_append:
  "cpu_physical_memory_read m a (n + k) = cpu_physical_memory_read m a n @ cpu_physical_memory_read m (a + of_nat n) k"
  by (rule nth_equalityI) (auto simp: cpu_physical_memory_read_def nth_append algebra_simps)

text \<open>Ranges that do not touch, modulo the size of the address space.\<close>

definition apart :: "u64 \<Rightarrow> nat \<Rightarrow> u64 \<Rightarrow> nat \<Rightarrow> bool" where
  "apart a n b k \<longleftrightarrow> (\<forall>i < k. n \<le> unat (b + of_nat i - a))"

lemma phys_read_other:
  assumes "apart a (length bs) b k"
  shows "cpu_physical_memory_read (cpu_physical_memory_write m a bs) b k = cpu_physical_memory_read m b k"
  using assms
  by (auto simp: cpu_physical_memory_read_def cpu_physical_memory_write_def apart_def not_less [symmetric])

end
