(* ===== verification/Channel_Buffer.thy ===== *)
theory Channel_Buffer
  imports Qemu_File
begin

text \<open>
  The memory backend of the migration stream: the I/O vector helpers of
  \<^verbatim>\<open>util/iov.c\<close>, the buffer channel of \<^verbatim>\<open>io/channel-buffer.c\<close> and the adapter from
  channels to streams, \<^verbatim>\<open>migration/qemu-file-channel.c\<close>. It provides both contracts of the
  stream, so that what is saved through it is what is loaded.
\<close>

section \<open>I/O vectors\<close>

text \<open>A vector is the list of the byte strings its entries point to.\<close>

fun iov_copy :: "nat \<Rightarrow> u8 list list \<Rightarrow> nat \<Rightarrow> nat \<Rightarrow> u8 list list res" where
  "iov_copy cnt [] offset bytes = assert_then (offset = 0) (Inr [])"
| "iov_copy cnt (c # cs) offset bytes =
    (if cnt = 0 \<or> (offset = 0 \<and> bytes = 0) then assert_then (offset = 0) (Inr [])
     else if offset \<ge> length c then iov_copy cnt cs (offset - length c) bytes
     else let len = min bytes (length c - offset) in
          rbind (iov_copy (cnt - 1) cs 0 (bytes - len)) (\<lambda>r. Inr (take len (drop offset c) # r)))"

fun iov_discard_front :: "u8 list list \<Rightarrow> nat \<Rightarrow> u8 list list" where
  "iov_discard_front [] bytes = []"
| "iov_discard_front (c # cs) bytes =
    (if length c > bytes then drop bytes c # cs else iov_discard_front cs (bytes - length c))"

section \<open>The buffer channel\<close>

text \<open>\<open>fresh\<close> is what memory obtained from the allocator contains.\<close>

record QIOChannelBuffer =
  chan_data :: "u8 list"
  chan_usage :: nat
  chan_offset :: nat
  fresh :: u8

abbreviation chan_capacity :: "QIOChannelBuffer \<Rightarrow> nat" where
  "chan_capacity c \<equiv> length (chan_data c)"

definition qio_channel_buffer_new :: "u8 \<Rightarrow> nat \<Rightarrow> QIOChannelBuffer" where
  "qio_channel_buffer_new junk capacity =
     \<lparr>chan_data = replicate capacity 0, chan_usage = 0, chan_offset = 0, fresh = junk\<rparr>"

fun readv_loop :: "QIOChannelBuffer \<Rightarrow> nat list \<Rightarrow> (u8 list list \<times> QIOChannelBuffer) res" where
  "readv_loop c [] = Inr ([], c)"
| "readv_loop c (want # wants) =
    (if chan_offset c \<ge> chan_usage c then Inr ([], c)
     else let want = (if chan_offset c + want > chan_usage c then chan_usage c - chan_offset c else want) in
          rbind (memcpy_from (chan_data c) (chan_offset c) want) (\<lambda>d.
          rbind (readv_loop (c\<lparr>chan_offset := chan_offset c + want\<rparr>) wants) (\<lambda>(ds, c). Inr (d # ds, c))))"

definition qio_channel_buffer_readv :: "QIOChannelBuffer \<Rightarrow> nat list \<Rightarrow> (u8 list list \<times> QIOChannelBuffer) res" where
  "qio_channel_buffer_readv c wants = readv_loop c wants"

fun writev_loop :: "QIOChannelBuffer \<Rightarrow> u8 list list \<Rightarrow> QIOChannelBuffer res" where
  "writev_loop c [] = Inr c"
| "writev_loop c (d # ds) =
     rbind (memcpy_to (chan_data c) (chan_usage c) d) (\<lambda>m.
       writev_loop (c\<lparr>chan_data := m, chan_usage := chan_usage c + length d, chan_offset := chan_offset c + length d\<rparr>) ds)"

definition qio_channel_buffer_writev :: "QIOChannelBuffer \<Rightarrow> u8 list list \<Rightarrow> (int \<times> QIOChannelBuffer) res" where
  "qio_channel_buffer_writev c ds =
    (let towrite = sum_list (map length ds);
         c = (if chan_offset c + towrite > chan_capacity c
              then c\<lparr>chan_data := chan_data c @ replicate (chan_offset c + towrite - chan_capacity c) (fresh c)\<rparr>
              else c) in
     rbind (if chan_offset c > chan_usage c
            then rbind (memcpy_to (chan_data c) 0 (replicate (chan_offset c - chan_usage c) 0)) (\<lambda>m.
                   Inr (c\<lparr>chan_data := m, chan_usage := chan_offset c\<rparr>))
            else Inr c) (\<lambda>c.
     rbind (writev_loop c ds) (\<lambda>c. Inr (int towrite, c))))"

definition qio_channel_buffer_seek :: "QIOChannelBuffer \<Rightarrow> nat \<Rightarrow> QIOChannelBuffer" where
  "qio_channel_buffer_seek c offset = c\<lparr>chan_offset := offset\<rparr>"

definition qio_channel_buffer_close :: "QIOChannelBuffer \<Rightarrow> int \<times> QIOChannelBuffer" where
  "qio_channel_buffer_close c = (0, c\<lparr>chan_data := [], chan_usage := 0, chan_offset := 0\<rparr>)"

section \<open>Channels as backends\<close>

text \<open>
  The adapter calls a channel until everything is written, waiting when the channel
  would block (\<^verbatim>\<open>QIO_CHANNEL_ERR_BLOCK\<close>, -2); \<open>calls\<close> bounds the number of calls.
\<close>

fun channel_writev_loop ::
  "('c \<Rightarrow> u8 list list \<Rightarrow> (int \<times> 'c) res) \<Rightarrow> nat \<Rightarrow> 'c \<Rightarrow> u8 list list \<Rightarrow> int \<Rightarrow> (int \<times> 'c) res" where
  "channel_writev_loop io_writev 0 c cs done = (if cs = [] then Inr (done, c) else Inl Hang)"
| "channel_writev_loop io_writev (Suc calls) c cs done =
    (if cs = [] then Inr (done, c)
     else rbind (io_writev c cs) (\<lambda>(len, c).
       if len = - 2 then channel_writev_loop io_writev calls c cs done
       else if len < 0 then Inr (- int EIO, c)
       else channel_writev_loop io_writev calls c (iov_discard_front cs (nat len)) (done + len)))"

definition channel_writev_buffer ::
  "('c \<Rightarrow> u8 list list \<Rightarrow> (int \<times> 'c) res) \<Rightarrow> nat \<Rightarrow> 'c \<Rightarrow> u8 list list \<Rightarrow> int \<Rightarrow> (int \<times> 'c) res" where
  "channel_writev_buffer io_writev calls c ds p =
     rbind (iov_copy (length ds) ds 0 (sum_list (map length ds))) (\<lambda>cs.
       channel_writev_loop io_writev calls c cs 0)"

text \<open>A channel that is read gives what it stored, or \<open>Inl e\<close> for a result of \<open>-e\<close>.\<close>

fun channel_get_buffer ::
  "('c \<Rightarrow> nat \<Rightarrow> ((nat + u8 list) \<times> 'c) res) \<Rightarrow> nat \<Rightarrow> 'c \<Rightarrow> int \<Rightarrow> nat \<Rightarrow> ((nat + u8 list) \<times> 'c) res" where
  "channel_get_buffer io_read 0 c p n = Inl Hang"
| "channel_get_buffer io_read (Suc calls) c p n =
     rbind (io_read c n) (\<lambda>(r, c).
       case r of
         Inr bs \<Rightarrow> Inr (Inr bs, c)
       | Inl e \<Rightarrow> if e = 0 then Inr (Inr [], c) else if e = 2 then channel_get_buffer io_read calls c p n else Inr (Inl EIO, c))"

definition buffer_channel_read :: "QIOChannelBuffer \<Rightarrow> nat \<Rightarrow> ((nat + u8 list) \<times> QIOChannelBuffer) res" where
  "buffer_channel_read c n = rbind (qio_channel_buffer_readv c [n]) (\<lambda>(ds, c). Inr (Inr (concat ds), c))"

text \<open>A buffer channel never blocks and takes everything at once: one call is enough.\<close>

definition buffer_get :: "QIOChannelBuffer \<Rightarrow> int \<Rightarrow> nat \<Rightarrow> ((nat + u8 list) \<times> QIOChannelBuffer) res" where
  "buffer_get = channel_get_buffer buffer_channel_read 1"

definition buffer_writev :: "QIOChannelBuffer \<Rightarrow> u8 list list \<Rightarrow> int \<Rightarrow> (int \<times> QIOChannelBuffer) res" where
  "buffer_writev = channel_writev_buffer qio_channel_buffer_writev 1"

definition channel_input_ops :: "QIOChannelBuffer QEMUFileOps" where
  "channel_input_ops =
     \<lparr>writev_buffer = None, get_buffer = Some buffer_get,
      close_op = Some (\<lambda>c. (0, snd (qio_channel_buffer_close c)))\<rparr>"

definition channel_output_ops :: "QIOChannelBuffer QEMUFileOps" where
  "channel_output_ops =
     \<lparr>writev_buffer = Some buffer_writev, get_buffer = None,
      close_op = Some (\<lambda>c. (0, snd (qio_channel_buffer_close c)))\<rparr>"

definition qemu_fopen_channel_input :: "QIOChannelBuffer \<Rightarrow> (nat \<Rightarrow> u8) \<Rightarrow> QIOChannelBuffer QEMUFile" where
  "qemu_fopen_channel_input c mem = qemu_fopen_ops c channel_input_ops mem"

definition qemu_fopen_channel_output :: "QIOChannelBuffer \<Rightarrow> (nat \<Rightarrow> u8) \<Rightarrow> QIOChannelBuffer QEMUFile" where
  "qemu_fopen_channel_output c mem = qemu_fopen_ops c channel_output_ops mem"

section \<open>The vector helpers\<close>

lemma iov_copy_all:
  assumes "length cs \<le> cnt" "bytes = sum_list (map length cs)"
  shows "iov_copy cnt cs 0 bytes = Inr (filter (\<lambda>c. c \<noteq> []) cs)"
  using assms
proof (induction cs arbitrary: cnt bytes)
  case (Cons c cs)
  show ?case
  proof (cases "c = []")
    case True
    have "filter (\<lambda>c. c \<noteq> []) cs = []" if "sum_list (map length cs) = 0"
      using that by (auto simp: filter_empty_conv)
    then show ?thesis
      using Cons.IH [of cnt bytes] Cons.prems True by auto
  next
    case False
    then show ?thesis
      using Cons.IH [of "cnt - 1" "bytes - length c"] Cons.prems by (auto simp: Let_def)
  qed
qed simp

lemma concat_filter_nonempty: "concat (filter (\<lambda>c. c \<noteq> []) cs) = concat cs"
  by (induction cs) auto

lemma iov_discard_front_concat:
  "n \<le> length (concat cs) \<Longrightarrow> concat (iov_discard_front cs n) = drop n (concat cs)"
  by (induction cs arbitrary: n) auto

lemma iov_discard_front_all: "iov_discard_front cs (length (concat cs)) = []"
  by (induction cs) auto

section \<open>The buffer channel provides both contracts\<close>

definition chan_sink_inv :: "QIOChannelBuffer \<Rightarrow> bool" where
  "chan_sink_inv c \<longleftrightarrow> chan_offset c = chan_usage c \<and> chan_usage c \<le> chan_capacity c"

definition chan_contents :: "QIOChannelBuffer \<Rightarrow> u8 list" where
  "chan_contents c = take (chan_usage c) (chan_data c)"

definition chan_source_inv :: "QIOChannelBuffer \<Rightarrow> bool" where
  "chan_source_inv c \<longleftrightarrow> chan_offset c \<le> chan_usage c \<and> chan_usage c \<le> chan_capacity c"

definition chan_rest :: "QIOChannelBuffer \<Rightarrow> u8 list" where
  "chan_rest c = drop (chan_offset c) (chan_contents c)"

lemma writev_loop_appends:
  assumes "chan_sink_inv c" "chan_usage c + length (concat ds) \<le> chan_capacity c"
  shows "\<exists>c'. writev_loop c ds = Inr c' \<and> chan_sink_inv c' \<and> chan_contents c' = chan_contents c @ concat ds"
  using assms
proof (induction ds arbitrary: c)
  case Nil
  then show ?case by simp
next
  case (Cons d ds)
  let ?m = "take (chan_usage c) (chan_data c) @ d @ drop (chan_usage c + length d) (chan_data c)"
  let ?c = "c\<lparr>chan_data := ?m, chan_usage := chan_usage c + length d, chan_offset := chan_offset c + length d\<rparr>"
  have "length ?m = chan_capacity c" using Cons.prems(2) by simp
  then have inv: "chan_sink_inv ?c" "chan_usage ?c + length (concat ds) \<le> chan_capacity ?c"
    using Cons.prems by (simp_all add: chan_sink_inv_def)
  have "chan_contents ?c = chan_contents c @ d"
    using Cons.prems(2) by (simp add: chan_contents_def)
  moreover have "writev_loop c (d # ds) = writev_loop ?c ds"
    using Cons.prems(2) by (simp add: memcpy_to_def)
  ultimately show ?case
    using Cons.IH [OF inv] by auto
qed

lemma sum_list_length_concat: "sum_list (map length ds) = length (concat ds)"
  by (induction ds) simp_all

lemma buffer_writev_appends:
  assumes "chan_sink_inv c"
  shows "\<exists>c'. qio_channel_buffer_writev c ds = Inr (int (length (concat ds)), c') \<and> chan_sink_inv c' \<and>
     chan_contents c' = chan_contents c @ concat ds"
proof -
  let ?n = "length (concat ds)"
  let ?c = "if chan_offset c + ?n > chan_capacity c
    then c\<lparr>chan_data := chan_data c @ replicate (chan_offset c + ?n - chan_capacity c) (fresh c)\<rparr> else c"
  have c: "chan_sink_inv ?c" "chan_usage ?c + ?n \<le> chan_capacity ?c" "chan_contents ?c = chan_contents c" "\<not> chan_offset ?c > chan_usage ?c"
    using assms by (auto simp: chan_sink_inv_def chan_contents_def)
  obtain c' where c': "writev_loop ?c ds = Inr c'" "chan_sink_inv c'" "chan_contents c' = chan_contents ?c @ concat ds"
    using writev_loop_appends [OF c(1,2)] by blast
  have "qio_channel_buffer_writev c ds = Inr (int ?n, c')"
    unfolding qio_channel_buffer_writev_def Let_def sum_list_length_concat using c(4) c'(1)
    by (simp only: if_False rbind_simps)
  then show ?thesis
    using c' c(3) by auto
qed

interpretation chan: file_sink buffer_writev chan_contents chan_sink_inv
proof unfold_locales
  fix s p and chunks :: "u8 list list"
  assume "chan_sink_inv s"
  let ?cs = "filter (\<lambda>c. c \<noteq> []) chunks"
  have copy: "iov_copy (length chunks) chunks 0 (sum_list (map length chunks)) = Inr ?cs"
    by (rule iov_copy_all) simp_all
  obtain c' where c': "qio_channel_buffer_writev s ?cs = Inr (int (length (concat ?cs)), c')" "chan_sink_inv c'"
    "chan_contents c' = chan_contents s @ concat ?cs"
    using buffer_writev_appends [OF \<open>chan_sink_inv s\<close>] by blast
  have "channel_writev_loop qio_channel_buffer_writev 1 s ?cs 0 = Inr (int (length (concat chunks)), c')"
    if "?cs \<noteq> []"
    using that c'(1) iov_discard_front_all [of ?cs] by (simp add: concat_filter_nonempty)
  moreover have "concat chunks = []" if "?cs = []"
    using that concat_filter_nonempty [of chunks] by simp
  ultimately show "\<exists>s'. buffer_writev s chunks p =
      Inr (int (length (concat chunks)), s') \<and> chan_sink_inv s' \<and> chan_contents s' = chan_contents s @ concat chunks"
    using copy c'(2,3) \<open>chan_sink_inv s\<close> concat_filter_nonempty [of chunks]
    by (cases "?cs = []") (auto simp: buffer_writev_def channel_writev_buffer_def)
qed

interpretation chan: file_source buffer_get chan_rest chan_source_inv
proof unfold_locales
  fix s p and n :: nat
  assume inv: "chan_source_inv s" and n: "0 < n"
  let ?w = "if chan_offset s + n > chan_usage s then chan_usage s - chan_offset s else n"
  show "\<exists>bs s'. buffer_get s p n = Inr (Inr bs, s') \<and> chan_source_inv s' \<and>
      length bs \<le> n \<and> chan_rest s = bs @ chan_rest s' \<and> (bs = [] \<longrightarrow> chan_rest s = [])"
  proof (cases "chan_offset s < chan_usage s")
    case True
    let ?bs = "take ?w (drop (chan_offset s) (chan_data s))" and ?s = "s\<lparr>chan_offset := chan_offset s + ?w\<rparr>"
    have w: "?w \<noteq> 0" "chan_offset s + ?w \<le> chan_usage s" "?w \<le> n" using True n by auto
    have "memcpy_from (chan_data s) (chan_offset s) ?w = Inr ?bs"
      using w(2) inv by (simp add: memcpy_from_def chan_source_inv_def)
    then have "buffer_get s p n = Inr (Inr ?bs, ?s)"
      using True by (simp add: buffer_get_def buffer_channel_read_def qio_channel_buffer_readv_def Let_def)
    moreover have "chan_rest s = ?bs @ chan_rest ?s"
    proof -
      have "chan_rest s = take ?w (chan_rest s) @ drop ?w (chan_rest s)" by simp
      moreover have "take ?w (chan_rest s) = ?bs"
        using w(2) inv by (simp add: chan_rest_def chan_contents_def chan_source_inv_def drop_take min.absorb1)
      moreover have "drop ?w (chan_rest s) = chan_rest ?s"
        by (simp add: chan_rest_def chan_contents_def add.commute)
      ultimately show ?thesis by simp
    qed
    moreover have "chan_source_inv ?s" using inv w(2) by (simp add: chan_source_inv_def)
    moreover have "length ?bs \<le> n" using w(3) by simp
    moreover have "?bs \<noteq> []" using w(1,2) inv True by (auto simp: chan_source_inv_def)
    ultimately show ?thesis by blast
  next
    case False
    then show ?thesis
      using inv by (simp add: buffer_get_def buffer_channel_read_def qio_channel_buffer_readv_def chan_rest_def chan_contents_def chan_source_inv_def)
  qed
qed

section \<open>Properties\<close>

text \<open>A script of what is put, and the same script read back.\<close>

datatype item = Byte u8 | Be16 u16 | Be32 u32 | Be64 u64 | Bytes "u8 list" | Counted "u8 list"

fun put_item :: "'s QEMUFile \<Rightarrow> item \<Rightarrow> 's QEMUFile res" where
  "put_item f (Byte v) = qemu_put_byte f v"
| "put_item f (Be16 v) = qemu_put_be16 f (ucast v)"
| "put_item f (Be32 v) = qemu_put_be32 f v"
| "put_item f (Be64 v) = qemu_put_be64 f v"
| "put_item f (Bytes bs) = qemu_put_buffer f bs"
| "put_item f (Counted bs) = qemu_put_counted_string f bs"

fun get_item :: "item \<Rightarrow> 's QEMUFile \<Rightarrow> (item \<times> 's QEMUFile) res" where
  "get_item (Byte v) f = rbind (qemu_get_byte f) (\<lambda>(x, f). Inr (Byte x, f))"
| "get_item (Be16 v) f = rbind (qemu_get_be16 f) (\<lambda>(x, f). Inr (Be16 (ucast x), f))"
| "get_item (Be32 v) f = rbind (qemu_get_be32 f) (\<lambda>(x, f). Inr (Be32 x, f))"
| "get_item (Be64 v) f = rbind (qemu_get_be64 f) (\<lambda>(x, f). Inr (Be64 x, f))"
| "get_item (Bytes bs) f = rbind (qemu_get_buffer f (length bs)) (\<lambda>(x, f). Inr (Bytes x, f))"
| "get_item (Counted bs) f = rbind (qemu_get_counted_string f) (\<lambda>(n, x, f). Inr (Counted (take n x), f))"

fun put_items :: "'s QEMUFile \<Rightarrow> item list \<Rightarrow> 's QEMUFile res" where
  "put_items f [] = Inr f"
| "put_items f (x # xs) = rbind (put_item f x) (\<lambda>f. put_items f xs)"

fun get_items :: "item list \<Rightarrow> 's QEMUFile \<Rightarrow> (item list \<times> 's QEMUFile) res" where
  "get_items [] f = Inr ([], f)"
| "get_items (x # xs) f = rbind (get_item x f) (\<lambda>(y, f). rbind (get_items xs f) (\<lambda>(ys, f). Inr (y # ys, f)))"

fun encoded :: "item \<Rightarrow> u8 list" where
  "encoded (Byte v) = [v]"
| "encoded (Be16 v) = be16 v"
| "encoded (Be32 v) = be32 v"
| "encoded (Be64 v) = be64 v"
| "encoded (Bytes bs) = bs"
| "encoded (Counted bs) = of_nat (length (cstr bs)) # cstr bs"

text \<open>A string arrives up to its first zero byte.\<close>

fun arrives :: "item \<Rightarrow> item" where
  "arrives (Counted bs) = Counted (cstr bs)"
| "arrives x = x"

fun item_ok :: "item \<Rightarrow> bool" where
  "item_ok (Counted bs) \<longleftrightarrow> length (cstr bs) < 256"
| "item_ok _ \<longleftrightarrow> True"

lemma puts_item: "item_ok x \<Longrightarrow> chan.puts (\<lambda>f. put_item f x) (encoded x)"
proof (induction x)
  case (Be16 a)
  then show ?case
    using chan.puts_be16 [of "ucast a"] by (simp add: ucast_up_down)
qed (simp_all add: chan.puts_byte chan.puts_be32 chan.puts_be64 chan.puts_buffer chan.puts_counted_string)

lemma puts_items: "\<forall>x \<in> set xs. item_ok x \<Longrightarrow> chan.puts (\<lambda>f. put_items f xs) (concat (map encoded xs))"
proof (induction xs)
  case Nil
  then show ?case using chan.puts_skip by simp
next
  case (Cons x xs)
  then show ?case using chan.puts_bind [OF puts_item Cons.IH] by simp
qed

lemma get_item_fun:
  "get_item (Byte v) = (\<lambda>f. rbind (qemu_get_byte f) (\<lambda>(x, f). Inr (Byte x, f)))"
  "get_item (Be16 a) = (\<lambda>f. rbind (qemu_get_be16 f) (\<lambda>(x, f). Inr (Be16 (ucast x), f)))"
  "get_item (Be32 b) = (\<lambda>f. rbind (qemu_get_be32 f) (\<lambda>(x, f). Inr (Be32 x, f)))"
  "get_item (Be64 c) = (\<lambda>f. rbind (qemu_get_be64 f) (\<lambda>(x, f). Inr (Be64 x, f)))"
  "get_item (Bytes bs) = (\<lambda>f. rbind (qemu_get_buffer f (length bs)) (\<lambda>(x, f). Inr (Bytes x, f)))"
  by (rule ext, simp)+

lemma gets_item: "item_ok x \<Longrightarrow> chan.gets (get_item x) (encoded x) (arrives x)"
proof (induction x)
  case (Be16 a)
  then show ?case
    using chan.gets_map [OF chan.gets_be16, where k = "\<lambda>x. Be16 (ucast x)"] by (simp add: get_item_fun ucast_up_down)
next
  case (Counted bs)
  then show ?case
    using chan.gets_counted_string [of "cstr bs"] unfolding chan.gets_def by fastforce
qed (use chan.gets_map [OF chan.gets_byte] chan.gets_map [OF chan.gets_be32] chan.gets_map [OF chan.gets_be64]
    chan.gets_map [OF chan.gets_buffer] in \<open>simp_all add: get_item_fun\<close>)

lemma gets_items: "\<forall>x \<in> set xs. item_ok x \<Longrightarrow> chan.gets (get_items xs) (concat (map encoded xs)) (map arrives xs)"
proof (induction xs)
  case Nil
  have "get_items [] = (\<lambda>f. Inr ([], f))" by (rule ext) simp
  then show ?case using chan.gets_return by simp
next
  case (Cons x xs)
  have "get_items (x # xs) = (\<lambda>f. rbind (get_item x f) (\<lambda>(y, f). rbind (get_items xs f) (\<lambda>(ys, f). Inr (y # ys, f))))"
    by (rule ext) simp
  then show ?case
    using Cons chan.gets_bind [where k = "\<lambda>y f. rbind (get_items xs f) (\<lambda>(ys, f). Inr (y # ys, f))",
      OF gets_item chan.gets_map [OF Cons.IH, where k = "\<lambda>ys. arrives x # ys"]] by simp
qed

lemma fopen_output: "chan_sink_inv c \<Longrightarrow> chan.wr_ok (qemu_fopen_channel_output c mem)"
  "chan.written (qemu_fopen_channel_output c mem) = chan_contents c"
  by (simp_all add: chan.wr_ok_def chan.wr_base_def chan.written_def qemu_fopen_channel_output_def qemu_fopen_ops_def
      channel_output_ops_def IO_BUF_SIZE_def MAX_IOV_SIZE_def)

lemma fopen_input: "chan_source_inv c \<Longrightarrow> chan.rd_ok (qemu_fopen_channel_input c mem)"
  "chan.unread (qemu_fopen_channel_input c mem) = chan_rest c" "last_error (qemu_fopen_channel_input c mem) = 0"
  by (simp_all add: chan.rd_ok_def chan.unread_def chan.buffered_def qemu_fopen_channel_input_def qemu_fopen_ops_def
      channel_input_ops_def qemu_file_is_writable_def)

lemma saved_is_unread:
  assumes "chan.puts save bs"
  shows "\<exists>w w'. save (qemu_fopen_channel_output (qio_channel_buffer_new junk capacity) mem) = Inr w \<and>
     qemu_fflush w = Inr w' \<and> last_error w' = 0 \<and>
     chan.rd_ok (qemu_fopen_channel_input (qio_channel_buffer_seek (opaque w') 0) mem') \<and>
     chan.unread (qemu_fopen_channel_input (qio_channel_buffer_seek (opaque w') 0) mem') = bs"
proof -
  let ?c = "qio_channel_buffer_new junk capacity"
  have c: "chan_sink_inv ?c" "chan_contents ?c = []"
    by (simp_all add: chan_sink_inv_def chan_contents_def qio_channel_buffer_new_def)
  obtain w where w: "save (qemu_fopen_channel_output ?c mem) = Inr w" "chan.wr_ok w" "chan.written w = bs"
    using assms fopen_output(1) [OF c(1)] fopen_output(2) c(2) unfolding chan.puts_def by fastforce
  then obtain w' where w': "qemu_fflush w = Inr w'" "chan.wr_ok w'" "chan_contents (opaque w') = bs"
    using chan.fflush_written [of w] unfolding chan.wr_ok_def by auto
  let ?d = "qio_channel_buffer_seek (opaque w') 0"
  have "chan_source_inv ?d" "chan_rest ?d = bs"
    using w'(2,3) by (simp_all add: chan_source_inv_def chan_rest_def chan_contents_def qio_channel_buffer_seek_def
        chan.wr_ok_def chan.wr_base_def chan_sink_inv_def)
  moreover have "last_error w' = 0"
    using w'(2) by (simp add: chan.wr_ok_def chan.wr_base_def)
  ultimately show ?thesis
    using w(1) w'(1) fopen_input by blast
qed

text \<open>
  C20. A snapshot comes back: whatever bytes, integers, blocks of any length and counted
  C strings of less than 256 bytes are put into a migration stream over a buffer channel,
  the flush succeeds, and reading the channel from its start in the same order gives the
  same values, strings up to their first zero byte, and leaves nothing, with no error on
  either stream.
\<close>

theorem stream_roundtrip:
  assumes "\<forall>x \<in> set xs. item_ok x"
  shows "\<exists>w w' r. put_items (qemu_fopen_channel_output (qio_channel_buffer_new junk capacity) mem) xs = Inr w \<and>
     qemu_fflush w = Inr w' \<and> last_error w' = 0 \<and>
     get_items xs (qemu_fopen_channel_input (qio_channel_buffer_seek (opaque w') 0) mem') = Inr (map arrives xs, r) \<and>
     last_error r = 0 \<and> (\<exists>r'. qemu_get_buffer r n = Inr ([], r'))"
proof -
  obtain w w' where w: "put_items (qemu_fopen_channel_output (qio_channel_buffer_new junk capacity) mem) xs = Inr w"
    "qemu_fflush w = Inr w'" "last_error w' = 0"
    "chan.rd_ok (qemu_fopen_channel_input (qio_channel_buffer_seek (opaque w') 0) mem')"
    "chan.unread (qemu_fopen_channel_input (qio_channel_buffer_seek (opaque w') 0) mem') = concat (map encoded xs)"
    using saved_is_unread [OF puts_items [OF assms]] by blast
  obtain r where r: "get_items xs (qemu_fopen_channel_input (qio_channel_buffer_seek (opaque w') 0) mem') =
      Inr (map arrives xs, r)"
    "chan.rd_ok r" "chan.unread r = []" "last_error r = 0"
    using chan.getsD [OF gets_items [OF assms] w(4), of "[]"] w(5) fopen_input(3) by auto
  moreover obtain r' where "qemu_get_buffer r n = Inr ([], r')"
    using chan.get_buffer_end [OF r(2,3), of n] by blast
  ultimately show ?thesis
    using w(1-3) by auto
qed

theorem stream_roundtrip_witness:
  "\<exists>w w' r. put_items (qemu_fopen_channel_output (qio_channel_buffer_new 0xcd 4) (\<lambda>_. 0))
       [Be64 0x1122334455667788, Counted [104, 105, 0, 7], Byte 7, Be16 513] = Inr w \<and>
     qemu_fflush w = Inr w' \<and> last_error w' = 0 \<and>
     get_items [Be64 0x1122334455667788, Counted [104, 105, 0, 7], Byte 7, Be16 513]
       (qemu_fopen_channel_input (qio_channel_buffer_seek (opaque w') 0) (\<lambda>_. 0)) =
       Inr ([Be64 0x1122334455667788, Counted [104, 105], Byte 7, Be16 513], r) \<and>
     last_error r = 0 \<and> (\<exists>r'. qemu_get_buffer r 1 = Inr ([], r'))"
  using stream_roundtrip [of "[Be64 0x1122334455667788, Counted [104, 105, 0, 7], Byte 7, Be16 513]"
      "0xcd" 4 "\<lambda>_. 0" "\<lambda>_. 0" 1]
  by (simp add: cstr_def)

text \<open>
  C21. A buffer channel whose offset was moved back appends at its end all the same,
  but makes room for the offset only: when the data do not fit in what is left after
  the end, the copy leaves the allocated memory.
\<close>

theorem channel_seek_back_overruns:
  assumes "chan_offset c < chan_usage c" "chan_usage c \<le> chan_capacity c" "chan_capacity c < chan_usage c + length d"
  shows "qio_channel_buffer_writev c [d] = Inl OutOfBounds"
  using assms by (auto simp: qio_channel_buffer_writev_def memcpy_to_def Let_def)

theorem channel_seek_back_overruns_witness:
  "qio_channel_buffer_writev \<lparr>chan_data = [1, 2, 3, 4], chan_usage = 4, chan_offset = 0, fresh = 0\<rparr> [[9]] =
     Inl OutOfBounds"
  by (rule channel_seek_back_overruns) simp_all

lemma first_byte_read:
  "\<exists>f. qemu_get_buffer (qemu_fopen_channel_input
      \<lparr>chan_data = [1, 2, 3], chan_usage = 3, chan_offset = 0, fresh = 0\<rparr> (\<lambda>_. 0)) 1 = Inr ([1], f) \<and>
     buf_index f = 1 \<and> last_error f = 0 \<and> chan_rest (opaque f) = [] \<and> chan.unread f = [2, 3]"
  by (simp add: qemu_fopen_channel_input_def qemu_fopen_ops_def qemu_get_buffer_def get_buffer_loop.simps
      qemu_peek_buffer_def peek_loop.simps peek_pending_def qemu_fill_buffer_def buf_compact_def fill_result_def
      qemu_file_is_writable_def IO_BUF_SIZE_def channel_input_ops_def buffer_get_def buffer_channel_read_def
      qio_channel_buffer_readv_def memcpy_from_def buf_store_def qemu_file_skip_def chan_rest_def chan_contents_def
      chan.unread_def chan.buffered_def upt_rec numeral_3_eq_3 numeral_2_eq_2)

text \<open>
  C18. A short read returns wrong bytes. The stream has some bytes behind those already read,
  all of them in its buffer and more than were read, and the channel is at its end. A read of
  more than these bytes returns as many as there are, with \<^verbatim>\<open>EIO\<close> recorded; but instead of
  the bytes it returns them without the first \<open>i\<close>, followed by the last \<open>i\<close> once more, where
  \<open>i\<close> is the number of bytes in front of them in the buffer: the fill that found the end has
  moved them, and the index is not computed again.
\<close>

theorem short_read_returns_moved_bytes:
  assumes "chan.rd_ok f" "chan_rest (opaque f) = []" "last_error f = 0"
    "buf_index f = i" "length (chan.unread f) = k" "0 < i" "i < k" "k < n"
  shows "\<exists>f'. qemu_get_buffer f n = Inr (drop i (chan.unread f) @ drop (k - i) (chan.unread f), f') \<and>
     last_error f' = - int EIO"
proof -
  have "k = buf_size f - buf_index f"
    using assms(2,5) by (simp add: chan.unread_def)
  then show ?thesis
    using chan.get_buffer_short [OF assms(1,2), of k n] assms by simp
qed

theorem short_read_returns_moved_bytes_witness:
  "\<exists>c f f'. chan_contents c = [1, 2, 3] \<and>
     qemu_get_buffer (qemu_fopen_channel_input c (\<lambda>_. 0)) 1 = Inr ([1], f) \<and> chan.unread f = [2, 3] \<and>
     qemu_get_buffer f 8 = Inr ([3, 3], f')"
proof -
  let ?c = "\<lparr>chan_data = [1, 2, 3], chan_usage = 3, chan_offset = 0, fresh = 0\<rparr>"
  let ?f = "qemu_fopen_channel_input ?c (\<lambda>_. 0)"
  obtain f where f: "qemu_get_buffer ?f 1 = Inr ([1], f)" "buf_index f = 1" "last_error f = 0"
    "chan_rest (opaque f) = []" "chan.unread f = [2, 3]"
    using first_byte_read by blast
  have "chan_source_inv ?c" "chan_rest ?c = [1, 2, 3]"
    by (simp_all add: chan_source_inv_def chan_rest_def chan_contents_def)
  then have "chan.rd_ok ?f" "1 \<le> length (chan.unread ?f)"
    using fopen_input [of ?c "\<lambda>_. 0"] by simp_all
  then have "chan.rd_ok f"
    using chan.get_buffer_unread [of ?f 1] f(1) by auto
  then obtain f' where "qemu_get_buffer f 8 = Inr (drop 1 (chan.unread f) @ drop (2 - 1) (chan.unread f), f')"
    using short_read_returns_moved_bytes [of f 1 2 8] f by auto
  moreover have "chan_contents ?c = [1, 2, 3]"
    by (simp add: chan_contents_def)
  ultimately show ?thesis
    using f(1,5) by auto
qed

end
