(* ===== verification/Goldfish_Sync.thy ===== *)
theory Goldfish_Sync
  imports Guest_Memory Channel_Buffer
begin

text \<open>
  The goldfish sync device, \<^verbatim>\<open>hw/misc/goldfish_sync.c\<close>: a queue of commands from the host
  to the guest kernel, kept as a linked list in the heap, handed over one command per
  register read through a structure in guest memory, with an interrupt line that is up
  while there are commands. The callbacks of the host side sync service are arguments.
\<close>

section \<open>State\<close>

record goldfish_sync_batch_cmd =
  sync_handle :: u64
  hostcmd_handle :: u64
  sync_cmd :: u32
  time_arg :: u32

text \<open>A queued command has the command as its prefix.\<close>

record goldfish_sync_pending_cmd = goldfish_sync_batch_cmd +
  next_cmd :: "nat option"

record goldfish_sync_batch_guestcmd =
  host_command :: u64
  glsync_handle :: u64
  thread_handle :: u64
  guest_timeline_handle :: u64

text \<open>
  \<open>heap\<close> holds the queued commands by address, \<open>fresh_addr\<close> is where the next one is
  allocated; \<open>service\<close> is the state of the host side service and \<open>ram\<close> guest memory.
\<close>

record 'h goldfish_sync_dev =
  heap :: "nat \<Rightarrow> goldfish_sync_pending_cmd option"
  fresh_addr :: nat
  pending_ptr :: "nat option"
  first_pending_cmd :: "nat option"
  current :: "nat option"
  batch_cmd_addr :: u64
  batch_guestcmd_addr :: u64
  sync_irq :: bool
  ram :: phys_mem
  service :: 'h

record ('h, 's) GoldfishSyncServiceOps =
  receive_hostcmd_result :: "u32 \<Rightarrow> u64 \<Rightarrow> u32 \<Rightarrow> u64 \<Rightarrow> 'h \<Rightarrow> 'h"
  trigger_host_wait :: "u64 \<Rightarrow> u64 \<Rightarrow> u64 \<Rightarrow> 'h \<Rightarrow> 'h"
  service_save :: "'s QEMUFile \<Rightarrow> 'h \<Rightarrow> 's QEMUFile res"
  service_load :: "'s QEMUFile \<Rightarrow> 'h \<Rightarrow> ('h \<times> 's QEMUFile) res"

section \<open>The list of commands\<close>

definition deref :: "'h goldfish_sync_dev \<Rightarrow> nat \<Rightarrow> goldfish_sync_pending_cmd res" where
  "deref s a = (case heap s a of None \<Rightarrow> Inl UseAfterFree | Some c \<Rightarrow> Inr c)"

definition zero_cmd :: goldfish_sync_pending_cmd where
  "zero_cmd = \<lparr>sync_handle = 0, hostcmd_handle = 0, sync_cmd = 0, time_arg = 0, next_cmd = None\<rparr>"

definition goldfish_sync_new_cmd :: "'h goldfish_sync_dev \<Rightarrow> nat \<times> 'h goldfish_sync_dev" where
  "goldfish_sync_new_cmd s =
    (fresh_addr s, s\<lparr>heap := (heap s)(fresh_addr s \<mapsto> zero_cmd), fresh_addr := fresh_addr s + 1\<rparr>)"

definition goldfish_sync_free_cmd :: "'h goldfish_sync_dev \<Rightarrow> nat \<Rightarrow> 'h goldfish_sync_dev res" where
  "goldfish_sync_free_cmd s a = rbind (deref s a) (\<lambda>_. Inr (s\<lparr>heap := (heap s)(a := None)\<rparr>))"

definition set_cmd :: "'h goldfish_sync_dev \<Rightarrow> nat \<Rightarrow> (goldfish_sync_pending_cmd \<Rightarrow> goldfish_sync_pending_cmd) \<Rightarrow>
    'h goldfish_sync_dev res" where
  "set_cmd s a f = rbind (deref s a) (\<lambda>c. Inr (s\<lparr>heap := (heap s)(a \<mapsto> f c)\<rparr>))"

definition goldfish_sync_push_cmd :: "'h goldfish_sync_dev \<Rightarrow> nat \<Rightarrow> 'h goldfish_sync_dev res" where
  "goldfish_sync_push_cmd s a =
     rbind (set_cmd s a (next_cmd_update (\<lambda>_. None))) (\<lambda>s.
     rbind (case pending_ptr s of
              Some p \<Rightarrow> set_cmd s p (next_cmd_update (\<lambda>_. Some a))
            | None \<Rightarrow> Inr (s\<lparr>first_pending_cmd := Some a\<rparr>)) (\<lambda>s.
     Inr (s\<lparr>pending_ptr := Some a\<rparr>)))"

definition goldfish_sync_pop_first_cmd :: "'h goldfish_sync_dev \<Rightarrow> (nat option \<times> 'h goldfish_sync_dev) res" where
  "goldfish_sync_pop_first_cmd s =
    (case first_pending_cmd s of
       None \<Rightarrow> Inr (None, s)
     | Some p \<Rightarrow>
         rbind (deref s p) (\<lambda>c.
         let s = s\<lparr>first_pending_cmd := next_cmd c\<rparr>;
             s = (if pending_ptr s = Some p then s\<lparr>pending_ptr := None\<rparr> else s)
         in Inr (Some p, s)))"

text \<open>Every pass frees a command, so there are at most as many passes as addresses.\<close>

fun clear_loop :: "nat \<Rightarrow> 'h goldfish_sync_dev \<Rightarrow> nat option \<Rightarrow> 'h goldfish_sync_dev res" where
  "clear_loop n s None = Inr s"
| "clear_loop 0 s (Some a) = Inl Hang"
| "clear_loop (Suc n) s (Some a) =
     rbind (deref s a) (\<lambda>c. rbind (goldfish_sync_free_cmd s a) (\<lambda>s. clear_loop n s (next_cmd c)))"

definition goldfish_sync_clear_pending :: "'h goldfish_sync_dev \<Rightarrow> 'h goldfish_sync_dev res" where
  "goldfish_sync_clear_pending s =
     rbind (clear_loop (fresh_addr s) s (pending_ptr s)) (\<lambda>s.
       Inr (s\<lparr>pending_ptr := None, first_pending_cmd := None\<rparr>))"

definition goldfish_sync_reset_device :: "'h goldfish_sync_dev \<Rightarrow> 'h goldfish_sync_dev res" where
  "goldfish_sync_reset_device s = rbind (goldfish_sync_clear_pending s) (\<lambda>s. Inr (s\<lparr>sync_irq := False\<rparr>))"

section \<open>Commands of the host\<close>

definition goldfish_sync_send_command ::
  "'h goldfish_sync_dev \<Rightarrow> u32 \<Rightarrow> u64 \<Rightarrow> u32 \<Rightarrow> u64 \<Rightarrow> 'h goldfish_sync_dev res" where
  "goldfish_sync_send_command s cmd handle time hostcmd =
    (let (a, s) = goldfish_sync_new_cmd s in
     rbind (set_cmd s a (\<lambda>c. c\<lparr>sync_cmd := cmd, sync_handle := handle, time_arg := time, hostcmd_handle := hostcmd\<rparr>)) (\<lambda>s.
     rbind (goldfish_sync_push_cmd s a) (\<lambda>s.
     Inr (s\<lparr>sync_irq := True\<rparr>))))"

section \<open>Registers\<close>

text \<open>The structures as they lie in the memory of a little-endian guest.\<close>

definition batch_cmd_bytes :: "goldfish_sync_batch_cmd \<Rightarrow> u8 list" where
  "batch_cmd_bytes c = le64 (sync_handle c) @ le64 (hostcmd_handle c) @ le32 (sync_cmd c) @ le32 (time_arg c)"

definition batch_cmd_of :: "u8 list \<Rightarrow> goldfish_sync_batch_cmd" where
  "batch_cmd_of b = \<lparr>sync_handle = from_le64 (take 8 b), hostcmd_handle = from_le64 (take 8 (drop 8 b)),
     sync_cmd = from_le32 (take 4 (drop 16 b)), time_arg = from_le32 (take 4 (drop 20 b))\<rparr>"

definition guestcmd_of :: "u8 list \<Rightarrow> goldfish_sync_batch_guestcmd" where
  "guestcmd_of b = \<lparr>host_command = from_le64 (take 8 b), glsync_handle = from_le64 (take 8 (drop 8 b)),
     thread_handle = from_le64 (take 8 (drop 16 b)), guest_timeline_handle = from_le64 (take 8 (drop 24 b))\<rparr>"

abbreviation prefix_cmd :: "goldfish_sync_pending_cmd \<Rightarrow> goldfish_sync_batch_cmd" where
  "prefix_cmd c \<equiv> goldfish_sync_batch_cmd.truncate c"

definition goldfish_sync_read :: "'h goldfish_sync_dev \<Rightarrow> u64 \<Rightarrow> (u64 \<times> 'h goldfish_sync_dev) res" where
  "goldfish_sync_read s offset =
    (if offset = 0x00 then
       if batch_cmd_addr s = 0 then Inr (0, s)
       else rbind (goldfish_sync_pop_first_cmd s) (\<lambda>(p, s).
         let s = s\<lparr>current := p\<rparr> in
         case p of
           None \<Rightarrow>
             Inr (0, s\<lparr>ram := cpu_physical_memory_write (ram s) (batch_cmd_addr s) (batch_cmd_bytes (prefix_cmd zero_cmd)),
                       sync_irq := False\<rparr>)
         | Some a \<Rightarrow>
             rbind (deref s a) (\<lambda>c.
             let s = s\<lparr>ram := cpu_physical_memory_write (ram s) (batch_cmd_addr s) (batch_cmd_bytes (prefix_cmd c))\<rparr> in
             rbind (goldfish_sync_free_cmd s a) (\<lambda>s. Inr (0, s\<lparr>current := None\<rparr>))))
     else if offset = 0x08 then Inr (ucast (lower_32_bits (batch_cmd_addr s)), s)
     else if offset = 0x0c then Inr (ucast (upper_32_bits (batch_cmd_addr s)), s)
     else if offset = 0x10 then Inr (ucast (lower_32_bits (batch_guestcmd_addr s)), s)
     else if offset = 0x14 then Inr (ucast (upper_32_bits (batch_guestcmd_addr s)), s)
     else Inl AssertFail)"

definition goldfish_sync_write ::
  "('h, 's) GoldfishSyncServiceOps \<Rightarrow> 'h goldfish_sync_dev \<Rightarrow> u64 \<Rightarrow> u64 \<Rightarrow> 'h goldfish_sync_dev res" where
  "goldfish_sync_write service_ops s offset val =
    (if offset = 0x00 then
       if batch_cmd_addr s = 0 then Inr s
       else let incoming = batch_cmd_of (cpu_physical_memory_read (ram s) (batch_cmd_addr s) 24) in
            Inr (s\<lparr>service := receive_hostcmd_result service_ops (sync_cmd incoming) (sync_handle incoming)
                     (time_arg incoming) (hostcmd_handle incoming) (service s)\<rparr>)
     else if offset = 0x04 then
       if batch_guestcmd_addr s = 0 then Inr s
       else let incoming = guestcmd_of (cpu_physical_memory_read (ram s) (batch_guestcmd_addr s) 32) in
            if host_command incoming = 5
            then Inr (s\<lparr>service := trigger_host_wait service_ops (glsync_handle incoming) (thread_handle incoming)
                          (guest_timeline_handle incoming) (service s)\<rparr>)
            else Inr s
     else if offset = 0x08 then Inr (s\<lparr>batch_cmd_addr := val\<rparr>)
     else if offset = 0x0c then Inr (s\<lparr>batch_cmd_addr := batch_cmd_addr s OR push_bit 32 val\<rparr>)
     else if offset = 0x10 then Inr (s\<lparr>batch_guestcmd_addr := val\<rparr>)
     else if offset = 0x14 then Inr (s\<lparr>batch_guestcmd_addr := batch_guestcmd_addr s OR push_bit 32 val\<rparr>)
     else if offset = 0x18 then goldfish_sync_reset_device s
     else Inl AssertFail)"

section \<open>Snapshots\<close>

text \<open>The loops over the list make at most one pass per address.\<close>

fun save_cmds_loop :: "nat \<Rightarrow> 'h goldfish_sync_dev \<Rightarrow> 's QEMUFile \<Rightarrow> nat option \<Rightarrow> 's QEMUFile res" where
  "save_cmds_loop n s f None = Inr f"
| "save_cmds_loop 0 s f (Some a) = Inl Hang"
| "save_cmds_loop (Suc n) s f (Some a) =
     rbind (deref s a) (\<lambda>c.
     rbind (qemu_put_be64 f (sync_handle c)) (\<lambda>f.
     rbind (qemu_put_be64 f (hostcmd_handle c)) (\<lambda>f.
     rbind (qemu_put_be64 f (ucast (sync_cmd c))) (\<lambda>f.
     rbind (qemu_put_be64 f (ucast (time_arg c))) (\<lambda>f.
     rbind (qemu_put_byte f (if next_cmd c \<noteq> None then 1 else 0)) (\<lambda>f.
     save_cmds_loop n s f (next_cmd c)))))))"

definition save_pending_cmds :: "'h goldfish_sync_dev \<Rightarrow> 's QEMUFile \<Rightarrow> nat option \<Rightarrow> 's QEMUFile res" where
  "save_pending_cmds s f p =
     rbind (qemu_put_byte f (if p \<noteq> None then 1 else 0)) (\<lambda>f. save_cmds_loop (fresh_addr s) s f p)"

text \<open>The loop of the loading side runs as long as the stream says so; \<open>n\<close> bounds its passes.\<close>

fun load_cmds_loop :: "nat \<Rightarrow> 'h goldfish_sync_dev \<Rightarrow> 's QEMUFile \<Rightarrow> nat \<Rightarrow> ('h goldfish_sync_dev \<times> 's QEMUFile) res" where
  "load_cmds_loop 0 s f a = Inl Hang"
| "load_cmds_loop (Suc n) s f a =
     rbind (qemu_get_be64 f) (\<lambda>(h, f).
     rbind (qemu_get_be64 f) (\<lambda>(hh, f).
     rbind (qemu_get_be64 f) (\<lambda>(c, f).
     rbind (qemu_get_be64 f) (\<lambda>(t, f).
     rbind (qemu_get_byte f) (\<lambda>(exists, f).
     rbind (set_cmd s a (\<lambda>x. x\<lparr>sync_handle := h, hostcmd_handle := hh, sync_cmd := ucast c, time_arg := ucast t\<rparr>)) (\<lambda>s.
     if exists \<noteq> 0
     then let (b, s) = goldfish_sync_new_cmd s in
          rbind (set_cmd s a (next_cmd_update (\<lambda>_. Some b))) (\<lambda>s. load_cmds_loop n s f b)
     else rbind (set_cmd s a (next_cmd_update (\<lambda>_. None))) (\<lambda>s. Inr (s, f))))))))"

definition load_pending_cmds ::
  "nat \<Rightarrow> 'h goldfish_sync_dev \<Rightarrow> 's QEMUFile \<Rightarrow> (nat option \<times> 'h goldfish_sync_dev \<times> 's QEMUFile) res" where
  "load_pending_cmds n s f =
     rbind (qemu_get_byte f) (\<lambda>(exists, f).
     if exists = 0 then Inr (None, s, f)
     else let (a, s) = goldfish_sync_new_cmd s in
          rbind (load_cmds_loop n s f a) (\<lambda>(s, f). Inr (Some a, s, f)))"

definition goldfish_sync_save ::
  "('h, 's) GoldfishSyncServiceOps \<Rightarrow> 's QEMUFile \<Rightarrow> 'h goldfish_sync_dev \<Rightarrow> 's QEMUFile res" where
  "goldfish_sync_save service_ops f s =
     rbind (qemu_put_be64 f (batch_cmd_addr s)) (\<lambda>f.
     rbind (qemu_put_be64 f (batch_guestcmd_addr s)) (\<lambda>f.
     rbind (save_pending_cmds s f (pending_ptr s)) (\<lambda>f.
     service_save service_ops f (service s))))"

definition goldfish_sync_load ::
  "('h, 's) GoldfishSyncServiceOps \<Rightarrow> nat \<Rightarrow> 's QEMUFile \<Rightarrow> 'h goldfish_sync_dev \<Rightarrow>
   ('h goldfish_sync_dev \<times> 's QEMUFile) res" where
  "goldfish_sync_load service_ops n f s =
     rbind (goldfish_sync_reset_device s) (\<lambda>s.
     rbind (qemu_get_be64 f) (\<lambda>(a, f).
     rbind (qemu_get_be64 f) (\<lambda>(g, f).
     let s = s\<lparr>batch_cmd_addr := a, batch_guestcmd_addr := g\<rparr> in
     rbind (load_pending_cmds n s f) (\<lambda>(p, s, f).
     let s = s\<lparr>pending_ptr := p, first_pending_cmd := p\<rparr> in
     rbind (service_load service_ops f (service s)) (\<lambda>(h, f).
     let s = s\<lparr>service := h\<rparr> in
     Inr (if pending_ptr s \<noteq> None then s\<lparr>sync_irq := True\<rparr> else s, f))))))"

text \<open>The device object is zeroed when it is made.\<close>

definition goldfish_sync_realize :: "phys_mem \<Rightarrow> 'h \<Rightarrow> 'h goldfish_sync_dev" where
  "goldfish_sync_realize mem h =
     \<lparr>heap = (\<lambda>_. None), fresh_addr = 0, pending_ptr = None, first_pending_cmd = None, current = None,
      batch_cmd_addr = 0, batch_guestcmd_addr = 0, sync_irq = False, ram = mem, service = h\<rparr>"

section \<open>The list is a queue\<close>

text \<open>The commands from \<open>p\<close> to \<open>q\<close> lie at the addresses \<open>as\<close>.\<close>

fun seg :: "(nat \<Rightarrow> goldfish_sync_pending_cmd option) \<Rightarrow> nat option \<Rightarrow> nat list \<Rightarrow> nat option \<Rightarrow> bool" where
  "seg h p [] q \<longleftrightarrow> p = q"
| "seg h p (a # as) q \<longleftrightarrow> p = Some a \<and> (\<exists>c. h a = Some c \<and> seg h (next_cmd c) as q)"

lemma seg_append: "seg h p (as @ bs) q \<longleftrightarrow> (\<exists>r. seg h p as r \<and> seg h r bs q)"
  by (induction as arbitrary: p) auto

lemma seg_cong: "(\<And>a. a \<in> set as \<Longrightarrow> h' a = h a) \<Longrightarrow> seg h' p as q = seg h p as q"
  by (induction as arbitrary: p) auto

lemma seg_allocated: "seg h p as q \<Longrightarrow> a \<in> set as \<Longrightarrow> h a \<noteq> None"
  by (induction as arbitrary: p) auto

fun walk :: "nat \<Rightarrow> (nat \<Rightarrow> goldfish_sync_pending_cmd option) \<Rightarrow> nat option \<Rightarrow> goldfish_sync_batch_cmd list" where
  "walk n h None = []"
| "walk 0 h (Some a) = []"
| "walk (Suc n) h (Some a) = (case h a of None \<Rightarrow> [] | Some c \<Rightarrow> prefix_cmd c # walk n h (next_cmd c))"

definition cmds_at :: "(nat \<Rightarrow> goldfish_sync_pending_cmd option) \<Rightarrow> nat list \<Rightarrow> goldfish_sync_batch_cmd list" where
  "cmds_at h as = map (\<lambda>a. prefix_cmd (the (h a))) as"

lemma walk_seg: "seg h p as None \<Longrightarrow> length as \<le> n \<Longrightarrow> walk n h p = cmds_at h as"
proof (induction as arbitrary: n p)
  case (Cons a as)
  then show ?case by (cases n) (auto simp: cmds_at_def)
qed (simp add: cmds_at_def)

definition queue_at :: "'h goldfish_sync_dev \<Rightarrow> nat list \<Rightarrow> bool" where
  "queue_at s as \<longleftrightarrow> seg (heap s) (first_pending_cmd s) as None \<and> distinct as \<and>
     pending_ptr s = (if as = [] then None else Some (last as)) \<and> (\<forall>a. heap s a \<noteq> None \<longrightarrow> a < fresh_addr s)"

definition sync_ok :: "'h goldfish_sync_dev \<Rightarrow> bool" where
  "sync_ok s \<longleftrightarrow> (\<exists>as. queue_at s as)"

definition sync_queue :: "'h goldfish_sync_dev \<Rightarrow> goldfish_sync_batch_cmd list" where
  "sync_queue s = walk (fresh_addr s) (heap s) (first_pending_cmd s)"

lemma queue_at_length:
  assumes "queue_at s as"
  shows "length as \<le> fresh_addr s"
proof -
  have "set as \<subseteq> {..<fresh_addr s}"
    using assms seg_allocated unfolding queue_at_def by blast
  then have "card (set as) \<le> fresh_addr s"
    using card_mono [of "{..<fresh_addr s}"] by simp
  then show ?thesis
    using assms by (simp add: queue_at_def distinct_card)
qed

lemma sync_queue_at:
  assumes "queue_at s as"
  shows "sync_queue s = cmds_at (heap s) as"
  unfolding sync_queue_def
  by (rule walk_seg [OF _ queue_at_length [OF assms]]) (use assms in \<open>simp add: queue_at_def\<close>)

lemma queue_at_fresh:
  assumes "queue_at s as"
  shows "heap s (fresh_addr s) = None" "fresh_addr s \<notin> set as"
proof -
  show "heap s (fresh_addr s) = None"
    using assms unfolding queue_at_def by blast
  then show "fresh_addr s \<notin> set as"
    using assms seg_allocated unfolding queue_at_def by blast
qed

lemma send_command_queue_at:
  assumes q: "queue_at s as"
  shows "\<exists>s'. goldfish_sync_send_command s c h t hh = Inr s' \<and> queue_at s' (as @ [fresh_addr s]) \<and>
     sync_queue s' = sync_queue s @ [\<lparr>sync_handle = h, hostcmd_handle = hh, sync_cmd = c, time_arg = t\<rparr>] \<and>
     sync_irq s' \<and> batch_cmd_addr s' = batch_cmd_addr s \<and> ram s' = ram s"
proof -
  let ?b = "fresh_addr s"
  let ?new = "\<lparr>sync_handle = h, hostcmd_handle = hh, sync_cmd = c, time_arg = t, next_cmd = None\<rparr>"
  note fresh = queue_at_fresh [OF q]
  show ?thesis
  proof (cases as rule: rev_cases)
    case Nil
    let ?s = "s\<lparr>heap := (heap s)(?b \<mapsto> ?new), fresh_addr := ?b + 1, first_pending_cmd := Some ?b,
      pending_ptr := Some ?b, sync_irq := True\<rparr>"
    have "goldfish_sync_send_command s c h t hh = Inr ?s"
      using q Nil by (simp add: goldfish_sync_send_command_def goldfish_sync_new_cmd_def goldfish_sync_push_cmd_def
          set_cmd_def deref_def queue_at_def zero_cmd_def)
    moreover have "queue_at ?s [?b]"
      using q Nil by (auto simp: queue_at_def less_Suc_eq)
    ultimately show ?thesis
      using sync_queue_at [OF q] sync_queue_at [of ?s "[?b]"] Nil
      by (auto simp: cmds_at_def goldfish_sync_batch_cmd.defs)
  next
    case (snoc xs l)
    then obtain cl where cl: "heap s l = Some cl" "next_cmd cl = None"
      using q by (auto simp: queue_at_def seg_append)
    let ?h = "(heap s)(?b \<mapsto> ?new, l \<mapsto> cl\<lparr>next_cmd := Some ?b\<rparr>)"
    let ?s = "s\<lparr>heap := ?h, fresh_addr := ?b + 1, pending_ptr := Some ?b, sync_irq := True\<rparr>"
    have ne: "l \<noteq> ?b" "l \<notin> set xs" "?b \<notin> set xs"
      using fresh(2) q snoc by (auto simp: queue_at_def)
    have "goldfish_sync_send_command s c h t hh = Inr ?s"
      using q snoc cl ne(1) by (simp add: goldfish_sync_send_command_def goldfish_sync_new_cmd_def
          goldfish_sync_push_cmd_def set_cmd_def deref_def queue_at_def zero_cmd_def)
    moreover have "seg ?h (first_pending_cmd s) xs r = seg (heap s) (first_pending_cmd s) xs r" for r
      using ne by (intro seg_cong) auto
    then have "seg ?h (first_pending_cmd s) (as @ [?b]) None"
      using q snoc ne(1) by (auto simp: queue_at_def seg_append)
    then have at: "queue_at ?s (as @ [?b])"
      using q fresh(2) snoc cl(1) by (auto simp: queue_at_def less_Suc_eq)
    moreover have "cmds_at ?h (as @ [?b]) = cmds_at (heap s) as @
        [\<lparr>sync_handle = h, hostcmd_handle = hh, sync_cmd = c, time_arg = t\<rparr>]"
      using ne snoc cl(1) by (auto simp: cmds_at_def goldfish_sync_batch_cmd.defs)
    ultimately show ?thesis
      using sync_queue_at [OF q] sync_queue_at [OF at] by auto
  qed
qed

lemma length_batch_cmd_bytes [simp]: "length (batch_cmd_bytes c) = 24"
  by (simp add: batch_cmd_bytes_def)

lemma batch_cmd_of_bytes [simp]: "batch_cmd_of (batch_cmd_bytes c) = c"
  by (simp add: batch_cmd_of_def batch_cmd_bytes_def)

lemma read_command_queue_at:
  assumes q: "queue_at s (a # as)" and addr: "batch_cmd_addr s \<noteq> 0"
  shows "\<exists>s'. goldfish_sync_read s 0 = Inr (0, s') \<and> queue_at s' as \<and> sync_queue s' = tl (sync_queue s) \<and>
     sync_irq s' = sync_irq s \<and> batch_cmd_addr s' = batch_cmd_addr s \<and> service s' = service s \<and>
     ram s' = cpu_physical_memory_write (ram s) (batch_cmd_addr s) (batch_cmd_bytes (hd (sync_queue s)))"
proof -
  obtain c where c: "heap s a = Some c" "seg (heap s) (next_cmd c) as None" "first_pending_cmd s = Some a" "a \<notin> set as"
    using q by (auto simp: queue_at_def)
  let ?p = "if as = [] then None else Some (last as)"
  let ?s = "s\<lparr>heap := (heap s)(a := None), first_pending_cmd := next_cmd c, pending_ptr := ?p, current := None,
      ram := cpu_physical_memory_write (ram s) (batch_cmd_addr s) (batch_cmd_bytes (prefix_cmd c))\<rparr>"
  have "pending_ptr s = Some a \<longleftrightarrow> as = []"
    using q c(4) by (auto simp: queue_at_def)
  then have "goldfish_sync_read s 0 = Inr (0, ?s)"
    using q c addr by (cases "as = []")
      (simp_all add: goldfish_sync_read_def goldfish_sync_pop_first_cmd_def goldfish_sync_free_cmd_def deref_def
        queue_at_def Let_def)
  moreover have "seg ((heap s)(a := None)) (next_cmd c) as None"
    using c(2,4) seg_cong [of as "(heap s)(a := None)" "heap s" "next_cmd c" None] by (metis fun_upd_other)
  then have at: "queue_at ?s as"
    using q by (auto simp: queue_at_def)
  moreover have "sync_queue s = prefix_cmd c # sync_queue ?s"
    using sync_queue_at [OF q] sync_queue_at [OF at] c(1,4) by (auto simp: cmds_at_def)
  ultimately show ?thesis by auto
qed

lemma read_empty_queue_at:
  assumes q: "queue_at s []" and addr: "batch_cmd_addr s \<noteq> 0"
  shows "\<exists>s'. goldfish_sync_read s 0 = Inr (0, s') \<and> queue_at s' [] \<and> \<not> sync_irq s' \<and>
     batch_cmd_addr s' = batch_cmd_addr s \<and> service s' = service s \<and>
     ram s' = cpu_physical_memory_write (ram s) (batch_cmd_addr s) (batch_cmd_bytes (prefix_cmd zero_cmd))"
  using assms by (auto simp: goldfish_sync_read_def goldfish_sync_pop_first_cmd_def queue_at_def)

text \<open>A reset frees the last command only: the others stay allocated, and nothing points to them.\<close>

lemma reset_queue_at:
  assumes q: "queue_at s as"
  shows "\<exists>s'. goldfish_sync_reset_device s = Inr s' \<and> queue_at s' [] \<and> \<not> sync_irq s' \<and> service s' = service s \<and>
     heap s' = (heap s)(last (fresh_addr s # as) := None)"
proof (cases as rule: rev_cases)
  case Nil
  then show ?thesis
    using q queue_at_fresh(1) [OF q]
    by (auto simp: goldfish_sync_reset_device_def goldfish_sync_clear_pending_def queue_at_def)
next
  case (snoc xs l)
  then obtain cl where cl: "heap s l = Some cl" "next_cmd cl = None" "pending_ptr s = Some l" "l < fresh_addr s"
    using q by (auto simp: queue_at_def seg_append)
  then obtain n where "fresh_addr s = Suc n" by (cases "fresh_addr s") auto
  then show ?thesis
    using q snoc cl
    by (auto simp: goldfish_sync_reset_device_def goldfish_sync_clear_pending_def goldfish_sync_free_cmd_def
        deref_def queue_at_def)
qed

section \<open>The interrupt line\<close>

datatype sync_op = Send u32 u64 u32 u64 | RegRead u64 | RegWrite u64 u64

fun sync_step :: "('h, 's) GoldfishSyncServiceOps \<Rightarrow> sync_op \<Rightarrow> 'h goldfish_sync_dev \<Rightarrow> 'h goldfish_sync_dev res" where
  "sync_step service_ops (Send c h t hh) s = goldfish_sync_send_command s c h t hh"
| "sync_step service_ops (RegRead offset) s = rbind (goldfish_sync_read s offset) (\<lambda>(_, s). Inr s)"
| "sync_step service_ops (RegWrite offset val) s = goldfish_sync_write service_ops s offset val"

definition sync_registers :: "u64 set" where
  "sync_registers = {0x00, 0x04, 0x08, 0x0c, 0x10, 0x14, 0x18}"

fun sync_op_ok :: "sync_op \<Rightarrow> bool" where
  "sync_op_ok (Send _ _ _ _) \<longleftrightarrow> True"
| "sync_op_ok (RegRead offset) \<longleftrightarrow> offset \<in> {0x00, 0x08, 0x0c, 0x10, 0x14}"
| "sync_op_ok (RegWrite offset _) \<longleftrightarrow> offset \<in> sync_registers"

definition sync_inv :: "'h goldfish_sync_dev \<Rightarrow> bool" where
  "sync_inv s \<longleftrightarrow> sync_ok s \<and> (sync_queue s \<noteq> [] \<longrightarrow> sync_irq s)"

text \<open>Updates that do not touch the list.\<close>

lemma sync_inv_frame:
  assumes "sync_inv s" "heap s' = heap s" "fresh_addr s' = fresh_addr s" "pending_ptr s' = pending_ptr s"
    "first_pending_cmd s' = first_pending_cmd s" "sync_irq s' = sync_irq s"
  shows "sync_inv s'"
  using assms by (simp add: sync_inv_def sync_ok_def queue_at_def sync_queue_def)

lemma sync_queue_Nil_iff: "queue_at s as \<Longrightarrow> sync_queue s = [] \<longleftrightarrow> as = []"
  by (simp add: sync_queue_at cmds_at_def)

lemma sync_read_inv:
  assumes "sync_inv s" "offset \<in> {0x00, 0x08, 0x0c, 0x10, 0x14}"
  shows "\<exists>v s'. goldfish_sync_read s offset = Inr (v, s') \<and> sync_inv s'"
proof (cases "offset = 0 \<and> batch_cmd_addr s \<noteq> 0")
  case True
  obtain as where as: "queue_at s as" using assms(1) by (auto simp: sync_inv_def sync_ok_def)
  show ?thesis
  proof (cases as)
    case Nil
    then show ?thesis
      using read_empty_queue_at [of s] as True sync_queue_Nil_iff by (fastforce simp: sync_inv_def sync_ok_def)
  next
    case (Cons a as')
    then obtain s' where s': "goldfish_sync_read s 0 = Inr (0, s')" "queue_at s' as'" "sync_irq s' = sync_irq s"
      using read_command_queue_at [of s a as'] as True by blast
    have "sync_irq s" using assms(1) as Cons sync_queue_Nil_iff by (fastforce simp: sync_inv_def)
    then show ?thesis
      using s' True by (auto simp: sync_inv_def sync_ok_def)
  qed
next
  case False
  then show ?thesis
    using assms by (auto simp: goldfish_sync_read_def)
qed

lemma sync_step_inv:
  assumes "sync_inv s" "sync_op_ok x"
  shows "\<exists>s'. sync_step service_ops x s = Inr s' \<and> sync_inv s'"
proof (cases x)
  case (Send c h t hh)
  obtain as where "queue_at s as" using assms(1) by (auto simp: sync_inv_def sync_ok_def)
  from send_command_queue_at [OF this] show ?thesis
    using Send by (fastforce simp: sync_inv_def sync_ok_def)
next
  case (RegRead offset)
  then show ?thesis
    using sync_read_inv [OF assms(1)] assms(2) by fastforce
next
  case (RegWrite offset val)
  show ?thesis
  proof (cases "offset = 0x18")
    case True
    obtain as where as: "queue_at s as" using assms(1) by (auto simp: sync_inv_def sync_ok_def)
    then show ?thesis
      using reset_queue_at [OF as] RegWrite True sync_queue_Nil_iff
      by (fastforce simp: goldfish_sync_write_def sync_inv_def sync_ok_def)
  next
    case False
    then show ?thesis
      using assms RegWrite
      by (auto simp: goldfish_sync_write_def sync_registers_def Let_def intro!: sync_inv_frame [OF assms(1)])
  qed
qed

lemma sync_step_faults: "\<not> sync_op_ok x \<Longrightarrow> sync_step service_ops x s = Inl AssertFail"
  by (cases x) (auto simp: goldfish_sync_read_def goldfish_sync_write_def sync_registers_def)

interpretation sync: irq_source sync_inv sync_irq "\<lambda>s. sync_queue s \<noteq> []" "sync_step service_ops" for service_ops
proof unfold_locales
  fix s x s' assume "sync_inv s" "sync_step service_ops x s = Inr s'"
  then show "sync_inv s'"
    using sync_step_inv [of s x service_ops] sync_step_faults [of x service_ops s] by (cases "sync_op_ok x") auto
qed (simp add: sync_inv_def)

text \<open>
  C22. From the moment the device is made, no sequence of commands of the host and
  accesses of the guest to its registers makes it follow a dangling pointer, and as
  long as commands wait the interrupt line is up.
\<close>

theorem sync_device_safe:
  assumes "\<forall>x \<in> set xs. sync_op_ok x"
  shows "\<exists>s'. run_ops (sync_step service_ops) xs (goldfish_sync_realize mem h) = Inr s' \<and>
     (sync_queue s' \<noteq> [] \<longrightarrow> sync_irq s')"
proof -
  have start: "sync_inv (goldfish_sync_realize mem h)"
    by (auto simp: sync_inv_def sync_ok_def queue_at_def sync_queue_def goldfish_sync_realize_def intro!: exI [of _ "[]"])
  have "sync_inv s \<Longrightarrow> \<exists>s'. run_ops (sync_step service_ops) xs s = Inr s'" for s
    using assms
  proof (induction xs arbitrary: s)
    case (Cons x xs)
    then show ?case using sync_step_inv [of s x service_ops] by auto
  qed simp
  then obtain s' where "run_ops (sync_step service_ops) xs (goldfish_sync_realize mem h) = Inr s'"
    using start by blast
  moreover from sync.run_keeps [OF start this] have "sync_queue s' \<noteq> [] \<longrightarrow> sync_irq s'"
    by (simp add: sync_inv_def)
  ultimately show ?thesis by blast
qed

text \<open>A service without state.\<close>

definition no_service :: "(unit, 's) GoldfishSyncServiceOps" where
  "no_service = \<lparr>receive_hostcmd_result = (\<lambda>_ _ _ _ h. h), trigger_host_wait = (\<lambda>_ _ _ h. h),
     service_save = (\<lambda>f _. Inr f), service_load = (\<lambda>f h. Inr (h, f))\<rparr>"

theorem sync_device_safe_witness:
  "\<exists>s'. run_ops (sync_step no_service) [RegWrite 8 0x1000, Send 3 1 1 2, Send 1 0 0 9, RegRead 0]
       (goldfish_sync_realize (\<lambda>_. 0) ()) = Inr s' \<and> (sync_queue s' \<noteq> [] \<longrightarrow> sync_irq s')"
  by (rule sync_device_safe) (simp add: sync_registers_def)

section \<open>Snapshots\<close>

definition saved_cmd :: "goldfish_sync_batch_cmd \<Rightarrow> u8 list" where
  "saved_cmd c = be64 (sync_handle c) @ be64 (hostcmd_handle c) @ be64 (ucast (sync_cmd c)) @
     be64 (ucast (time_arg c)) @ [0]"

lemma puts_pending_none: "chan.puts (\<lambda>f. save_pending_cmds s f None) [0]"
proof -
  have "save_pending_cmds s f None = qemu_put_byte f 0" for f :: "QIOChannelBuffer QEMUFile"
    by (cases "qemu_put_byte f 0") (simp_all add: save_pending_cmds_def)
  then show ?thesis
    using chan.puts_byte [of 0] by simp
qed

lemma puts_pending_last:
  assumes "heap s l = Some c" "next_cmd c = None" "l < fresh_addr s"
  shows "chan.puts (\<lambda>f. save_pending_cmds s f (Some l)) (1 # saved_cmd (prefix_cmd c))"
proof -
  obtain n where n: "fresh_addr s = Suc n" using assms(3) by (cases "fresh_addr s") auto
  have "chan.puts (\<lambda>f.
      rbind (qemu_put_byte f 1) (\<lambda>f.
      rbind (qemu_put_be64 f (sync_handle c)) (\<lambda>f.
      rbind (qemu_put_be64 f (hostcmd_handle c)) (\<lambda>f.
      rbind (qemu_put_be64 f (ucast (sync_cmd c))) (\<lambda>f.
      rbind (qemu_put_be64 f (ucast (time_arg c))) (\<lambda>f. qemu_put_byte f 0))))))
     ([1] @ be64 (sync_handle c) @ be64 (hostcmd_handle c) @ be64 (ucast (sync_cmd c)) @ be64 (ucast (time_arg c)) @ [0])"
    by (intro chan.puts_bind chan.puts_byte chan.puts_be64)
  moreover have "rbind (qemu_put_byte f 0) Inr = qemu_put_byte f 0" for f :: "QIOChannelBuffer QEMUFile"
    by (cases "qemu_put_byte f 0") simp_all
  ultimately show ?thesis
    using assms n by (simp add: save_pending_cmds_def deref_def saved_cmd_def goldfish_sync_batch_cmd.defs)
qed

lemma load_pending_none:
  assumes "chan.rd_ok f" "chan.unread f = 0 # rest"
  shows "\<exists>f'. load_pending_cmds n s f = Inr (None, s, f') \<and> chan.rd_ok f' \<and> chan.unread f' = rest"
  using chan.getsD [OF chan.gets_byte assms(1), of 0 rest] assms(2) by (auto simp: load_pending_cmds_def)

definition with_cmd :: "'h goldfish_sync_dev \<Rightarrow> goldfish_sync_batch_cmd \<Rightarrow> 'h goldfish_sync_dev" where
  "with_cmd s c = s\<lparr>heap := (heap s)(fresh_addr s \<mapsto>
       \<lparr>sync_handle = sync_handle c, hostcmd_handle = hostcmd_handle c, sync_cmd = sync_cmd c, time_arg = time_arg c,
        next_cmd = None\<rparr>), fresh_addr := fresh_addr s + 1\<rparr>"

lemma load_pending_one:
  assumes "chan.rd_ok f" "chan.unread f = 1 # saved_cmd c @ rest"
  shows "\<exists>f'. load_pending_cmds (Suc n) s f = Inr (Some (fresh_addr s), with_cmd s c, f') \<and>
     chan.rd_ok f' \<and> chan.unread f' = rest"
proof -
  obtain f1 where f1: "qemu_get_byte f = Inr (1, f1)" "chan.rd_ok f1" "chan.unread f1 = saved_cmd c @ rest"
    using chan.getsD [OF chan.gets_byte assms(1), of 1 "saved_cmd c @ rest"] assms(2) by auto
  obtain f2 where f2: "qemu_get_be64 f1 = Inr (sync_handle c, f2)" "chan.rd_ok f2"
    "chan.unread f2 = be64 (hostcmd_handle c) @ be64 (ucast (sync_cmd c)) @ be64 (ucast (time_arg c)) @ 0 # rest"
    using chan.getsD [OF chan.gets_be64 f1(2)] f1(3) unfolding saved_cmd_def by fastforce
  obtain f3 where f3: "qemu_get_be64 f2 = Inr (hostcmd_handle c, f3)" "chan.rd_ok f3"
    "chan.unread f3 = be64 (ucast (sync_cmd c)) @ be64 (ucast (time_arg c)) @ 0 # rest"
    using chan.getsD [OF chan.gets_be64 f2(2,3)] by auto
  obtain f4 where f4: "qemu_get_be64 f3 = Inr (ucast (sync_cmd c), f4)" "chan.rd_ok f4"
    "chan.unread f4 = be64 (ucast (time_arg c)) @ 0 # rest"
    using chan.getsD [OF chan.gets_be64 f3(2,3)] by auto
  obtain f5 where f5: "qemu_get_be64 f4 = Inr (ucast (time_arg c), f5)" "chan.rd_ok f5" "chan.unread f5 = 0 # rest"
    using chan.getsD [OF chan.gets_be64 f4(2,3)] by auto
  obtain f6 where f6: "qemu_get_byte f5 = Inr (0, f6)" "chan.rd_ok f6" "chan.unread f6 = rest"
    using chan.getsD [OF chan.gets_byte f5(2), of 0 rest] f5(3) by auto
  show ?thesis
    using f1(1) f2(1) f3(1) f4(1) f5(1) f6
    by (simp add: load_pending_cmds_def goldfish_sync_new_cmd_def set_cmd_def deref_def with_cmd_def zero_cmd_def
        ucast_up_down)
qed

text \<open>
  C23. A snapshot keeps one command: when the commands waiting are saved and loaded
  into another well formed device, only the one sent last is in its queue; the list is
  saved from its tail. The addresses are restored, and the interrupt line is up exactly
  when there was a command. The service is any whose saved state can be read back.
\<close>

theorem sync_snapshot_keeps_last:
  assumes "sync_ok s" "sync_ok s0"
    and "chan.puts (\<lambda>f. service_save service_ops f (service s)) bs"
    and "chan.gets (\<lambda>f. service_load service_ops f (service s0)) bs h"
  shows "\<exists>w w' s' r. goldfish_sync_save service_ops (qemu_fopen_channel_output (qio_channel_buffer_new junk 0) mem) s = Inr w \<and>
     qemu_fflush w = Inr w' \<and>
     goldfish_sync_load service_ops 1 (qemu_fopen_channel_input (qio_channel_buffer_seek (opaque w') 0) mem) s0 = Inr (s', r) \<and>
     sync_queue s' = (if sync_queue s = [] then [] else [last (sync_queue s)]) \<and>
     batch_cmd_addr s' = batch_cmd_addr s \<and> batch_guestcmd_addr s' = batch_guestcmd_addr s \<and>
     sync_irq s' = (sync_queue s \<noteq> []) \<and> service s' = h"
proof -
  obtain as bs' where as: "queue_at s as" and "queue_at s0 bs'"
    using assms(1,2) by (auto simp: sync_ok_def)
  then obtain s1 where s1: "goldfish_sync_reset_device s0 = Inr s1" "queue_at s1 []" "\<not> sync_irq s1" "service s1 = service s0"
    using reset_queue_at by blast
  define cmds where "cmds = (if as = [] then [0] else 1 # saved_cmd (last (sync_queue s)))"
  have puts_cmds: "chan.puts (\<lambda>f. save_pending_cmds s f (pending_ptr s)) cmds"
  proof (cases as rule: rev_cases)
    case Nil
    then show ?thesis
      using puts_pending_none [of s] as by (simp add: cmds_def queue_at_def)
  next
    case (snoc xs l)
    then obtain c where c: "heap s l = Some c" "next_cmd c = None" "l < fresh_addr s" "pending_ptr s = Some l"
      using as by (auto simp: queue_at_def seg_append)
    moreover have "last (sync_queue s) = prefix_cmd c"
      using sync_queue_at [OF as] snoc c(1) by (simp add: cmds_at_def)
    ultimately show ?thesis
      using puts_pending_last [OF c(1-3)] snoc by (simp add: cmds_def)
  qed
  have save: "chan.puts (\<lambda>f. goldfish_sync_save service_ops f s)
      (be64 (batch_cmd_addr s) @ be64 (batch_guestcmd_addr s) @ cmds @ bs)"
    unfolding goldfish_sync_save_def by (intro chan.puts_bind chan.puts_be64 puts_cmds assms(3))
  obtain w w' where w: "goldfish_sync_save service_ops (qemu_fopen_channel_output (qio_channel_buffer_new junk 0) mem) s = Inr w"
    "qemu_fflush w = Inr w'"
    "chan.rd_ok (qemu_fopen_channel_input (qio_channel_buffer_seek (opaque w') 0) mem)"
    "chan.unread (qemu_fopen_channel_input (qio_channel_buffer_seek (opaque w') 0) mem) =
       be64 (batch_cmd_addr s) @ be64 (batch_guestcmd_addr s) @ cmds @ bs"
    using saved_is_unread [OF save] by blast
  let ?f = "qemu_fopen_channel_input (qio_channel_buffer_seek (opaque w') 0) mem"
  obtain f1 where f1: "qemu_get_be64 ?f = Inr (batch_cmd_addr s, f1)" "chan.rd_ok f1"
    "chan.unread f1 = be64 (batch_guestcmd_addr s) @ cmds @ bs"
    using chan.getsD [OF chan.gets_be64 w(3,4)] by auto
  obtain f2 where f2: "qemu_get_be64 f1 = Inr (batch_guestcmd_addr s, f2)" "chan.rd_ok f2" "chan.unread f2 = cmds @ bs"
    using chan.getsD [OF chan.gets_be64 f1(2,3)] by auto
  let ?s1 = "s1\<lparr>batch_cmd_addr := batch_cmd_addr s, batch_guestcmd_addr := batch_guestcmd_addr s\<rparr>"
  define p s2 where "p = (if as = [] then None else Some (fresh_addr s1))"
    and "s2 = (if as = [] then ?s1 else with_cmd ?s1 (last (sync_queue s)))"
  obtain f3 where f3: "load_pending_cmds 1 ?s1 f2 = Inr (p, s2, f3)" "chan.rd_ok f3" "chan.unread f3 = bs"
    using load_pending_none [OF f2(2), of bs 1 ?s1] load_pending_one [OF f2(2), of "last (sync_queue s)" bs 0 ?s1] f2(3)
    by (cases "as = []") (auto simp: cmds_def p_def s2_def)
  have "service s2 = service s0" by (simp add: s2_def with_cmd_def s1(4))
  then obtain f4 where f4: "service_load service_ops f3 (service s2) = Inr (h, f4)"
    using chan.getsD [OF assms(4) f3(2), of "[]"] f3(3) by auto
  let ?s = "(s2\<lparr>pending_ptr := p, first_pending_cmd := p, service := h\<rparr>)\<lparr>sync_irq := as \<noteq> []\<rparr>"
  have "goldfish_sync_load service_ops 1 ?f s0 = Inr (?s, f4)"
    using s1(1,3) f1(1) f2(1) f3(1) f4 by (cases "as = []") (simp_all add: goldfish_sync_load_def p_def s2_def with_cmd_def)
  moreover have "queue_at ?s (if as = [] then [] else [fresh_addr s1])"
    using s1(2) by (auto simp: queue_at_def p_def s2_def with_cmd_def less_Suc_eq)
  then have "sync_queue ?s = (if as = [] then [] else [last (sync_queue s)])"
    by (subst sync_queue_at, assumption) (simp add: cmds_at_def s2_def with_cmd_def goldfish_sync_batch_cmd.defs)
  moreover have "sync_queue s = [] \<longleftrightarrow> as = []" using sync_queue_Nil_iff [OF as] .
  moreover have "batch_cmd_addr ?s = batch_cmd_addr s" "batch_guestcmd_addr ?s = batch_guestcmd_addr s"
    by (simp_all add: s2_def with_cmd_def)
  ultimately show ?thesis
    using w(1,2) by auto
qed

definition two_commands :: "unit goldfish_sync_dev" where
  "two_commands = (goldfish_sync_realize (\<lambda>_. 0) ())
     \<lparr>heap := [0 \<mapsto> \<lparr>sync_handle = 1, hostcmd_handle = 2, sync_cmd = 3, time_arg = 1, next_cmd = Some 1\<rparr>,
               1 \<mapsto> \<lparr>sync_handle = 4, hostcmd_handle = 5, sync_cmd = 2, time_arg = 7, next_cmd = None\<rparr>],
      fresh_addr := 2, pending_ptr := Some 1, first_pending_cmd := Some 0, batch_cmd_addr := 0x1000, sync_irq := True\<rparr>"

lemma two_commands_queue: "queue_at two_commands [0, 1]"
  by (auto simp: queue_at_def two_commands_def split: if_splits)

theorem sync_snapshot_keeps_last_witness:
  "\<exists>w w' s' r. goldfish_sync_save no_service (qemu_fopen_channel_output (qio_channel_buffer_new 0 0) (\<lambda>_. 0)) two_commands = Inr w \<and>
     qemu_fflush w = Inr w' \<and>
     goldfish_sync_load no_service 1 (qemu_fopen_channel_input (qio_channel_buffer_seek (opaque w') 0) (\<lambda>_. 0))
       (goldfish_sync_realize (\<lambda>_. 0) ()) = Inr (s', r) \<and>
     length (sync_queue two_commands) = 2 \<and> sync_queue s' = [last (sync_queue two_commands)]"
proof -
  have "sync_ok two_commands"
    using two_commands_queue unfolding sync_ok_def by blast
  moreover have "sync_ok (goldfish_sync_realize (\<lambda>_. 0) ())"
    by (auto simp: sync_ok_def queue_at_def goldfish_sync_realize_def intro: exI [of _ "[]"])
  moreover have "chan.puts (\<lambda>f. service_save no_service f (service two_commands)) []"
    "chan.gets (\<lambda>f. service_load no_service f (service (goldfish_sync_realize (\<lambda>_. 0) ()))) [] ()"
    using chan.puts_skip chan.gets_return by (simp_all add: no_service_def)
  moreover have "length (sync_queue two_commands) = 2"
    using sync_queue_at [OF two_commands_queue] by (simp add: cmds_at_def)
  ultimately show ?thesis
    using sync_snapshot_keeps_last [of two_commands "goldfish_sync_realize (\<lambda>_. 0) ()" no_service "[]" "()" 0 "\<lambda>_. 0"]
    by fastforce
qed

end
