(* ===== verification/Sync_Driver.thy ===== *)
theory Sync_Driver
  imports Goldfish_Sync
begin

text \<open>
  The guest kernel driver of the sync device, \<^verbatim>\<open>goldfish_drivers/goldfish_sync.c\<close>, running
  against the model of the device: the interrupt handler that fetches the commands of
  the host, the work item that runs them, timelines and fences with their reference
  counts, and the ioctl that makes a fence and starts a wait on the host. Memory that
  the driver shares with the device is guest memory, in the state of the device. What
  the kernel answers (allocations, file descriptors, user copies) is an argument.
\<close>

section \<open>State\<close>

text \<open>A timeline and a fence, at their addresses; \<open>pt_refs\<close> is the count in the fence base.\<close>

record goldfish_sync_timeline =
  tl_refs :: nat
  tl_id :: u64
  tl_seqno :: u32
  active_list :: "nat list"

record sync_pt =
  pt_timeline :: nat
  pt_seqno :: u64
  pt_refs :: nat
  pt_signaled :: bool

text \<open>
  \<open>to_do\<close> has \<^verbatim>\<open>GOLDFISH_SYNC_MAX_CMDS\<close> cells; \<open>batch_hostcmd\<close> and \<open>batch_guestcmd\<close> are the physical
  addresses of the two structures shared with the device; a file holds a fence. \<open>delayed\<close>
  has the fences of the files whose last reference is gone and whose release is still to run.
\<close>

record goldfish_sync_state =
  id_counter :: u64
  to_do :: "goldfish_sync_batch_cmd list"
  to_do_end :: nat
  batch_hostcmd :: u64
  batch_guestcmd :: u64
  work_scheduled :: bool
  timelines :: "nat \<Rightarrow> goldfish_sync_timeline option"
  points :: "nat \<Rightarrow> sync_pt option"
  next_obj :: nat
  files :: "int \<Rightarrow> nat option"
  delayed :: "nat list"
  registered :: bool

record kernel =
  kzalloc_ok :: bool
  unused_fd :: int
  sync_file_ok :: bool
  copy_from_user_ok :: bool
  copy_to_user_ok :: bool
  mutex_lock_ok :: bool

definition GOLDFISH_SYNC_MAX_CMDS :: nat where
  "GOLDFISH_SYNC_MAX_CMDS = 32"

section \<open>Timelines\<close>

definition the_timeline :: "goldfish_sync_state \<Rightarrow> nat \<Rightarrow> goldfish_sync_timeline res" where
  "the_timeline d a =
    (if a = 0 then Inl NullDeref else case timelines d a of None \<Rightarrow> Inl UseAfterFree | Some t \<Rightarrow> Inr t)"

definition the_point :: "goldfish_sync_state \<Rightarrow> nat \<Rightarrow> sync_pt res" where
  "the_point d a = (case points d a of None \<Rightarrow> Inl UseAfterFree | Some p \<Rightarrow> Inr p)"

text \<open>A null pointer is address 0; objects are made at addresses that were never used.\<close>

definition goldfish_sync_timeline_create :: "kernel \<Rightarrow> goldfish_sync_state \<Rightarrow> nat \<times> goldfish_sync_state" where
  "goldfish_sync_timeline_create k d =
    (if kzalloc_ok k
     then (next_obj d,
       d\<lparr>id_counter := id_counter d + 1,
         timelines := (timelines d)(next_obj d \<mapsto>
           \<lparr>tl_refs = 1, tl_id = id_counter d + 1, tl_seqno = 0, active_list = []\<rparr>),
         next_obj := next_obj d + 1\<rparr>)
     else (0, d))"

definition goldfish_sync_timeline_get :: "goldfish_sync_state \<Rightarrow> nat \<Rightarrow> goldfish_sync_state res" where
  "goldfish_sync_timeline_get d a =
     rbind (the_timeline d a) (\<lambda>t. Inr (d\<lparr>timelines := (timelines d)(a \<mapsto> t\<lparr>tl_refs := tl_refs t + 1\<rparr>)\<rparr>))"

definition goldfish_sync_timeline_put :: "goldfish_sync_state \<Rightarrow> nat \<Rightarrow> goldfish_sync_state res" where
  "goldfish_sync_timeline_put d a =
     rbind (the_timeline d a) (\<lambda>t.
       if tl_refs t \<le> 1 then Inr (d\<lparr>timelines := (timelines d)(a := None)\<rparr>)
       else Inr (d\<lparr>timelines := (timelines d)(a \<mapsto> t\<lparr>tl_refs := tl_refs t - 1\<rparr>)\<rparr>))"

text \<open>The sequence number of a timeline has 32 bits, that of a fence 64.\<close>

definition goldfish_sync_timeline_fence_signaled :: "goldfish_sync_timeline \<Rightarrow> sync_pt \<Rightarrow> bool" where
  "goldfish_sync_timeline_fence_signaled t p \<longleftrightarrow> ucast (tl_seqno t) \<ge> pt_seqno p"

text \<open>\<^verbatim>\<open>dma_fence_is_signaled_locked\<close> signals a fence whose callback says so.\<close>

definition dma_fence_is_signaled :: "goldfish_sync_timeline \<Rightarrow> sync_pt \<Rightarrow> bool" where
  "dma_fence_is_signaled t p \<longleftrightarrow> pt_signaled p \<or> goldfish_sync_timeline_fence_signaled t p"

fun signal_loop :: "goldfish_sync_state \<Rightarrow> goldfish_sync_timeline \<Rightarrow> nat list \<Rightarrow> (nat list \<times> goldfish_sync_state) res" where
  "signal_loop d t [] = Inr ([], d)"
| "signal_loop d t (a # as) =
     rbind (the_point d a) (\<lambda>p.
     if dma_fence_is_signaled t p
     then signal_loop (d\<lparr>points := (points d)(a \<mapsto> p\<lparr>pt_signaled := True\<rparr>)\<rparr>) t as
     else rbind (signal_loop d t as) (\<lambda>(rest, d). Inr (a # rest, d)))"

definition goldfish_sync_timeline_signal :: "goldfish_sync_state \<Rightarrow> nat \<Rightarrow> u32 \<Rightarrow> goldfish_sync_state res" where
  "goldfish_sync_timeline_signal d a inc =
     rbind (the_timeline d a) (\<lambda>t.
     let t = t\<lparr>tl_seqno := tl_seqno t + inc\<rparr> in
     rbind (signal_loop d t (active_list t)) (\<lambda>(rest, d).
       Inr (d\<lparr>timelines := (timelines d)(a \<mapsto> t\<lparr>active_list := rest\<rparr>)\<rparr>)))"

section \<open>Fences\<close>

definition goldfish_sync_pt_create :: "kernel \<Rightarrow> goldfish_sync_state \<Rightarrow> nat \<Rightarrow> u32 \<Rightarrow> (nat \<times> goldfish_sync_state) res" where
  "goldfish_sync_pt_create k d tln value =
    (if kzalloc_ok k
     then let a = next_obj d;
              d = d\<lparr>points := (points d)(a \<mapsto> \<lparr>pt_timeline = tln, pt_seqno = ucast value, pt_refs = 1, pt_signaled = False\<rparr>),
                    next_obj := a + 1\<rparr>
          in rbind (goldfish_sync_timeline_get d tln) (\<lambda>d. Inr (a, d))
     else Inr (0, d))"

definition goldfish_sync_pt_destroy :: "goldfish_sync_state \<Rightarrow> nat \<Rightarrow> goldfish_sync_state res" where
  "goldfish_sync_pt_destroy d a =
     rbind (the_point d a) (\<lambda>p.
     rbind (the_timeline d (pt_timeline p)) (\<lambda>t.
     let d = d\<lparr>timelines := (timelines d)(pt_timeline p \<mapsto> t\<lparr>active_list := filter (\<lambda>b. b \<noteq> a) (active_list t)\<rparr>)\<rparr> in
     rbind (goldfish_sync_timeline_put d (pt_timeline p)) (\<lambda>d.
       Inr (d\<lparr>points := (points d)(a := None)\<rparr>))))"

text \<open>\<^verbatim>\<open>dma_fence_put\<close>: the last reference releases the fence.\<close>

definition dma_fence_put :: "goldfish_sync_state \<Rightarrow> nat \<Rightarrow> goldfish_sync_state res" where
  "dma_fence_put d a =
     rbind (the_point d a) (\<lambda>p.
       if pt_refs p \<le> 1 then goldfish_sync_pt_destroy d a
       else Inr (d\<lparr>points := (points d)(a \<mapsto> p\<lparr>pt_refs := pt_refs p - 1\<rparr>)\<rparr>))"

definition goldfish_sync_timeline_fence_enable_signaling :: "goldfish_sync_state \<Rightarrow> nat \<Rightarrow> (bool \<times> goldfish_sync_state) res" where
  "goldfish_sync_timeline_fence_enable_signaling d a =
     rbind (the_point d a) (\<lambda>p.
     rbind (the_timeline d (pt_timeline p)) (\<lambda>t.
       if goldfish_sync_timeline_fence_signaled t p then Inr (False, d)
       else Inr (True, d\<lparr>timelines := (timelines d)(pt_timeline p \<mapsto> t\<lparr>active_list := active_list t @ [a]\<rparr>)\<rparr>)))"

text \<open>
  A file made of a fence takes a reference; installed at its descriptor, it is the only
  owner once the driver gives its own back.
\<close>

definition goldfish_sync_fence_create ::
  "kernel \<Rightarrow> goldfish_sync_state \<Rightarrow> nat \<Rightarrow> u32 \<Rightarrow> ((int \<times> nat) option \<times> goldfish_sync_state) res" where
  "goldfish_sync_fence_create k d tln val =
     rbind (goldfish_sync_pt_create k d tln val) (\<lambda>(pt, d).
     if pt = 0 then Inr (None, d)
     else if unused_fd k < 0 \<or> \<not> sync_file_ok k
     then rbind (goldfish_sync_pt_destroy d pt) (\<lambda>d. Inr (None, d))
     else rbind (the_point d pt) (\<lambda>p.
          let d = d\<lparr>points := (points d)(pt \<mapsto> p\<lparr>pt_refs := pt_refs p + 1\<rparr>), files := (files d)(unused_fd k \<mapsto> pt)\<rparr> in
          rbind (dma_fence_put d pt) (\<lambda>d. Inr (Some (unused_fd k, pt), d))))"

text \<open>
  The kernel puts the release of a file off when its last reference is dropped: \<^verbatim>\<open>fput\<close> only
  notes it, and the release, which gives up the fence of the file, runs when the process
  returns to user space. The file of a fence has one reference, that of its descriptor, which
  \<^verbatim>\<open>fput\<close> does not remove.
\<close>

definition fput :: "goldfish_sync_state \<Rightarrow> nat \<Rightarrow> goldfish_sync_state" where
  "fput d pt = d\<lparr>delayed := delayed d @ [pt]\<rparr>"

fun release_files :: "goldfish_sync_state \<Rightarrow> nat list \<Rightarrow> goldfish_sync_state res" where
  "release_files d [] = Inr d"
| "release_files d (pt # pts) = rbind (dma_fence_put d pt) (\<lambda>d. release_files d pts)"

definition return_to_user :: "goldfish_sync_state \<Rightarrow> goldfish_sync_state res" where
  "return_to_user d = release_files (d\<lparr>delayed := []\<rparr>) (delayed d)"

definition fd_close :: "goldfish_sync_state \<Rightarrow> int \<Rightarrow> goldfish_sync_state res" where
  "fd_close d fd =
    (case files d fd of
       None \<Rightarrow> Inr d
     | Some pt \<Rightarrow> return_to_user (fput (d\<lparr>files := (files d)(fd := None)\<rparr>) pt))"

definition goldfish_sync_fence_destroy :: "goldfish_sync_state \<Rightarrow> int \<times> nat \<Rightarrow> goldfish_sync_state res" where
  "goldfish_sync_fence_destroy d fence = goldfish_sync_pt_destroy (fput d (snd fence)) (snd fence)"

section \<open>Commands of the host\<close>

definition goldfish_sync_cmd_queue :: "goldfish_sync_state \<Rightarrow> goldfish_sync_batch_cmd \<Rightarrow> goldfish_sync_state res" where
  "goldfish_sync_cmd_queue d c =
     rbind (awrite (to_do d) (to_do_end d) c) (\<lambda>xs. Inr (d\<lparr>to_do := xs, to_do_end := to_do_end d + 1\<rparr>))"

text \<open>
  The interrupt handler reads the command register until the device answers with
  command 0; \<open>n\<close> bounds the number of reads.
\<close>

fun interrupt_loop ::
  "nat \<Rightarrow> goldfish_sync_state \<Rightarrow> 'h goldfish_sync_dev \<Rightarrow> (goldfish_sync_state \<times> 'h goldfish_sync_dev) res" where
  "interrupt_loop 0 d s = Inl Hang"
| "interrupt_loop (Suc n) d s =
     rbind (goldfish_sync_read s 0x00) (\<lambda>(_, s).
     let c = batch_cmd_of (cpu_physical_memory_read (ram s) (batch_hostcmd d) 24) in
     if sync_cmd c = 0 then Inr (d, s)
     else rbind (goldfish_sync_cmd_queue d c) (\<lambda>d. interrupt_loop n d s))"

definition goldfish_sync_interrupt_impl ::
  "nat \<Rightarrow> goldfish_sync_state \<Rightarrow> 'h goldfish_sync_dev \<Rightarrow> (goldfish_sync_state \<times> 'h goldfish_sync_dev) res" where
  "goldfish_sync_interrupt_impl n d s =
     rbind (interrupt_loop n d s) (\<lambda>(d, s). Inr (d\<lparr>work_scheduled := True\<rparr>, s))"

text \<open>The handler is installed before the device node, and does nothing until then.\<close>

definition goldfish_sync_interrupt ::
  "nat \<Rightarrow> goldfish_sync_state \<Rightarrow> 'h goldfish_sync_dev \<Rightarrow> (bool \<times> goldfish_sync_state \<times> 'h goldfish_sync_dev) res" where
  "goldfish_sync_interrupt n d s =
    (if registered d then rbind (goldfish_sync_interrupt_impl n d s) (\<lambda>ds. Inr (True, ds)) else Inr (False, d, s))"

definition goldfish_sync_grab_commands :: "goldfish_sync_state \<Rightarrow> goldfish_sync_batch_cmd list \<times> goldfish_sync_state" where
  "goldfish_sync_grab_commands d = (take (to_do_end d) (to_do d), d\<lparr>to_do_end := 0\<rparr>)"

definition goldfish_sync_hostcmd_reply ::
  "('h, 's) GoldfishSyncServiceOps \<Rightarrow> goldfish_sync_state \<Rightarrow> 'h goldfish_sync_dev \<Rightarrow> u32 \<Rightarrow> u64 \<Rightarrow> u32 \<Rightarrow> u64 \<Rightarrow>
   'h goldfish_sync_dev res" where
  "goldfish_sync_hostcmd_reply service_ops d s cmd handle time hostcmd =
     goldfish_sync_write service_ops
       (s\<lparr>ram := cpu_physical_memory_write (ram s) (batch_hostcmd d)
          (batch_cmd_bytes \<lparr>sync_handle = handle, hostcmd_handle = hostcmd, sync_cmd = cmd, time_arg = time\<rparr>)\<rparr>) 0x00 0"

definition guestcmd_bytes :: "u64 \<Rightarrow> u64 \<Rightarrow> u64 \<Rightarrow> u64 \<Rightarrow> u8 list" where
  "guestcmd_bytes cmd glsync thread tln = le64 cmd @ le64 glsync @ le64 thread @ le64 tln"

definition goldfish_sync_send_guestcmd ::
  "('h, 's) GoldfishSyncServiceOps \<Rightarrow> goldfish_sync_state \<Rightarrow> 'h goldfish_sync_dev \<Rightarrow> u32 \<Rightarrow> u64 \<Rightarrow> u64 \<Rightarrow> u64 \<Rightarrow>
   'h goldfish_sync_dev res" where
  "goldfish_sync_send_guestcmd service_ops d s cmd glsync thread tln =
     goldfish_sync_write service_ops
       (s\<lparr>ram := cpu_physical_memory_write (ram s) (batch_guestcmd d) (guestcmd_bytes (ucast cmd) glsync thread tln)\<rparr>) 0x04 0"

definition goldfish_sync_run_hostcmd ::
  "('h, 's) GoldfishSyncServiceOps \<Rightarrow> kernel \<Rightarrow> goldfish_sync_batch_cmd \<Rightarrow>
   goldfish_sync_state \<times> 'h goldfish_sync_dev \<Rightarrow> (goldfish_sync_state \<times> 'h goldfish_sync_dev) res" where
  "goldfish_sync_run_hostcmd service_ops k c ds =
    (let (d, s) = ds; tln = unat (sync_handle c) in
     if sync_cmd c = 1 then
       (let (t, d) = goldfish_sync_timeline_create k d in
        rbind (goldfish_sync_hostcmd_reply service_ops d s 1 (of_nat t) 0 (hostcmd_handle c)) (\<lambda>s. Inr (d, s)))
     else if sync_cmd c = 2 then
       rbind (goldfish_sync_fence_create k d tln (time_arg c)) (\<lambda>(fence, d).
       rbind (goldfish_sync_hostcmd_reply service_ops d s 2
         (case fence of None \<Rightarrow> - 1 | Some (fd, _) \<Rightarrow> of_int fd) 0 (hostcmd_handle c)) (\<lambda>s. Inr (d, s)))
     else if sync_cmd c = 3 then
       rbind (goldfish_sync_timeline_signal d tln (time_arg c)) (\<lambda>d. Inr (d, s))
     else if sync_cmd c = 4 then
       rbind (goldfish_sync_timeline_put d tln) (\<lambda>d. Inr (d, s))
     else Inr (d, s))"

fun run_hostcmds ::
  "('h, 's) GoldfishSyncServiceOps \<Rightarrow> (nat \<Rightarrow> kernel) \<Rightarrow> nat \<Rightarrow> goldfish_sync_batch_cmd list \<Rightarrow>
   goldfish_sync_state \<times> 'h goldfish_sync_dev \<Rightarrow> (goldfish_sync_state \<times> 'h goldfish_sync_dev) res" where
  "run_hostcmds service_ops k i [] ds = Inr ds"
| "run_hostcmds service_ops k i (c # cs) ds =
     rbind (goldfish_sync_run_hostcmd service_ops (k i) c ds) (run_hostcmds service_ops k (Suc i) cs)"

definition goldfish_sync_work_item_fn ::
  "('h, 's) GoldfishSyncServiceOps \<Rightarrow> (nat \<Rightarrow> kernel) \<Rightarrow>
   goldfish_sync_state \<times> 'h goldfish_sync_dev \<Rightarrow> (goldfish_sync_state \<times> 'h goldfish_sync_dev) res" where
  "goldfish_sync_work_item_fn service_ops k ds =
    (let (cs, d) = goldfish_sync_grab_commands (fst ds) in
     run_hostcmds service_ops k 0 cs (d\<lparr>work_scheduled := False\<rparr>, snd ds))"

section \<open>The interface of user space\<close>

definition goldfish_sync_open :: "kernel \<Rightarrow> goldfish_sync_state \<Rightarrow> (nat + nat) \<times> goldfish_sync_state" where
  "goldfish_sync_open k d =
    (if \<not> mutex_lock_ok k then (Inl 512, d)
     else let (t, d) = goldfish_sync_timeline_create k d in (if t = 0 then Inl 12 else Inr t, d))"

definition goldfish_sync_release :: "goldfish_sync_state \<Rightarrow> nat \<Rightarrow> goldfish_sync_state res" where
  "goldfish_sync_release d tln = goldfish_sync_timeline_put d tln"

text \<open>
  The result is a negated error number or the descriptor of the fence. The numbers are
  those of \<^verbatim>\<open>EFAULT\<close>, \<^verbatim>\<open>EAGAIN\<close> and \<^verbatim>\<open>ENOTTY\<close>; the command is
  \<^verbatim>\<open>_IOWR('@', 0, struct goldfish_sync_ioctl_info)\<close>, a structure of 24 bytes.
\<close>

definition GOLDFISH_SYNC_IOC_QUEUE_WORK :: u32 where
  "GOLDFISH_SYNC_IOC_QUEUE_WORK = 0xc0184000"

definition goldfish_sync_ioctl_locked ::
  "('h, 's) GoldfishSyncServiceOps \<Rightarrow> kernel \<Rightarrow> goldfish_sync_state \<times> 'h goldfish_sync_dev \<Rightarrow> nat \<Rightarrow> u32 \<Rightarrow> u64 \<times> u64 \<Rightarrow>
   ((nat + int) \<times> goldfish_sync_state \<times> 'h goldfish_sync_dev) res" where
  "goldfish_sync_ioctl_locked service_ops k ds tln cmd arg =
    (let (d, s) = ds; (glsync, thread) = arg in
     if cmd = GOLDFISH_SYNC_IOC_QUEUE_WORK then
       if \<not> copy_from_user_ok k then Inr (Inl 14, d, s)
       else if thread = 0 then Inr (Inl 14, d, s)
       else rbind (the_timeline d tln) (\<lambda>t.
            rbind (goldfish_sync_fence_create k d tln (tl_seqno t + 1)) (\<lambda>(fence, d).
            case fence of
              None \<Rightarrow> Inr (Inl 11, d, s)
            | Some f \<Rightarrow>
                if \<not> copy_to_user_ok k
                then rbind (goldfish_sync_fence_destroy d f) (\<lambda>d. Inr (Inl 14, d, s))
                else rbind (goldfish_sync_send_guestcmd service_ops d s 5 glsync thread (of_nat tln)) (\<lambda>s.
                  Inr (Inr (fst f), d, s))))
     else Inr (Inl 25, d, s))"

text \<open>The mutex is taken interruptibly: a signal gives \<^verbatim>\<open>ERESTARTSYS\<close>.\<close>

definition goldfish_sync_ioctl ::
  "('h, 's) GoldfishSyncServiceOps \<Rightarrow> kernel \<Rightarrow> goldfish_sync_state \<times> 'h goldfish_sync_dev \<Rightarrow> nat \<Rightarrow> u32 \<Rightarrow> u64 \<times> u64 \<Rightarrow>
   ((nat + int) \<times> goldfish_sync_state \<times> 'h goldfish_sync_dev) res" where
  "goldfish_sync_ioctl service_ops k ds tln cmd arg =
     rbind (the_timeline (fst ds) tln) (\<lambda>_.
       if \<not> mutex_lock_ok k then Inr (Inl 512, ds)
       else goldfish_sync_ioctl_locked service_ops k ds tln cmd arg)"

section \<open>Probing\<close>

text \<open>The registers are 32 bits wide.\<close>

definition setup_verify_batch_cmd_addr ::
  "('h, 's) GoldfishSyncServiceOps \<Rightarrow> 'h goldfish_sync_dev \<Rightarrow> u64 \<Rightarrow> u64 \<Rightarrow> u64 \<Rightarrow> (bool \<times> 'h goldfish_sync_dev) res" where
  "setup_verify_batch_cmd_addr service_ops s phys offset offset_high =
     rbind (goldfish_sync_write service_ops s offset (ucast (lower_32_bits phys))) (\<lambda>s.
     rbind (goldfish_sync_write service_ops s offset_high (ucast (upper_32_bits phys))) (\<lambda>s.
     rbind (goldfish_sync_read s offset) (\<lambda>(lo, s).
     rbind (goldfish_sync_read s offset_high) (\<lambda>(hi, s).
       Inr (phys = ucast (lower_32_bits lo) OR push_bit 32 (ucast (lower_32_bits hi)), s)))))"

definition new_driver :: "u64 \<Rightarrow> u64 \<Rightarrow> goldfish_sync_state" where
  "new_driver hostcmd guestcmd =
     \<lparr>id_counter = 0,
      to_do = replicate GOLDFISH_SYNC_MAX_CMDS \<lparr>sync_handle = 0, hostcmd_handle = 0, sync_cmd = 0, time_arg = 0\<rparr>,
      to_do_end = 0, batch_hostcmd = hostcmd, batch_guestcmd = guestcmd, work_scheduled = False,
      timelines = (\<lambda>_. None), points = (\<lambda>_. None), next_obj = 1, files = (\<lambda>_. None),
      delayed = [], registered = True\<rparr>"

text \<open>
  The answers of the kernel to a probe: the memory for the state, the register window, the
  interrupt number and the results of requesting it and of making the device node. What was
  obtained is given back by the kernel when the probe fails; the error is \<open>Inl\<close> its number, 12
  for \<^verbatim>\<open>ENOMEM\<close> and 19 for \<^verbatim>\<open>ENODEV\<close>.
\<close>

record probe_kernel =
  devm_kzalloc_ok :: bool
  resource_ok :: bool
  devm_ioremap_ok :: bool
  platform_irq :: int
  request_irq :: int
  sync_misc_register :: int

definition goldfish_sync_probe ::
  "('h, 's) GoldfishSyncServiceOps \<Rightarrow> probe_kernel \<Rightarrow> 'h goldfish_sync_dev \<Rightarrow> u64 \<Rightarrow> u64 \<Rightarrow>
   ((nat + goldfish_sync_state) \<times> 'h goldfish_sync_dev) res" where
  "goldfish_sync_probe service_ops k s hostcmd guestcmd =
    (if \<not> devm_kzalloc_ok k then Inr (Inl ENOMEM, s)
     else if \<not> resource_ok k then Inr (Inl 19, s)
     else if \<not> devm_ioremap_ok k then Inr (Inl ENOMEM, s)
     else if platform_irq k < 0 then Inr (Inl 19, s)
     else if request_irq k \<noteq> 0 then Inr (Inl 19, s)
     else
       rbind (setup_verify_batch_cmd_addr service_ops s hostcmd 0x08 0x0c) (\<lambda>(ok, s).
       if \<not> ok then Inr (Inl 19, s)
       else rbind (setup_verify_batch_cmd_addr service_ops s guestcmd 0x10 0x14) (\<lambda>(ok, s).
       if \<not> ok then Inr (Inl 19, s)
       else if sync_misc_register k \<noteq> 0 then Inr (Inl 19, s)
       else rbind (goldfish_sync_write service_ops s 0x18 0) (\<lambda>s.
         Inr (Inr (new_driver hostcmd guestcmd), s)))))"

section \<open>The interrupt handler\<close>

lemma cmd_queue_fits:
  assumes "to_do_end d < length (to_do d)"
  shows "\<exists>d'. goldfish_sync_cmd_queue d c = Inr d' \<and> to_do_end d' = to_do_end d + 1 \<and>
     take (to_do_end d') (to_do d') = take (to_do_end d) (to_do d) @ [c] \<and> length (to_do d') = length (to_do d) \<and>
     timelines d' = timelines d \<and> points d' = points d \<and> files d' = files d \<and> batch_hostcmd d' = batch_hostcmd d"
  using assms by (simp add: goldfish_sync_cmd_queue_def awrite_def take_Suc_conv_app_nth)

text \<open>The loop takes the whole queue of the device, one command per read and one read for its end.\<close>

lemma interrupt_loop_drains:
  assumes "queue_at s as" "batch_cmd_addr s = batch_hostcmd d" "batch_hostcmd d \<noteq> 0"
    and "\<forall>c \<in> set (sync_queue s). sync_cmd c \<noteq> 0" "to_do_end d + length (sync_queue s) \<le> length (to_do d)"
    and "length as < n"
  shows "\<exists>d' s'. interrupt_loop n d s = Inr (d', s') \<and> to_do_end d' = to_do_end d + length (sync_queue s) \<and>
     take (to_do_end d') (to_do d') = take (to_do_end d) (to_do d) @ sync_queue s \<and> length (to_do d') = length (to_do d) \<and>
     timelines d' = timelines d \<and> points d' = points d \<and> files d' = files d \<and>
     batch_hostcmd d' = batch_hostcmd d \<and> queue_at s' [] \<and> \<not> sync_irq s' \<and> batch_cmd_addr s' = batch_cmd_addr s \<and>
     service s' = service s"
  using assms
proof (induction as arbitrary: n d s)
  case Nil
  then obtain m where n: "n = Suc m" by (cases n) auto
  obtain s' where s': "goldfish_sync_read s 0 = Inr (0, s')" "queue_at s' []" "\<not> sync_irq s'"
    "batch_cmd_addr s' = batch_cmd_addr s" "service s' = service s"
    "ram s' = cpu_physical_memory_write (ram s) (batch_cmd_addr s) (batch_cmd_bytes (prefix_cmd zero_cmd))"
    using read_empty_queue_at [OF Nil(1)] Nil(2,3) by auto
  have "sync_queue s = []" using sync_queue_at [OF Nil(1)] by (simp add: cmds_at_def)
  then show ?case
    using s' n Nil(2) by (auto simp: zero_cmd_def goldfish_sync_batch_cmd.defs)
next
  case (Cons a as)
  then obtain m where n: "n = Suc m" "length as < m" by (cases n) auto
  obtain s1 where s1: "goldfish_sync_read s 0 = Inr (0, s1)" "queue_at s1 as" "sync_queue s1 = tl (sync_queue s)"
    "batch_cmd_addr s1 = batch_cmd_addr s" "service s1 = service s"
    "ram s1 = cpu_physical_memory_write (ram s) (batch_cmd_addr s) (batch_cmd_bytes (hd (sync_queue s)))"
    using read_command_queue_at [OF Cons.prems(1)] Cons.prems(2,3) by auto
  have q: "sync_queue s = hd (sync_queue s) # sync_queue s1"
    using s1(3) sync_queue_Nil_iff [OF Cons.prems(1)] by simp
  have fits: "to_do_end d < length (to_do d)"
    using Cons.prems(5) q by (metis add_Suc_right length_Cons less_add_Suc1 less_le_trans)
  obtain d1 where d1: "goldfish_sync_cmd_queue d (hd (sync_queue s)) = Inr d1" "to_do_end d1 = to_do_end d + 1"
    "take (to_do_end d1) (to_do d1) = take (to_do_end d) (to_do d) @ [hd (sync_queue s)]"
    "length (to_do d1) = length (to_do d)" "timelines d1 = timelines d" "points d1 = points d" "files d1 = files d"
    "batch_hostcmd d1 = batch_hostcmd d"
    using cmd_queue_fits [OF fits] by blast
  have "sync_cmd (hd (sync_queue s)) \<noteq> 0" "\<forall>c \<in> set (sync_queue s1). sync_cmd c \<noteq> 0"
    "length (sync_queue s) = Suc (length (sync_queue s1))"
    using Cons.prems(4) q by (metis list.set_intros(1), metis list.set_intros(2), metis length_Cons)
  moreover have "interrupt_loop n d s = interrupt_loop m d1 s1"
    using n(1) s1 d1(1) Cons.prems(2) calculation(1) by simp
  ultimately show ?case
    using Cons.IH [OF s1(2), of d1 m] n(2) s1(4,5) d1(2-) Cons.prems(2,3,5) q by auto
qed

lemma interrupt_loop_overruns:
  assumes "queue_at s as" "batch_cmd_addr s = batch_hostcmd d" "batch_hostcmd d \<noteq> 0"
    and "\<forall>c \<in> set (sync_queue s). sync_cmd c \<noteq> 0" "to_do_end d \<le> length (to_do d)"
    and "length (to_do d) < to_do_end d + length (sync_queue s)" "length as < n"
  shows "interrupt_loop n d s = Inl OutOfBounds"
  using assms
proof (induction as arbitrary: n d s)
  case Nil
  then show ?case using sync_queue_Nil_iff [OF Nil(1)] by simp
next
  case (Cons a as)
  then obtain m where n: "n = Suc m" "length as < m" by (cases n) auto
  obtain s1 where s1: "goldfish_sync_read s 0 = Inr (0, s1)" "queue_at s1 as" "sync_queue s1 = tl (sync_queue s)"
    "batch_cmd_addr s1 = batch_cmd_addr s"
    "ram s1 = cpu_physical_memory_write (ram s) (batch_cmd_addr s) (batch_cmd_bytes (hd (sync_queue s)))"
    using read_command_queue_at [OF Cons.prems(1)] Cons.prems(2,3) by auto
  have q: "sync_queue s = hd (sync_queue s) # sync_queue s1"
    using s1(3) sync_queue_Nil_iff [OF Cons.prems(1)] by simp
  then have cmds: "sync_cmd (hd (sync_queue s)) \<noteq> 0" "\<forall>c \<in> set (sync_queue s1). sync_cmd c \<noteq> 0"
    "length (sync_queue s) = Suc (length (sync_queue s1))"
    using Cons.prems(4) by (metis list.set_intros(1), metis list.set_intros(2), metis length_Cons)
  show ?case
  proof (cases "to_do_end d < length (to_do d)")
    case True
    then obtain d1 where d1: "goldfish_sync_cmd_queue d (hd (sync_queue s)) = Inr d1" "to_do_end d1 = to_do_end d + 1"
      "length (to_do d1) = length (to_do d)" "batch_hostcmd d1 = batch_hostcmd d"
      using cmd_queue_fits by blast
    then have "interrupt_loop n d s = interrupt_loop m d1 s1"
      using n(1) s1 Cons.prems(2) cmds(1) by simp
    then show ?thesis
      using Cons.IH [OF s1(2), of d1 m] n(2) s1(4) d1(2-) Cons.prems(2,3,6) True cmds by simp
  next
    case False
    then show ?thesis
      using n(1) s1 Cons.prems(2) cmds(1) by (simp add: goldfish_sync_cmd_queue_def awrite_def)
  qed
qed

text \<open>
  C24. The interrupt handler against the device, as long as the host sends no command 0:
  it ends after one read per waiting command and one more, the commands follow those of
  the buffer in the order in which the host sent them, the queue of the device is empty,
  its line is down and the work item is scheduled; unless the buffer cannot hold them,
  and then it writes behind the buffer (the code only warns).
\<close>

theorem interrupt_takes_all_commands:
  assumes "sync_ok s" "batch_cmd_addr s = batch_hostcmd d" "batch_hostcmd d \<noteq> 0"
    and "\<forall>c \<in> set (sync_queue s). sync_cmd c \<noteq> 0" "to_do_end d \<le> length (to_do d)"
    and "length (sync_queue s) < n"
  shows "if to_do_end d + length (sync_queue s) \<le> length (to_do d)
     then \<exists>d' s'. goldfish_sync_interrupt_impl n d s = Inr (d', s') \<and>
       fst (goldfish_sync_grab_commands d') = fst (goldfish_sync_grab_commands d) @ sync_queue s \<and>
       sync_queue s' = [] \<and> \<not> sync_irq s' \<and> work_scheduled d'
     else goldfish_sync_interrupt_impl n d s = Inl OutOfBounds"
proof -
  obtain as where as: "queue_at s as" using assms(1) by (auto simp: sync_ok_def)
  then have n: "length as < n" using assms(6) by (simp add: sync_queue_at cmds_at_def)
  show ?thesis
  proof (cases "to_do_end d + length (sync_queue s) \<le> length (to_do d)")
    case True
    then show ?thesis
      using interrupt_loop_drains [OF as assms(2-4) _ n] sync_queue_Nil_iff
      by (fastforce simp: goldfish_sync_interrupt_impl_def goldfish_sync_grab_commands_def)
  next
    case False
    then show ?thesis
      using interrupt_loop_overruns [OF as assms(2-5) _ n] by (simp add: goldfish_sync_interrupt_impl_def)
  qed
qed

lemma two_commands_are:
  "sync_queue two_commands =
     [\<lparr>sync_handle = 1, hostcmd_handle = 2, sync_cmd = 3, time_arg = 1\<rparr>,
      \<lparr>sync_handle = 4, hostcmd_handle = 5, sync_cmd = 2, time_arg = 7\<rparr>]"
  using sync_queue_at [OF two_commands_queue]
  by (simp add: cmds_at_def two_commands_def goldfish_sync_batch_cmd.defs)

theorem interrupt_takes_all_commands_witness:
  "\<exists>d' s'. goldfish_sync_interrupt_impl 3 (new_driver 0x1000 0x2000) two_commands = Inr (d', s') \<and>
     fst (goldfish_sync_grab_commands d') = sync_queue two_commands \<and> \<not> sync_irq s'"
proof -
  have "sync_ok two_commands" using two_commands_queue unfolding sync_ok_def by blast
  moreover have "batch_cmd_addr two_commands = batch_hostcmd (new_driver 0x1000 0x2000)"
    by (simp add: two_commands_def new_driver_def)
  ultimately show ?thesis
    using interrupt_takes_all_commands [of two_commands "new_driver 0x1000 0x2000" 3]
    by (auto simp: two_commands_are new_driver_def goldfish_sync_grab_commands_def GOLDFISH_SYNC_MAX_CMDS_def)
qed

section \<open>Probing\<close>

lemma lower_upper_join: "ucast (lower_32_bits v) OR push_bit 32 (ucast (upper_32_bits v)) = (v :: u64)"
  unfolding lower_32_bits_def upper_32_bits_def
  by (rule bit_word_eqI) (auto simp: bit_simps not_less)

lemma lower_of_u32: "lower_32_bits (ucast v) = v"
  by (simp add: lower_32_bits_def ucast_up_down)

lemma setup_verify_ok:
  "setup_verify_batch_cmd_addr service_ops s phys 0x08 0x0c = Inr (True, s\<lparr>batch_cmd_addr := phys\<rparr>)"
  "setup_verify_batch_cmd_addr service_ops s phys 0x10 0x14 = Inr (True, s\<lparr>batch_guestcmd_addr := phys\<rparr>)"
  by (simp_all add: setup_verify_batch_cmd_addr_def goldfish_sync_write_def goldfish_sync_read_def lower_upper_join
      lower_of_u32)

definition probe_grants :: "probe_kernel \<Rightarrow> bool" where
  "probe_grants k \<longleftrightarrow>
     devm_kzalloc_ok k \<and> resource_ok k \<and> devm_ioremap_ok k \<and> 0 \<le> platform_irq k \<and> request_irq k = 0"

lemma reset_addresses:
  assumes "goldfish_sync_reset_device s = Inr s'"
  shows "batch_cmd_addr s' = batch_cmd_addr s" "batch_guestcmd_addr s' = batch_guestcmd_addr s"
proof -
  have "clear_loop n u p = Inr v \<Longrightarrow> batch_cmd_addr v = batch_cmd_addr u \<and> batch_guestcmd_addr v = batch_guestcmd_addr u"
    for n p and u v :: "'a goldfish_sync_dev"
    by (induction n u p rule: clear_loop.induct)
      (auto simp: goldfish_sync_free_cmd_def deref_def split: option.splits)
  then show "batch_cmd_addr s' = batch_cmd_addr s" "batch_guestcmd_addr s' = batch_guestcmd_addr s"
    using assms by (auto simp: goldfish_sync_reset_device_def goldfish_sync_clear_pending_def rbind_eq_Inr_iff)
qed

text \<open>
  C25. Probing against the device, with every answer of the kernel. When the kernel grants
  the memory, the registers, the interrupt and the device node, the check of the two
  addresses, written and read back in halves, never fails: the driver is made, driver and
  device agree on both addresses, no command waits and the line is down. When the kernel
  refuses memory, registers or interrupt, the probe fails and has not touched the device;
  when it refuses the device node, the probe fails and the device keeps both addresses and
  its commands. The error is \<^verbatim>\<open>ENOMEM\<close> or \<^verbatim>\<open>ENODEV\<close>.
\<close>

theorem probe_connects:
  assumes "sync_ok s"
  shows "if probe_grants k \<and> sync_misc_register k = 0
     then \<exists>d s'. goldfish_sync_probe service_ops k s hostcmd guestcmd = Inr (Inr d, s') \<and>
       batch_cmd_addr s' = hostcmd \<and> batch_hostcmd d = hostcmd \<and>
       batch_guestcmd_addr s' = guestcmd \<and> batch_guestcmd d = guestcmd \<and>
       sync_ok s' \<and> sync_queue s' = [] \<and> \<not> sync_irq s'
     else \<exists>e \<in> {12, 19}. goldfish_sync_probe service_ops k s hostcmd guestcmd =
       Inr (Inl e, if probe_grants k then s\<lparr>batch_cmd_addr := hostcmd, batch_guestcmd_addr := guestcmd\<rparr> else s)"
proof (cases "probe_grants k \<and> sync_misc_register k = 0")
  case True
  let ?s = "s\<lparr>batch_cmd_addr := hostcmd, batch_guestcmd_addr := guestcmd\<rparr>"
  obtain as where "queue_at ?s as" using assms by (auto simp: sync_ok_def queue_at_def)
  then obtain s' where s': "goldfish_sync_reset_device ?s = Inr s'" "queue_at s' []" "\<not> sync_irq s'"
    using reset_queue_at by blast
  moreover have "sync_queue s' = []" using sync_queue_Nil_iff [OF s'(2)] by simp
  ultimately show ?thesis
    using True reset_addresses [OF s'(1)]
    by (auto simp: goldfish_sync_probe_def setup_verify_ok goldfish_sync_write_def new_driver_def sync_ok_def
        probe_grants_def)
next
  case False
  then show ?thesis
    by (auto simp: goldfish_sync_probe_def probe_grants_def setup_verify_ok)
qed

definition good_probe :: probe_kernel where
  "good_probe = \<lparr>devm_kzalloc_ok = True, resource_ok = True, devm_ioremap_ok = True, platform_irq = 17, request_irq = 0,
     sync_misc_register = 0\<rparr>"

theorem probe_connects_witness:
  "(\<exists>d s'. goldfish_sync_probe no_service good_probe two_commands 0x123456789abc 0x2000 = Inr (Inr d, s') \<and>
     batch_cmd_addr s' = 0x123456789abc \<and> batch_hostcmd d = 0x123456789abc \<and> sync_queue s' = []) \<and>
   (\<exists>e \<in> {12, 19}. goldfish_sync_probe no_service (good_probe\<lparr>platform_irq := -6\<rparr>) two_commands 0x123456789abc 0x2000 =
     Inr (Inl e, two_commands))"
proof (rule conjI)
  have ok: "sync_ok two_commands" using two_commands_queue unfolding sync_ok_def by blast
  show "\<exists>d s'. goldfish_sync_probe no_service good_probe two_commands 0x123456789abc 0x2000 = Inr (Inr d, s') \<and>
     batch_cmd_addr s' = 0x123456789abc \<and> batch_hostcmd d = 0x123456789abc \<and> sync_queue s' = []"
    using probe_connects [OF ok, of good_probe no_service "0x123456789abc" "0x2000"]
    by (auto simp: good_probe_def probe_grants_def)
  show "\<exists>e \<in> {12, 19}. goldfish_sync_probe no_service (good_probe\<lparr>platform_irq := -6\<rparr>) two_commands 0x123456789abc 0x2000 =
     Inr (Inl e, two_commands)"
    using probe_connects [OF ok, of "good_probe\<lparr>platform_irq := -6\<rparr>" no_service "0x123456789abc" "0x2000"]
    by (simp add: good_probe_def probe_grants_def)
qed

section \<open>Reference counts\<close>

text \<open>
  \<open>own a\<close> counts the open files of the device that hold the timeline at \<open>a\<close>; the other
  references to it are those of its fences. Every fence is held by one descriptor.
\<close>

definition holders :: "(nat \<Rightarrow> sync_pt option) \<Rightarrow> nat \<Rightarrow> nat set" where
  "holders m a = {p. \<exists>q. m p = Some q \<and> pt_timeline q = a}"

definition timeline_counts :: "(nat \<Rightarrow> nat) \<Rightarrow> goldfish_sync_state \<Rightarrow> nat \<Rightarrow> bool" where
  "timeline_counts own d a =
    (case timelines d a of
       None \<Rightarrow> own a = 0 \<and> holders (points d) a = {}
     | Some t \<Rightarrow> tl_refs t = own a + card (holders (points d) a) \<and> 0 < tl_refs t \<and> set (active_list t) \<subseteq> holders (points d) a)"

definition point_counts :: "goldfish_sync_state \<Rightarrow> nat \<Rightarrow> bool" where
  "point_counts d p = (\<forall>q. points d p = Some q \<longrightarrow> pt_refs q = 1 \<and> (\<exists>!fd. files d fd = Some p))"

definition refs_ok :: "(nat \<Rightarrow> nat) \<Rightarrow> goldfish_sync_state \<Rightarrow> bool" where
  "refs_ok own d \<longleftrightarrow> finite (dom (points d)) \<and> 0 < next_obj d \<and>
     (\<forall>a. timelines d a \<noteq> None \<or> points d a \<noteq> None \<longrightarrow> 0 < a \<and> a < next_obj d) \<and>
     (\<forall>a. timeline_counts own d a) \<and> (\<forall>p. point_counts d p) \<and>
     (\<forall>fd p. files d fd = Some p \<longrightarrow> points d p \<noteq> None) \<and> delayed d = []"

lemma refs_okD:
  assumes "refs_ok own d"
  shows "finite (dom (points d))" "0 < next_obj d" "timeline_counts own d a" "point_counts d p"
    "timelines d a = Some t \<Longrightarrow> 0 < a \<and> a < next_obj d" "points d a = Some q \<Longrightarrow> 0 < a \<and> a < next_obj d"
    "files d fd = Some p \<Longrightarrow> \<exists>q. points d p = Some q" "finite (holders (points d) a)"
    "timelines d (next_obj d) = None" "points d (next_obj d) = None" "delayed d = []"
proof -
  show "finite (holders (points d) a)"
    by (rule finite_subset [of _ "dom (points d)"]) (use assms in \<open>auto simp: refs_ok_def holders_def\<close>)
qed (use assms in \<open>auto simp: refs_ok_def\<close>)

lemma point_timeline:
  assumes "refs_ok own d" "points d p = Some q"
  obtains t where "timelines d (pt_timeline q) = Some t" "tl_refs t = own (pt_timeline q) + card (holders (points d) (pt_timeline q))"
    "p \<in> holders (points d) (pt_timeline q)" "0 < pt_timeline q"
proof (cases "timelines d (pt_timeline q)")
  case None
  then have "holders (points d) (pt_timeline q) = {}"
    using refs_okD(3) [OF assms(1), of "pt_timeline q"] by (simp add: timeline_counts_def)
  then show ?thesis using assms(2) by (auto simp: holders_def)
next
  case (Some t)
  then show ?thesis
    using refs_okD(3) [OF assms(1), of "pt_timeline q"] refs_okD(5) [OF assms(1) Some] assms(2) that
    by (auto simp: timeline_counts_def holders_def)
qed

lemma timeline_create_refs:
  assumes "refs_ok own d" "kzalloc_ok k" "goldfish_sync_timeline_create k d = (a, d')"
  shows "refs_ok (own(a := 1)) d'" "own a = 0" "a \<noteq> 0"
proof -
  have a: "a = next_obj d" "timelines d a = None" "own a = 0" "holders (points d) a = {}" "0 < a"
    using assms refs_okD(9) [OF assms(1)] refs_okD(2) [OF assms(1)] refs_okD(3) [OF assms(1), of a]
    by (auto simp: goldfish_sync_timeline_create_def timeline_counts_def)
  have d': "points d' = points d" "files d' = files d" "next_obj d' = a + 1" "delayed d' = delayed d"
    "timelines d' = (timelines d)(a \<mapsto> \<lparr>tl_refs = 1, tl_id = id_counter d + 1, tl_seqno = 0, active_list = []\<rparr>)"
    using assms(2,3) by (auto simp: goldfish_sync_timeline_create_def)
  have "timeline_counts (own(a := 1)) d' b" for b
    using refs_okD(3) [OF assms(1), of b] a by (cases "b = a") (auto simp: timeline_counts_def d' split: option.splits)
  moreover have "point_counts d' p" for p
    using refs_okD(4) [OF assms(1), of p] by (simp add: point_counts_def d')
  ultimately show "refs_ok (own(a := 1)) d'"
    using assms(1) a(1,5) by (auto simp: refs_ok_def d' less_SucI)
  show "own a = 0" "a \<noteq> 0" using a by auto
qed

lemma timeline_put_refs:
  assumes "refs_ok own d" "0 < own a"
  shows "\<exists>d'. goldfish_sync_timeline_put d a = Inr d' \<and> refs_ok (own(a := own a - 1)) d'"
proof -
  obtain t where t: "timelines d a = Some t" "tl_refs t = own a + card (holders (points d) a)" "0 < a"
    "set (active_list t) \<subseteq> holders (points d) a"
    using refs_okD(3) [OF assms(1), of a] refs_okD(5) [OF assms(1)] assms(2)
    by (auto simp: timeline_counts_def split: option.splits)
  define d' where "d' = (if tl_refs t \<le> 1 then d\<lparr>timelines := (timelines d)(a := None)\<rparr>
    else d\<lparr>timelines := (timelines d)(a \<mapsto> t\<lparr>tl_refs := tl_refs t - 1\<rparr>)\<rparr>)"
  have "goldfish_sync_timeline_put d a = Inr d'"
    using t by (simp add: goldfish_sync_timeline_put_def the_timeline_def d'_def)
  moreover have same: "points d' = points d" "files d' = files d" "next_obj d' = next_obj d" "delayed d' = delayed d"
    by (auto simp: d'_def)
  have last: "holders (points d) a = {}" if "own a + card (holders (points d) a) \<le> Suc 0"
    using that refs_okD(8) [OF assms(1), of a] assms(2) by (cases "card (holders (points d) a)") auto
  have "timeline_counts (own(a := own a - 1)) d' b" for b
    using refs_okD(3) [OF assms(1), of b] t last assms(2)
    by (cases "b = a") (auto simp: timeline_counts_def d'_def split: option.splits)
  moreover have "point_counts d' p" for p
    using refs_okD(4) [OF assms(1), of p] by (simp add: point_counts_def same)
  moreover have "timelines d' b \<noteq> None \<Longrightarrow> timelines d b \<noteq> None" for b
    using t(1) by (auto simp: d'_def split: if_splits)
  ultimately show ?thesis
    using assms(1) by (fastforce simp: refs_ok_def same)
qed

lemma holders_iff: "p \<in> holders m a \<longleftrightarrow> map_option pt_timeline (m p) = Some a"
  by (auto simp: holders_def)

lemma holders_new: "m p = None \<Longrightarrow> holders (m(p \<mapsto> q)) a = (if pt_timeline q = a then insert p (holders m a) else holders m a)"
  by (auto simp: holders_def)

lemma holders_del: "holders (m(p := None)) a = holders m a - {p}"
  by (auto simp: holders_def)

lemma holders_same: "pt_timeline q' = pt_timeline q \<Longrightarrow> m p = Some q \<Longrightarrow> holders (m(p \<mapsto> q')) a = holders m a"
  by (auto simp: holders_def)

lemma return_drained:
  assumes "delayed d = []"
  shows "return_to_user d = Inr d" "return_to_user (fput d p) = dma_fence_put d p"
proof -
  have same: "d\<lparr>delayed := []\<rparr> = d" using assms by (cases d) simp
  then show "return_to_user d = Inr d" using assms by (simp add: return_to_user_def)
  have "return_to_user (fput d p) = rbind (dma_fence_put (d\<lparr>delayed := []\<rparr>) p) Inr"
    using assms by (simp add: return_to_user_def fput_def)
  then show "return_to_user (fput d p) = dma_fence_put d p"
    unfolding same by (cases "dma_fence_put d p") simp_all
qed

lemma pt_destroy_eq:
  assumes "points d p = Some q" "timelines d (pt_timeline q) = Some t" "pt_timeline q \<noteq> 0"
  shows "goldfish_sync_pt_destroy d p =
    Inr (d\<lparr>timelines := (timelines d)(pt_timeline q :=
             if tl_refs t \<le> 1 then None
             else Some (t\<lparr>active_list := filter (\<lambda>b. b \<noteq> p) (active_list t), tl_refs := tl_refs t - 1\<rparr>)),
           points := (points d)(p := None)\<rparr>)"
  using assms by (simp add: goldfish_sync_pt_destroy_def the_point_def the_timeline_def goldfish_sync_timeline_put_def)

text \<open>A fence that cannot be given a descriptor leaves no trace but its address.\<close>

lemma fence_create_fails:
  assumes "refs_ok own d" "0 < own a" "unused_fd k < 0 \<or> \<not> sync_file_ok k \<or> \<not> kzalloc_ok k"
  shows "\<exists>n \<ge> next_obj d. goldfish_sync_fence_create k d a v = Inr (None, d\<lparr>next_obj := n\<rparr>)"
proof (cases "kzalloc_ok k")
  case False
  then show ?thesis
    by (intro exI [of _ "next_obj d"]) (simp add: goldfish_sync_fence_create_def goldfish_sync_pt_create_def)
next
  case True
  let ?p = "next_obj d"
  obtain t where t: "timelines d a = Some t" "0 < a" "set (active_list t) \<subseteq> holders (points d) a" "0 < tl_refs t"
    using refs_okD(3) [OF assms(1), of a] refs_okD(5) [OF assms(1)] assms(2)
    by (auto simp: timeline_counts_def split: option.splits)
  have "?p \<notin> holders (points d) a"
    using refs_okD(10) [OF assms(1)] by (simp add: holders_def)
  then have same: "filter (\<lambda>b. b \<noteq> ?p) (active_list t) = active_list t"
    using t(3) by (intro filter_True) auto
  let ?q = "\<lparr>pt_timeline = a, pt_seqno = ucast v, pt_refs = 1, pt_signaled = False\<rparr>"
  let ?d = "d\<lparr>points := (points d)(?p \<mapsto> ?q), next_obj := ?p + 1, timelines := (timelines d)(a \<mapsto> t\<lparr>tl_refs := tl_refs t + 1\<rparr>)\<rparr>"
  have "goldfish_sync_pt_create k d a v = Inr (?p, ?d)"
    using True t by (simp add: goldfish_sync_pt_create_def goldfish_sync_timeline_get_def the_timeline_def Let_def)
  moreover have "goldfish_sync_pt_destroy ?d ?p = Inr (d\<lparr>next_obj := ?p + 1\<rparr>)"
    using t(1,2,4) refs_okD(10) [OF assms(1)] same
    by (subst pt_destroy_eq [where q = ?q and t = "t\<lparr>tl_refs := tl_refs t + 1\<rparr>"]) (auto simp: fun_upd_idem)
  ultimately show ?thesis
    using assms(3) True refs_okD(2) [OF assms(1)]
    by (intro exI [of _ "?p + 1"]) (auto simp: goldfish_sync_fence_create_def)
qed

lemma fence_create_succeeds:
  assumes "refs_ok own d" "0 < own a" "0 \<le> unused_fd k" "sync_file_ok k" "kzalloc_ok k" "files d (unused_fd k) = None"
  obtains t d' where "goldfish_sync_fence_create k d a v = Inr (Some (unused_fd k, next_obj d), d')"
    "timelines d a = Some t" "refs_ok own d'" "files d' = (files d)(unused_fd k \<mapsto> next_obj d)"
    "timelines d' = (timelines d)(a \<mapsto> t\<lparr>tl_refs := tl_refs t + 1\<rparr>)"
    "points d' = (points d)(next_obj d \<mapsto> \<lparr>pt_timeline = a, pt_seqno = ucast v, pt_refs = 1, pt_signaled = False\<rparr>)"
    "points d (next_obj d) = None" "batch_guestcmd d' = batch_guestcmd d"
proof -
  let ?p = "next_obj d"
  let ?q = "\<lparr>pt_timeline = a, pt_seqno = ucast v, pt_refs = 1, pt_signaled = False\<rparr>"
  note fresh = refs_okD(10) [OF assms(1)]
  obtain t where t: "timelines d a = Some t" "tl_refs t = own a + card (holders (points d) a)" "0 < a" "0 < tl_refs t"
    "set (active_list t) \<subseteq> holders (points d) a"
    using refs_okD(3) [OF assms(1), of a] refs_okD(5) [OF assms(1)] assms(2)
    by (auto simp: timeline_counts_def split: option.splits)
  define d' where "d' = d\<lparr>points := (points d)(?p \<mapsto> ?q), next_obj := ?p + 1,
      timelines := (timelines d)(a \<mapsto> t\<lparr>tl_refs := tl_refs t + 1\<rparr>), files := (files d)(unused_fd k \<mapsto> ?p)\<rparr>"
  have "goldfish_sync_fence_create k d a v = Inr (Some (unused_fd k, ?p), d')"
    using t assms(3-5) refs_okD(2) [OF assms(1)]
    by (simp add: goldfish_sync_fence_create_def goldfish_sync_pt_create_def goldfish_sync_timeline_get_def
        the_timeline_def the_point_def dma_fence_put_def Let_def d'_def)
  moreover have "?p \<notin> holders (points d) a" using fresh by (simp add: holders_def)
  then have "timeline_counts own d' b" for b
    using refs_okD(3) [OF assms(1), of b] refs_okD(8) [OF assms(1), of b] t fresh
    by (cases "b = a") (auto simp: timeline_counts_def d'_def holders_new split: option.splits)
  moreover have unheld: "files d fd \<noteq> Some ?p" for fd
    using refs_okD(7) [OF assms(1), of fd ?p] fresh by auto
  have "point_counts d' p" for p
  proof (cases "p = ?p")
    case True
    then show ?thesis using unheld by (auto simp: point_counts_def d'_def)
  next
    case False
    then have "files d' fd = Some p \<longleftrightarrow> files d fd = Some p" for fd using assms(6) by (auto simp: d'_def)
    then show ?thesis using refs_okD(4) [OF assms(1), of p] False by (simp add: point_counts_def) (simp add: d'_def)
  qed
  moreover have "refs_ok own d'"
    unfolding refs_ok_def
    using calculation(2,3) refs_okD [OF assms(1)] t(1,3) by (auto simp: d'_def less_SucI)
  ultimately show ?thesis
    using that [of d' t] t fresh by (simp add: d'_def)
qed

lemma fd_close_refs:
  assumes "refs_ok own d"
  shows "\<exists>d'. fd_close d fd = Inr d' \<and> refs_ok own d'"
proof (cases "files d fd")
  case None
  then show ?thesis using assms by (simp add: fd_close_def)
next
  case (Some p)
  then obtain q where q: "points d p = Some q" "pt_refs q = 1" "\<And>fd'. files d fd' = Some p \<Longrightarrow> fd' = fd"
    using refs_okD(4,7) [OF assms] by (fastforce simp: point_counts_def)
  let ?a = "pt_timeline q"
  obtain t where t: "timelines d ?a = Some t" "tl_refs t = own ?a + card (holders (points d) ?a)"
    "p \<in> holders (points d) ?a" "0 < ?a"
    using point_timeline [OF assms q(1)] .
  have active: "set (active_list t) \<subseteq> holders (points d) ?a"
    using refs_okD(3) [OF assms, of ?a] t(1) by (simp add: timeline_counts_def)
  define d' where "d' = d\<lparr>files := (files d)(fd := None), points := (points d)(p := None),
    timelines := (timelines d)(?a := if tl_refs t \<le> 1 then None
      else Some (t\<lparr>active_list := filter (\<lambda>b. b \<noteq> p) (active_list t), tl_refs := tl_refs t - 1\<rparr>))\<rparr>"
  have "goldfish_sync_pt_destroy (d\<lparr>files := (files d)(fd := None)\<rparr>) p = Inr d'"
    using pt_destroy_eq [of "d\<lparr>files := (files d)(fd := None)\<rparr>" p q t] q(1) t(1,4) by (simp add: d'_def)
  then have "fd_close d fd = Inr d'"
    using Some q(1,2) return_drained(2) [of "d\<lparr>files := (files d)(fd := None)\<rparr>" p] refs_okD(11) [OF assms]
    by (simp add: fd_close_def dma_fence_put_def the_point_def fun_upd_def)
  moreover have del: "card (holders (points d) ?a - {p}) = card (holders (points d) ?a) - 1" "0 < card (holders (points d) ?a)"
    using t(3) refs_okD(8) [OF assms, of ?a] by (auto simp: card_gt_0_iff)
  have gone: "holders (points d) ?a - {p} = {}" if "card (holders (points d) ?a) \<le> 1"
    using that del refs_okD(8) [OF assms, of ?a] by (metis card_0_eq diff_is_0_eq finite_Diff)
  have other: "p \<notin> holders (points d) b" if "b \<noteq> ?a" for b using that q(1) by (auto simp: holders_def)
  have "timeline_counts own d' b" for b
  proof (cases "b = ?a")
    case True
    then show ?thesis
      using t(2) del gone active by (auto simp: timeline_counts_def d'_def holders_del)
  next
    case False
    then show ?thesis
      using refs_okD(3) [OF assms, of b] other [OF False]
      by (auto simp: timeline_counts_def d'_def holders_del split: option.splits)
  qed
  moreover have "point_counts d' r" for r
  proof (cases "r = p")
    case False
    then have "files d' f = Some r \<longleftrightarrow> files d f = Some r" for f using Some by (auto simp: d'_def)
    then show ?thesis using refs_okD(4) [OF assms, of r] False by (simp add: point_counts_def) (simp add: d'_def)
  qed (simp add: point_counts_def d'_def)
  moreover have "timelines d' b \<noteq> None \<Longrightarrow> timelines d b \<noteq> None" "points d' b \<noteq> None \<Longrightarrow> points d b \<noteq> None" for b
    using t(1) by (auto simp: d'_def split: if_splits)
  moreover have "files d' f = Some r \<Longrightarrow> points d' r \<noteq> None" for f r
    using q(3) [of f] refs_okD(7) [OF assms, of f r] by (auto simp: d'_def split: if_splits)
  moreover have "finite (dom (points d'))" "next_obj d' = next_obj d" "delayed d' = delayed d"
    using refs_okD(1) [OF assms] by (simp_all add: d'_def)
  moreover have "refs_ok own d'"
    using assms calculation(2-) unfolding refs_ok_def by metis
  ultimately show ?thesis by blast
qed

lemma enable_signaling_refs:
  assumes "refs_ok own d" "points d p = Some q"
  shows "\<exists>b d'. goldfish_sync_timeline_fence_enable_signaling d p = Inr (b, d') \<and> refs_ok own d'"
proof -
  obtain t where t: "timelines d (pt_timeline q) = Some t" "p \<in> holders (points d) (pt_timeline q)" "0 < pt_timeline q"
    using point_timeline [OF assms] .
  let ?d = "d\<lparr>timelines := (timelines d)(pt_timeline q \<mapsto> t\<lparr>active_list := active_list t @ [p]\<rparr>)\<rparr>"
  have "timeline_counts own ?d b" for b
    using refs_okD(3) [OF assms(1), of b] t
    by (cases "b = pt_timeline q") (auto simp: timeline_counts_def split: option.splits)
  moreover have "point_counts ?d r" for r using refs_okD(4) [OF assms(1), of r] by (simp add: point_counts_def)
  ultimately have "refs_ok own ?d"
    using refs_okD [OF assms(1)] t(1) by (auto simp: refs_ok_def)
  then show ?thesis
    using assms t by (auto simp: goldfish_sync_timeline_fence_enable_signaling_def the_point_def the_timeline_def)
qed

text \<open>A pass over the active list marks the fences that are due and keeps the others, in order.\<close>

definition marked :: "goldfish_sync_timeline \<Rightarrow> nat list \<Rightarrow> (nat \<Rightarrow> sync_pt option) \<Rightarrow> nat \<Rightarrow> sync_pt option" where
  "marked t as m p = map_option (\<lambda>q. if p \<in> set as \<and> dma_fence_is_signaled t q then q\<lparr>pt_signaled := True\<rparr> else q) (m p)"

lemma signal_loop_eq:
  assumes "set as \<subseteq> dom (points d)"
  shows "signal_loop d t as =
    Inr (filter (\<lambda>a. \<not> dma_fence_is_signaled t (the (points d a))) as, d\<lparr>points := marked t as (points d)\<rparr>)"
  using assms
proof (induction as arbitrary: d)
  case Nil
  have "marked t [] (points d) = points d" by (auto simp: marked_def option.map_id0 id_def fun_eq_iff option.map_ident)
  then show ?case by simp
next
  case (Cons a as)
  then obtain p where p: "points d a = Some p" by auto
  let ?m = "(points d)(a \<mapsto> p\<lparr>pt_signaled := True\<rparr>)"
  show ?case
  proof (cases "dma_fence_is_signaled t p")
    case True
    have "filter (\<lambda>b. \<not> dma_fence_is_signaled t (the (?m b))) as = filter (\<lambda>b. \<not> dma_fence_is_signaled t (the (points d b))) as"
      using True p by (intro filter_cong) (auto simp: dma_fence_is_signaled_def)
    moreover have "marked t as ?m = marked t (a # as) (points d)"
      using True p by (auto simp: marked_def fun_eq_iff dma_fence_is_signaled_def)
    ultimately show ?thesis
      using Cons.IH [of "d\<lparr>points := ?m\<rparr>"] Cons.prems True p by (auto simp: the_point_def simp del: fun_upd_apply)
  next
    case False
    have "marked t as (points d) = marked t (a # as) (points d)"
      using False p by (auto simp: marked_def fun_eq_iff intro!: option.map_cong)
    then show ?thesis
      using Cons False p by (auto simp: the_point_def)
  qed
qed

lemma holders_marked [simp]: "holders (marked t as m) a = holders m a"
proof (rule set_eqI)
  fix p show "p \<in> holders (marked t as m) a \<longleftrightarrow> p \<in> holders m a"
    by (cases "m p") (auto simp: holders_iff marked_def)
qed

lemma timeline_signal_refs:
  assumes "refs_ok own d" "timelines d a = Some t"
  shows "\<exists>d'. goldfish_sync_timeline_signal d a inc = Inr d' \<and> refs_ok own d' \<and>
     points d' = marked (t\<lparr>tl_seqno := tl_seqno t + inc\<rparr>) (active_list t) (points d) \<and>
     (\<exists>l. timelines d' = (timelines d)(a \<mapsto> t\<lparr>tl_seqno := tl_seqno t + inc, active_list := l\<rparr>))"
proof -
  let ?t = "t\<lparr>tl_seqno := tl_seqno t + inc\<rparr>"
  let ?l = "filter (\<lambda>b. \<not> dma_fence_is_signaled ?t (the (points d b))) (active_list t)"
  let ?d = "d\<lparr>points := marked ?t (active_list t) (points d), timelines := (timelines d)(a \<mapsto> ?t\<lparr>active_list := ?l\<rparr>)\<rparr>"
  have active: "set (active_list t) \<subseteq> holders (points d) a" and a: "0 < a"
    using refs_okD(3) [OF assms(1), of a] refs_okD(5) [OF assms] assms(2) by (simp_all add: timeline_counts_def)
  then have "set (active_list ?t) \<subseteq> dom (points d)" by (auto simp: holders_def)
  from signal_loop_eq [OF this] have "goldfish_sync_timeline_signal d a inc = Inr ?d"
    using assms(2) a by (simp add: goldfish_sync_timeline_signal_def the_timeline_def Let_def)
  moreover have "timeline_counts own ?d b" for b
    using refs_okD(3) [OF assms(1), of b] assms(2) active
    by (cases "b = a") (auto simp: timeline_counts_def split: option.splits)
  moreover have "point_counts ?d r" for r
    using refs_okD(4) [OF assms(1), of r] by (auto simp: point_counts_def marked_def)
  moreover have dom: "marked u as m b = None \<longleftrightarrow> m b = None" for u as m b by (simp add: marked_def)
  then have "dom (points ?d) = dom (points d)" by (auto simp: dom_def)
  moreover have "refs_ok own ?d"
    unfolding refs_ok_def using calculation(2,3,4) refs_okD [OF assms(1)] assms(2) dom
    by (auto simp: marked_def split: if_splits)
  ultimately show ?thesis by auto
qed

section \<open>Clients\<close>

text \<open>
  What processes do with the device, and the host with a timeline that is still open. An
  operation on a closed file does not reach the driver. \<open>pick\<close> gives a descriptor that is
  not in use, or an error.
\<close>

datatype client_op =
    Open kernel
  | Release nat
  | QueueWork kernel nat "u64 \<times> u64"
  | CloseFd int
  | PollFd int
  | HostInc nat u32

type_synonym 'h client_state = "(nat \<Rightarrow> nat) \<times> goldfish_sync_state \<times> 'h goldfish_sync_dev"

fun client_step ::
  "('h, 's) GoldfishSyncServiceOps \<Rightarrow> ((int \<Rightarrow> nat option) \<Rightarrow> int) \<Rightarrow> client_op \<Rightarrow> 'h client_state \<Rightarrow> 'h client_state res" where
  "client_step service_ops pick (Open k) (own, d, s) =
    (case goldfish_sync_open k d of
       (Inl _, d) \<Rightarrow> Inr (own, d, s)
     | (Inr a, d) \<Rightarrow> Inr (own(a := 1), d, s))"
| "client_step service_ops pick (Release a) (own, d, s) =
    (if own a = 0 then Inr (own, d, s)
     else rbind (goldfish_sync_release d a) (\<lambda>d. Inr (own(a := own a - 1), d, s)))"
| "client_step service_ops pick (QueueWork k a arg) (own, d, s) =
    (if own a = 0 then Inr (own, d, s)
     else rbind (goldfish_sync_ioctl service_ops (k\<lparr>unused_fd := pick (files d)\<rparr>) (d, s) a GOLDFISH_SYNC_IOC_QUEUE_WORK arg)
       (\<lambda>(_, d, s). rbind (return_to_user d) (\<lambda>d. Inr (own, d, s))))"
| "client_step service_ops pick (CloseFd fd) (own, d, s) = rbind (fd_close d fd) (\<lambda>d. Inr (own, d, s))"
| "client_step service_ops pick (PollFd fd) (own, d, s) =
    (case files d fd of
       None \<Rightarrow> Inr (own, d, s)
     | Some p \<Rightarrow> rbind (goldfish_sync_timeline_fence_enable_signaling d p) (\<lambda>(_, d). Inr (own, d, s)))"
| "client_step service_ops pick (HostInc a inc) (own, d, s) =
    (if own a = 0 then Inr (own, d, s)
     else rbind (goldfish_sync_timeline_signal d a inc) (\<lambda>d. Inr (own, d, s)))"

fun copies_ok :: "client_op \<Rightarrow> bool" where
  "copies_ok (QueueWork k _ _) = copy_to_user_ok k"
| "copies_ok _ = True"

lemma send_guestcmd_returns: "\<exists>s'. goldfish_sync_send_guestcmd service_ops d s c g th a = Inr s'"
  by (simp add: goldfish_sync_send_guestcmd_def goldfish_sync_write_def Let_def)

lemma owned_timeline:
  assumes "refs_ok own d" "own a \<noteq> 0"
  obtains t where "timelines d a = Some t" "a \<noteq> 0"
  using refs_okD(3) [OF assms(1), of a] refs_okD(5) [OF assms(1)] assms(2) that
  by (cases "timelines d a") (auto simp: timeline_counts_def)

lemma refs_ok_next: "refs_ok own d \<Longrightarrow> next_obj d \<le> n \<Longrightarrow> refs_ok own (d\<lparr>next_obj := n\<rparr>)"
proof -
  have "timeline_counts own (d\<lparr>next_obj := n\<rparr>) a = timeline_counts own d a" for a
    by (auto simp: timeline_counts_def split: option.splits)
  moreover have "point_counts (d\<lparr>next_obj := n\<rparr>) p = point_counts d p" for p by (simp add: point_counts_def)
  moreover assume "refs_ok own d" "next_obj d \<le> n"
  ultimately show ?thesis unfolding refs_ok_def by (simp, meson less_le_trans)
qed

lemma queue_work_refs:
  assumes "refs_ok own d" "own a \<noteq> 0" "copy_to_user_ok k" "unused_fd k < 0 \<or> files d (unused_fd k) = None"
  shows "\<exists>v d' s'. goldfish_sync_ioctl service_ops k (d, s) a GOLDFISH_SYNC_IOC_QUEUE_WORK arg = Inr (v, d', s') \<and> refs_ok own d'"
proof -
  obtain t where t: "timelines d a = Some t" "a \<noteq> 0" using owned_timeline [OF assms(1,2)] .
  obtain glsync thread where arg: "arg = (glsync, thread)" by (cases arg)
  show ?thesis
  proof (cases "unused_fd k < 0 \<or> \<not> sync_file_ok k \<or> \<not> kzalloc_ok k")
    case True
    then obtain n where "next_obj d \<le> n"
      "goldfish_sync_fence_create k d a (tl_seqno t + 1) = Inr (None, d\<lparr>next_obj := n\<rparr>)"
      using fence_create_fails [OF assms(1)] assms(2) by blast
    then show ?thesis
      using t refs_ok_next [OF assms(1)] assms(1)
      by (auto simp: goldfish_sync_ioctl_def goldfish_sync_ioctl_locked_def the_timeline_def arg)
  next
    case False
    then obtain d' where "goldfish_sync_fence_create k d a (tl_seqno t + 1) = Inr (Some (unused_fd k, next_obj d), d')"
      "refs_ok own d'"
      using fence_create_succeeds [OF assms(1), of a k "tl_seqno t + 1"] assms(2,4) by auto
    then show ?thesis
      using t assms(1,3) send_guestcmd_returns [of service_ops d' s 5 glsync thread "of_nat a"]
      by (auto simp: goldfish_sync_ioctl_def goldfish_sync_ioctl_locked_def the_timeline_def arg)
  qed
qed

lemma open_refs:
  assumes "refs_ok own d"
  shows "case goldfish_sync_open k d of (Inl _, d') \<Rightarrow> refs_ok own d' | (Inr a, d') \<Rightarrow> refs_ok (own(a := 1)) d'"
proof (cases "mutex_lock_ok k \<and> kzalloc_ok k")
  case True
  then show ?thesis
    using timeline_create_refs [OF assms, of k] by (auto simp: goldfish_sync_open_def split: prod.splits)
next
  case False
  then show ?thesis
    using assms by (auto simp: goldfish_sync_open_def goldfish_sync_timeline_create_def)
qed

lemma client_step_refs:
  assumes "refs_ok own d" "copies_ok x" "\<And>m. pick m < 0 \<or> m (pick m) = None"
  shows "\<exists>own' d' s'. client_step service_ops pick x (own, d, s) = Inr (own', d', s') \<and> refs_ok own' d'"
proof (cases x)
  case (Open k)
  then show ?thesis using open_refs [OF assms(1), of k] by (auto split: prod.splits sum.splits)
next
  case (Release a)
  then show ?thesis using timeline_put_refs [OF assms(1), of a] assms(1) by (auto simp: goldfish_sync_release_def)
next
  case (QueueWork k a arg)
  then show ?thesis
    using queue_work_refs [OF assms(1), of a "k\<lparr>unused_fd := pick (files d)\<rparr>" service_ops s arg] assms
      return_drained(1) [OF refs_okD(11)]
    by fastforce
next
  case (CloseFd fd)
  then show ?thesis using fd_close_refs [OF assms(1), of fd] by auto
next
  case (PollFd fd)
  then show ?thesis
    using enable_signaling_refs [OF assms(1)] refs_okD(7) [OF assms(1), of fd] assms(1)
    by (cases "files d fd") (auto, fastforce)
next
  case (HostInc a inc)
  show ?thesis
  proof (cases "own a = 0")
    case False
    obtain t where "timelines d a = Some t" using owned_timeline [OF assms(1) False] .
    then show ?thesis using timeline_signal_refs [OF assms(1), of a t inc] HostInc False by auto
  qed (use HostInc assms(1) in simp)
qed

definition no_timelines :: "goldfish_sync_state \<Rightarrow> bool" where
  "no_timelines d \<longleftrightarrow> timelines d = (\<lambda>_. None) \<and> points d = (\<lambda>_. None)"

lemma new_driver_refs: "refs_ok (\<lambda>_. 0) (new_driver hostcmd guestcmd)"
  by (simp add: refs_ok_def timeline_counts_def point_counts_def new_driver_def holders_def)

text \<open>Without open files nothing is left allocated.\<close>

lemma refs_no_leak:
  assumes "refs_ok (\<lambda>_. 0) d" "files d = (\<lambda>_. None)"
  shows "no_timelines d"
proof -
  have pts: "points d p = None" for p
    using refs_okD(4) [OF assms(1), of p] assms(2) by (cases "points d p") (auto simp: point_counts_def)
  have "timelines d a = None" for a
    using refs_okD(3) [OF assms(1), of a] pts by (cases "timelines d a") (auto simp: timeline_counts_def holders_def)
  with pts show ?thesis by (auto simp: no_timelines_def)
qed

text \<open>
  C26. Whatever processes and a host that only signals open timelines do, in any order,
  with any outcome of the kernel's allocations, the driver never uses a timeline or a
  fence that was freed, as long as the results of the ioctl can be copied to the
  process; and once all files and fences are closed, no timeline and no fence is left.
\<close>

theorem sync_driver_safe:
  assumes "\<forall>x \<in> set xs. copies_ok x" "\<And>m. pick m < 0 \<or> m (pick m) = None"
  shows "\<exists>own d s'. run_ops (client_step service_ops pick) xs (\<lambda>_. 0, new_driver hostcmd guestcmd, s) = Inr (own, d, s') \<and>
     (own = (\<lambda>_. 0) \<and> files d = (\<lambda>_. None) \<longrightarrow> no_timelines d)"
proof -
  have "\<exists>own' d' s'. run_ops (client_step service_ops pick) xs (own, d, s) = Inr (own', d', s') \<and> refs_ok own' d'"
    if "refs_ok own d" for own d s
    using assms(1) that
  proof (induction xs arbitrary: own d s)
    case (Cons x xs)
    then obtain own' d' s' where "client_step service_ops pick x (own, d, s) = Inr (own', d', s')" "refs_ok own' d'"
      using client_step_refs [of own d x pick service_ops s] assms(2) by auto
    then show ?case using Cons.IH [of own' d' s'] Cons.prems by simp
  qed simp
  from this [OF new_driver_refs] show ?thesis
    using refs_no_leak by blast
qed

definition good_kernel :: kernel where
  "good_kernel = \<lparr>kzalloc_ok = True, unused_fd = 3, sync_file_ok = True, copy_from_user_ok = True, copy_to_user_ok = True,
     mutex_lock_ok = True\<rparr>"

text \<open>One descriptor, 3, and an error when it is in use.\<close>

definition pick_3 :: "(int \<Rightarrow> nat option) \<Rightarrow> int" where
  "pick_3 m = (if m 3 = None then 3 else - 24)"

theorem sync_driver_safe_witness:
  "\<exists>own d s'. run_ops (client_step no_service pick_3)
       [Open good_kernel, QueueWork good_kernel 1 (7, 8), PollFd 3, HostInc 1 1, Release 1, CloseFd 3]
       (\<lambda>_. 0, new_driver 0x1000 0x2000, goldfish_sync_realize (\<lambda>_. 0) ()) = Inr (own, d, s') \<and>
     (own = (\<lambda>_. 0) \<and> files d = (\<lambda>_. None) \<longrightarrow> no_timelines d)"
  by (rule sync_driver_safe) (auto simp: pick_3_def good_kernel_def)

section \<open>Fences and increments\<close>

definition fence_due :: "goldfish_sync_state \<Rightarrow> nat \<Rightarrow> nat \<Rightarrow> bool" where
  "fence_due d a p = dma_fence_is_signaled (the (timelines d a)) (the (points d p))"

lemma ucast_le_iff: "(ucast (x :: u32) :: u64) \<le> ucast y \<longleftrightarrow> x \<le> y"
proof -
  have "unat (ucast z :: u64) = unat z" for z :: u32
    using unsigned_less [of z, where ?'a = nat] by (simp add: unsigned_ucast_eq take_bit_nat_eq_self)
  then show ?thesis by (simp add: word_le_nat_alt)
qed

lemma word_succ_le_iff: "x + 1 \<le> (x :: u32) \<longleftrightarrow> x = - 1"
proof (cases "1 + x = 0")
  case True
  then show ?thesis by (simp add: add.commute eq_neg_iff_add_eq_0)
next
  case False
  then have "unat (x + 1) = Suc (unat x)" by (metis unatSuc add.commute)
  then show ?thesis using False by (simp add: word_le_nat_alt eq_neg_iff_add_eq_0 add.commute)
qed

text \<open>
  C27. The fence that the ioctl gives to a process waits for the next increment of its
  timeline: it is not due before, and due after any increment that does not wrap the
  32-bit number of the timeline; except that when that number is at its maximum, the
  number of the fence wraps to 0 and the fence is due at once.
\<close>

theorem queued_fence_waits_for_increment:
  assumes "refs_ok own d" "own a \<noteq> 0" "timelines d a = Some t"
    and "kzalloc_ok k" "sync_file_ok k" "copy_from_user_ok k" "copy_to_user_ok k" "mutex_lock_ok k"
    and "0 \<le> unused_fd k" "files d (unused_fd k) = None" "thread \<noteq> 0"
  shows "\<exists>d' s' p. goldfish_sync_ioctl service_ops k (d, s) a GOLDFISH_SYNC_IOC_QUEUE_WORK (glsync, thread) =
       Inr (Inr (unused_fd k), d', s') \<and> files d' (unused_fd k) = Some p \<and>
     (fence_due d' a p \<longleftrightarrow> tl_seqno t = - 1) \<and>
     (\<exists>d''. goldfish_sync_timeline_signal d' a inc = Inr d'' \<and>
        (tl_seqno t < tl_seqno t + inc \<longrightarrow> fence_due d'' a p))"
proof -
  let ?p = "next_obj d"
  obtain d' where d': "goldfish_sync_fence_create k d a (tl_seqno t + 1) = Inr (Some (unused_fd k, ?p), d')"
    "refs_ok own d'" "files d' = (files d)(unused_fd k \<mapsto> ?p)"
    "timelines d' = (timelines d)(a \<mapsto> t\<lparr>tl_refs := tl_refs t + 1\<rparr>)"
    "points d' = (points d)(?p \<mapsto> \<lparr>pt_timeline = a, pt_seqno = ucast (tl_seqno t + 1), pt_refs = 1, pt_signaled = False\<rparr>)"
    using fence_create_succeeds [OF assms(1) _ assms(9,5,4,10), of a "tl_seqno t + 1"] assms(2,3) by auto
  have a: "a \<noteq> 0" using owned_timeline [OF assms(1,2)] .
  obtain s' where "goldfish_sync_send_guestcmd service_ops d' s 5 glsync thread (of_nat a) = Inr s'"
    using send_guestcmd_returns by blast
  then have "goldfish_sync_ioctl service_ops k (d, s) a GOLDFISH_SYNC_IOC_QUEUE_WORK (glsync, thread) =
      Inr (Inr (unused_fd k), d', s')"
    using assms(3-) a d'(1) by (simp add: goldfish_sync_ioctl_def goldfish_sync_ioctl_locked_def the_timeline_def)
  moreover have "fence_due d' a ?p \<longleftrightarrow> tl_seqno t = - 1"
    by (simp add: fence_due_def dma_fence_is_signaled_def goldfish_sync_timeline_fence_signaled_def d' ucast_le_iff
        word_succ_le_iff)
  moreover obtain d'' l where d'': "goldfish_sync_timeline_signal d' a inc = Inr d''"
    "points d'' = marked (t\<lparr>tl_refs := tl_refs t + 1, tl_seqno := tl_seqno t + inc\<rparr>) (active_list t) (points d')"
    "timelines d'' a = Some (t\<lparr>tl_refs := tl_refs t + 1, tl_seqno := tl_seqno t + inc, active_list := l\<rparr>)"
    using timeline_signal_refs [OF d'(2), of a "t\<lparr>tl_refs := tl_refs t + 1\<rparr>" inc] d'(4) by auto
  moreover have "fence_due d'' a ?p" if "tl_seqno t < tl_seqno t + inc"
    using inc_le [OF that]
    by (simp add: fence_due_def dma_fence_is_signaled_def goldfish_sync_timeline_fence_signaled_def d'' d'(5) marked_def
        ucast_le_iff add.commute)
  ultimately show ?thesis
    using d'(3) by auto
qed

definition opened :: goldfish_sync_state where
  "opened = snd (goldfish_sync_open good_kernel (new_driver 0x1000 0x2000))"

lemma opened_refs: "refs_ok ((\<lambda>_. 0)(1 := 1)) opened"
  using open_refs [OF new_driver_refs [of "0x1000" "0x2000"], where k = good_kernel]
  by (simp add: opened_def goldfish_sync_open_def goldfish_sync_timeline_create_def good_kernel_def new_driver_def)

lemma opened_timeline:
  "timelines opened 1 = Some \<lparr>tl_refs = 1, tl_id = 1, tl_seqno = 0, active_list = []\<rparr>" "files opened fd = None"
  by (simp_all add: opened_def goldfish_sync_open_def goldfish_sync_timeline_create_def good_kernel_def new_driver_def)

theorem queued_fence_waits_for_increment_witness:
  "\<exists>d' s' p. goldfish_sync_ioctl no_service good_kernel (opened, goldfish_sync_realize (\<lambda>_. 0) ()) 1
       GOLDFISH_SYNC_IOC_QUEUE_WORK (7, 8) = Inr (Inr 3, d', s') \<and> files d' 3 = Some p \<and> \<not> fence_due d' 1 p \<and>
     (\<exists>d''. goldfish_sync_timeline_signal d' 1 1 = Inr d'' \<and> fence_due d'' 1 p)"
  using queued_fence_waits_for_increment [OF opened_refs _ opened_timeline(1),
      where k = good_kernel and thread = 8 and glsync = 7 and inc = 1 and service_ops = no_service]
  by (auto simp: good_kernel_def opened_timeline(2))

text \<open>
  C28. When the descriptor cannot be copied to the process, in every state of the driver the
  ioctl answers \<^verbatim>\<open>EFAULT\<close> with the fence already freed, although the file that owns it is
  still installed at the descriptor and its release is still to run; that release, on the way
  back to user space, drops the reference of the file to the freed fence.
\<close>

theorem failed_copy_frees_twice:
  assumes "refs_ok own d" "own a \<noteq> 0" "kzalloc_ok k" "sync_file_ok k" "copy_from_user_ok k" "\<not> copy_to_user_ok k"
    and "mutex_lock_ok k" "0 \<le> unused_fd k" "files d (unused_fd k) = None" "thread \<noteq> 0"
  shows "\<exists>d' p. goldfish_sync_ioctl service_ops k (d, s) a GOLDFISH_SYNC_IOC_QUEUE_WORK (glsync, thread) = Inr (Inl 14, d', s) \<and>
     files d' (unused_fd k) = Some p \<and> points d' p = None \<and> delayed d' = [p] \<and> return_to_user d' = Inl UseAfterFree"
proof -
  let ?p = "next_obj d"
  obtain t where t: "timelines d a = Some t" "a \<noteq> 0" using owned_timeline [OF assms(1,2)] .
  let ?q = "\<lparr>pt_timeline = a, pt_seqno = ucast (tl_seqno t + 1), pt_refs = 1, pt_signaled = False\<rparr>"
  obtain u d1 where d1: "goldfish_sync_fence_create k d a (tl_seqno t + 1) = Inr (Some (unused_fd k, ?p), d1)"
    "refs_ok own d1" "files d1 = (files d)(unused_fd k \<mapsto> ?p)"
    "timelines d1 = (timelines d)(a \<mapsto> u)" "points d1 = (points d)(?p \<mapsto> ?q)"
    using fence_create_succeeds [OF assms(1) _ assms(8,4,3,9), of a "tl_seqno t + 1"] assms(2) by (metis neq0_conv)
  let ?d = "fput d1 ?p"
  have "points ?d ?p = Some ?q" "timelines ?d a = Some u" "delayed ?d = [?p]" "files ?d = files d1"
    using d1 refs_okD(11) [OF d1(2)] by (simp_all add: fput_def)
  then obtain d' where d': "goldfish_sync_pt_destroy ?d ?p = Inr d'" "points d' ?p = None" "delayed d' = [?p]"
    "files d' = files d1"
    using pt_destroy_eq [of ?d ?p ?q u] t(2) by auto
  then have "goldfish_sync_ioctl service_ops k (d, s) a GOLDFISH_SYNC_IOC_QUEUE_WORK (glsync, thread) = Inr (Inl 14, d', s)"
    using assms(5-) t d1(1)
    by (simp add: goldfish_sync_ioctl_def goldfish_sync_ioctl_locked_def the_timeline_def goldfish_sync_fence_destroy_def)
  then show ?thesis
    using d' d1(3) by (auto simp: return_to_user_def dma_fence_put_def the_point_def)
qed

theorem failed_copy_frees_twice_witness:
  "\<exists>d' p. goldfish_sync_ioctl no_service (good_kernel\<lparr>copy_to_user_ok := False\<rparr>) (opened, goldfish_sync_realize (\<lambda>_. 0) ()) 1
     GOLDFISH_SYNC_IOC_QUEUE_WORK (7, 8) = Inr (Inl 14, d', goldfish_sync_realize (\<lambda>_. 0) ()) \<and>
     files d' 3 = Some p \<and> points d' p = None \<and> return_to_user d' = Inl UseAfterFree"
  using failed_copy_frees_twice [OF opened_refs, of 1 "good_kernel\<lparr>copy_to_user_ok := False\<rparr>" 8 no_service]
  by (fastforce simp: good_kernel_def opened_timeline(2))

section \<open>A timeline closed before the host signals it\<close>

lemma late_command:
  assumes "queue_at s []" "batch_cmd_addr s = batch_hostcmd d" "batch_hostcmd d \<noteq> 0" "to_do_end d = 0" "0 < length (to_do d)"
    and "timelines d (unat handle) = None" "handle \<noteq> 0"
  shows "rbind (goldfish_sync_send_command s 3 handle inc hostcmd) (\<lambda>s.
       rbind (goldfish_sync_interrupt_impl 2 d s) (goldfish_sync_work_item_fn service_ops k)) = Inl UseAfterFree"
proof -
  let ?c = "\<lparr>sync_handle = handle, hostcmd_handle = hostcmd, sync_cmd = 3, time_arg = inc\<rparr>"
  obtain s1 where s1: "goldfish_sync_send_command s 3 handle inc hostcmd = Inr s1" "queue_at s1 [fresh_addr s]"
    "sync_queue s1 = sync_queue s @ [?c]" "batch_cmd_addr s1 = batch_cmd_addr s"
    using send_command_queue_at [OF assms(1)] by fastforce
  have q: "sync_queue s1 = [?c]" using s1(3) sync_queue_Nil_iff [OF assms(1)] by simp
  obtain d' s' where "interrupt_loop 2 d s1 = Inr (d', s')" "to_do_end d' = 1"
    "take (to_do_end d') (to_do d') = [?c]" "timelines d' = timelines d"
    using interrupt_loop_drains [OF s1(2), of d 2] q s1(4) assms(2-5) by auto
  then show ?thesis
    using s1(1) assms(6,7)
    by (simp add: goldfish_sync_interrupt_impl_def goldfish_sync_work_item_fn_def goldfish_sync_grab_commands_def
        goldfish_sync_run_hostcmd_def goldfish_sync_timeline_signal_def the_timeline_def unat_eq_zero)
qed

text \<open>A service that records the waits it was asked for.\<close>

definition recording :: "((u64 \<times> u64 \<times> u64) list, unit) GoldfishSyncServiceOps" where
  "recording = \<lparr>receive_hostcmd_result = (\<lambda>_ _ _ _ h. h), trigger_host_wait = (\<lambda>g th a h. h @ [(g, th, a)]),
     service_save = (\<lambda>f _. Inr f), service_load = (\<lambda>f h. Inr (h, f))\<rparr>"

lemma guestcmd_of_bytes [simp]:
  "guestcmd_of (guestcmd_bytes c g th a) =
     \<lparr>host_command = c, glsync_handle = g, thread_handle = th, guest_timeline_handle = a\<rparr>"
  by (simp add: guestcmd_of_def guestcmd_bytes_def)

lemma length_guestcmd_bytes [simp]: "length (guestcmd_bytes c g th a) = 32"
  by (simp add: guestcmd_bytes_def)

lemma send_guestcmd_wait:
  assumes "batch_guestcmd_addr s = batch_guestcmd d" "batch_guestcmd d \<noteq> 0"
  shows "\<exists>m. goldfish_sync_send_guestcmd recording d s 5 g th a = Inr (s\<lparr>ram := m, service := service s @ [(g, th, a)]\<rparr>)"
  using assms
  by (auto simp: goldfish_sync_send_guestcmd_def goldfish_sync_write_def recording_def)

lemma open_queue_close:
  assumes "batch_guestcmd_addr s = guestcmd" "guestcmd \<noteq> 0" "thread \<noteq> 0"
  shows "\<exists>own d m. run_ops (client_step recording pick_3)
       [Open good_kernel, QueueWork good_kernel 1 (glsync, thread), CloseFd 3, Release 1]
       (\<lambda>_. 0, new_driver hostcmd guestcmd, s) =
     Inr (own, d, s\<lparr>ram := m, service := service s @ [(glsync, thread, 1)]\<rparr>) \<and>
     timelines d 1 = None \<and> to_do_end d = 0 \<and> length (to_do d) = 32 \<and> batch_hostcmd d = hostcmd"
proof -
  define d where "d = snd (goldfish_sync_open good_kernel (new_driver hostcmd guestcmd))"
  let ?t = "\<lparr>tl_refs = 1, tl_id = 1, tl_seqno = 0, active_list = []\<rparr>"
  define d2 where "d2 = d\<lparr>points := [2 \<mapsto> \<lparr>pt_timeline = 1, pt_seqno = 1, pt_refs = 1, pt_signaled = False\<rparr>], next_obj := 3,
      timelines := [1 \<mapsto> ?t\<lparr>tl_refs := 2\<rparr>], files := [3 \<mapsto> 2]\<rparr>"
  have opened: "goldfish_sync_open good_kernel (new_driver hostcmd guestcmd) = (Inr 1, d)" "timelines d = [1 \<mapsto> ?t]"
    "points d = (\<lambda>_. None)" "files d = (\<lambda>_. None)" "next_obj d = 2" "batch_guestcmd d = guestcmd"
    "to_do_end d = 0" "length (to_do d) = 32" "batch_hostcmd d = hostcmd" "delayed d = []"
    by (simp_all add: d_def goldfish_sync_open_def goldfish_sync_timeline_create_def good_kernel_def new_driver_def
        GOLDFISH_SYNC_MAX_CMDS_def)
  have fence: "goldfish_sync_fence_create (good_kernel\<lparr>unused_fd := 3\<rparr>) d 1 1 = Inr (Some (3, 2), d2)"
    by (simp add: goldfish_sync_fence_create_def goldfish_sync_pt_create_def goldfish_sync_timeline_get_def
        the_timeline_def the_point_def dma_fence_put_def Let_def opened good_kernel_def numeral_2_eq_2 d2_def)
  obtain m where m: "goldfish_sync_send_guestcmd recording d2 s 5 glsync thread 1 =
      Inr (s\<lparr>ram := m, service := service s @ [(glsync, thread, 1)]\<rparr>)"
    using send_guestcmd_wait [of s d2 glsync thread 1] assms(1,2) opened by (auto simp: d2_def)
  have "goldfish_sync_ioctl recording (good_kernel\<lparr>unused_fd := 3\<rparr>) (d, s) 1 GOLDFISH_SYNC_IOC_QUEUE_WORK (glsync, thread) =
      Inr (Inr 3, d2, s\<lparr>ram := m, service := service s @ [(glsync, thread, 1)]\<rparr>)"
    using fence assms(3) opened(2) m
    by (simp add: goldfish_sync_ioctl_def goldfish_sync_ioctl_locked_def the_timeline_def good_kernel_def)
  moreover have "fd_close d2 3 = Inr (d2\<lparr>files := (\<lambda>_. None), points := (\<lambda>_. None), timelines := [1 \<mapsto> ?t]\<rparr>)"
    using opened(10) return_drained(2) [of "d2\<lparr>files := (\<lambda>_. None)\<rparr>" 2]
    by (simp add: fd_close_def dma_fence_put_def the_point_def goldfish_sync_pt_destroy_def
        the_timeline_def goldfish_sync_timeline_put_def d2_def)
  moreover have "goldfish_sync_release (d2\<lparr>files := (\<lambda>_. None), points := (\<lambda>_. None), timelines := [1 \<mapsto> ?t]\<rparr>) 1 =
      Inr (d2\<lparr>files := (\<lambda>_. None), points := (\<lambda>_. None), timelines := (\<lambda>_. None)\<rparr>)"
    by (simp add: goldfish_sync_release_def goldfish_sync_timeline_put_def the_timeline_def d2_def)
  ultimately show ?thesis
    using opened return_drained(1) [of d2] by (auto simp: pick_3_def d2_def)
qed

text \<open>
  C29. A process opens the device, queues a wait, and closes the fence and the device
  before the host has signalled: both are freed, but the host was given the address of
  the timeline, and when it sends the increment, the interrupt handler and the work item
  make the driver use the freed timeline.
\<close>

theorem late_increment_uses_freed_timeline:
  assumes "sync_ok s" "sync_queue s = []" "batch_cmd_addr s = hostcmd" "hostcmd \<noteq> 0"
    and "batch_guestcmd_addr s = guestcmd" "guestcmd \<noteq> 0" "thread \<noteq> 0"
  shows "\<exists>own d s'. run_ops (client_step recording pick_3)
       [Open good_kernel, QueueWork good_kernel 1 (glsync, thread), CloseFd 3, Release 1]
       (\<lambda>_. 0, new_driver hostcmd guestcmd, s) = Inr (own, d, s') \<and>
     last (service s') = (glsync, thread, 1) \<and>
     rbind (goldfish_sync_send_command s' 3 1 inc 0) (\<lambda>s.
       rbind (goldfish_sync_interrupt_impl 2 d s) (goldfish_sync_work_item_fn recording k)) = Inl UseAfterFree"
proof -
  obtain own d m where run: "run_ops (client_step recording pick_3)
       [Open good_kernel, QueueWork good_kernel 1 (glsync, thread), CloseFd 3, Release 1]
       (\<lambda>_. 0, new_driver hostcmd guestcmd, s) =
     Inr (own, d, s\<lparr>ram := m, service := service s @ [(glsync, thread, 1)]\<rparr>)"
    and d: "timelines d 1 = None" "to_do_end d = 0" "length (to_do d) = 32" "batch_hostcmd d = hostcmd"
    using open_queue_close [OF assms(5-7)] by blast
  let ?s = "s\<lparr>ram := m, service := service s @ [(glsync, thread, 1)]\<rparr>"
  have "queue_at s []" using assms(1,2) sync_queue_Nil_iff by (metis sync_ok_def)
  then have "queue_at ?s []" by (simp add: queue_at_def)
  then have "rbind (goldfish_sync_send_command ?s 3 1 inc 0) (\<lambda>s.
       rbind (goldfish_sync_interrupt_impl 2 d s) (goldfish_sync_work_item_fn recording k)) = Inl UseAfterFree"
    by (rule late_command) (use assms(3,4) d in simp_all)
  moreover have "last (service ?s) = (glsync, thread, 1)" by simp
  ultimately show ?thesis
    using run by blast
qed

theorem late_increment_uses_freed_timeline_witness:
  "\<exists>own d s'. run_ops (client_step recording pick_3)
       [Open good_kernel, QueueWork good_kernel 1 (7, 8), CloseFd 3, Release 1]
       (\<lambda>_. 0, new_driver 0x1000 0x2000,
        (goldfish_sync_realize (\<lambda>_. 0) [])\<lparr>batch_cmd_addr := 0x1000, batch_guestcmd_addr := 0x2000\<rparr>) = Inr (own, d, s') \<and>
     last (service s') = (7, 8, 1) \<and>
     rbind (goldfish_sync_send_command s' 3 1 1 0) (\<lambda>s.
       rbind (goldfish_sync_interrupt_impl 2 d s) (goldfish_sync_work_item_fn recording (\<lambda>_. good_kernel))) = Inl UseAfterFree"
  by (rule late_increment_uses_freed_timeline)
    (auto simp: sync_ok_def queue_at_def sync_queue_def goldfish_sync_realize_def intro: exI [of _ "[]"])

end
