(* ===== verification/Goldfish_Pic.thy ===== *)
theory Goldfish_Pic
  imports Guest_Memory
begin

text \<open>
  The goldfish interrupt controller, \<^verbatim>\<open>hw/intc/goldfish_pic.c\<close>: 32 input lines, a mask of
  the enabled ones, a counter of the lines that are up and enabled, and one output line
  to the processor.
\<close>

section \<open>State and operations\<close>

record goldfish_pic_state =
  pic_level :: u32
  pending_count :: u32
  pic_enabled :: u32
  parent_irq :: bool

definition goldfish_pic_update :: "goldfish_pic_state \<Rightarrow> goldfish_pic_state" where
  "goldfish_pic_update s = s\<lparr>parent_irq := (pic_level s AND pic_enabled s \<noteq> 0)\<rparr>"

text \<open>A line number outside the mask is an undefined shift.\<close>

definition goldfish_pic_set_irq :: "goldfish_pic_state \<Rightarrow> nat \<Rightarrow> bool \<Rightarrow> goldfish_pic_state res" where
  "goldfish_pic_set_irq s irq lvl =
    (if 32 \<le> irq then Inl IntOverflow
     else let mask = push_bit irq 1 in
       Inr (goldfish_pic_update
        (if lvl
         then if pic_level s AND mask = 0
              then (if pic_enabled s AND mask \<noteq> 0 then s\<lparr>pending_count := pending_count s + 1\<rparr> else s)
                     \<lparr>pic_level := pic_level s OR mask\<rparr>
              else s
         else if pic_level s AND mask \<noteq> 0
              then (if pic_enabled s AND mask \<noteq> 0 then s\<lparr>pending_count := pending_count s - 1\<rparr> else s)
                     \<lparr>pic_level := pic_level s AND NOT mask\<rparr>
              else s)))"

definition goldfish_pic_read :: "goldfish_pic_state \<Rightarrow> u64 \<Rightarrow> u32 res" where
  "goldfish_pic_read s offset =
    (if offset = 0x00 then Inr (pending_count s)
     else if offset = 0x04 then Inr (pic_level s AND pic_enabled s)
     else Inl CpuAbort)"

definition goldfish_pic_write :: "goldfish_pic_state \<Rightarrow> u64 \<Rightarrow> u64 \<Rightarrow> goldfish_pic_state res" where
  "goldfish_pic_write s offset val =
    (let mask = ucast val in
     if offset = 0x08 then Inr (goldfish_pic_update (s\<lparr>pending_count := 0, pic_level := 0, pic_enabled := 0\<rparr>))
     else if offset = 0x0c then
       Inr (goldfish_pic_update
        (if pic_enabled s AND mask \<noteq> 0
         then (if pic_level s AND mask \<noteq> 0 then s\<lparr>pending_count := pending_count s - 1\<rparr> else s)
                \<lparr>pic_enabled := pic_enabled s AND NOT mask\<rparr>
         else s))
     else if offset = 0x10 then
       Inr (goldfish_pic_update
        (if pic_enabled s AND mask = 0
         then (if pic_level s AND mask \<noteq> 0 then s\<lparr>pending_count := pending_count s + 1\<rparr> else s)
                \<lparr>pic_enabled := pic_enabled s OR mask\<rparr>
         else s))
     else Inl CpuAbort)"

definition goldfish_pic_init :: goldfish_pic_state where
  "goldfish_pic_init = \<lparr>pic_level = 0, pending_count = 0, pic_enabled = 0, parent_irq = False\<rparr>"

text \<open>Loading reads the fields of the state and then updates the output line; \<open>None\<close> is the error result.\<close>

definition goldfish_pic_load :: "nat \<Rightarrow> goldfish_pic_state \<Rightarrow> goldfish_pic_state option" where
  "goldfish_pic_load version_id s = (if version_id \<noteq> 2 then None else Some (goldfish_pic_update s))"

section \<open>Sets of lines\<close>

definition lines_of :: "u32 \<Rightarrow> nat set" where
  "lines_of w = {n. n < 32 \<and> bit w n}"

lemma lines_of_simps [simp]:
  "lines_of 0 = {}" "lines_of (v AND w) = lines_of v \<inter> lines_of w" "lines_of (v OR w) = lines_of v \<union> lines_of w"
  "lines_of v \<inter> lines_of (NOT w) = lines_of v - lines_of w"
  by (auto simp: lines_of_def bit_simps)

lemma lines_of_single [simp]: "n < 32 \<Longrightarrow> lines_of (2 ^ n) = {n}"
  by (auto simp: lines_of_def bit_simps)

lemma lines_of_empty [simp]: "lines_of w = {} \<longleftrightarrow> w = 0"
  by (auto simp: lines_of_def intro!: bit_word_eqI)

lemma finite_lines [simp]: "finite (lines_of w)"
  by (rule finite_subset [of _ "{..<32}"]) (auto simp: lines_of_def)

lemma card_lines: "card (lines_of w) \<le> 32"
  using card_mono [of "{..<32}" "lines_of w"] by (auto simp: lines_of_def)

lemma and_zero_iff: "v AND w = 0 \<longleftrightarrow> lines_of v \<inter> lines_of w = {}"
  by (metis lines_of_empty lines_of_simps(2))

section \<open>The output line\<close>

datatype pic_op = SetIrq nat bool | PicWrite u64 u64

fun pic_step :: "pic_op \<Rightarrow> goldfish_pic_state \<Rightarrow> goldfish_pic_state res" where
  "pic_step (SetIrq n b) s = goldfish_pic_set_irq s n b"
| "pic_step (PicWrite offset val) s = goldfish_pic_write s offset val"

definition pic_pending :: "goldfish_pic_state \<Rightarrow> bool" where
  "pic_pending s \<longleftrightarrow> pic_level s AND pic_enabled s \<noteq> 0"

lemma pic_update_pending: "parent_irq (goldfish_pic_update s) = pic_pending (goldfish_pic_update s)"
  by (simp add: goldfish_pic_update_def pic_pending_def)

lemma pic_step_line: "pic_step x s = Inr s' \<Longrightarrow> parent_irq s' = pic_pending s'"
  by (cases x) (auto simp: goldfish_pic_set_irq_def goldfish_pic_write_def Let_def pic_update_pending split: if_splits)

interpretation pic: level_irq "\<lambda>s. parent_irq s = pic_pending s" parent_irq pic_pending pic_step
  by unfold_locales (use pic_step_line in auto)

section \<open>The counter\<close>

text \<open>Accesses of a guest that names one line at a time.\<close>

fun single_line :: "pic_op \<Rightarrow> bool" where
  "single_line (SetIrq n b) \<longleftrightarrow> n < 32"
| "single_line (PicWrite offset val) \<longleftrightarrow>
     offset = 0x08 \<or> (offset = 0x0c \<or> offset = 0x10) \<and> val \<in> (\<lambda>n. push_bit n 1) ` {..<32}"

definition pic_inv :: "goldfish_pic_state \<Rightarrow> bool" where
  "pic_inv s \<longleftrightarrow> unat (pending_count s) = card (lines_of (pic_level s) \<inter> lines_of (pic_enabled s))"

lemma card_remove_one:
  "card (A \<inter> (B - {n})) = (if n \<in> A \<and> n \<in> B then card (A \<inter> B) - 1 else card (A \<inter> B))"
  "card ((A - {n}) \<inter> B) = (if n \<in> A \<and> n \<in> B then card (A \<inter> B) - 1 else card (A \<inter> B))"
proof -
  have "A \<inter> (B - {n}) = A \<inter> B - {n}" "(A - {n}) \<inter> B = A \<inter> B - {n}" by blast+
  then show "card (A \<inter> (B - {n})) = (if n \<in> A \<and> n \<in> B then card (A \<inter> B) - 1 else card (A \<inter> B))"
    "card ((A - {n}) \<inter> B) = (if n \<in> A \<and> n \<in> B then card (A \<inter> B) - 1 else card (A \<inter> B))"
    by (simp_all only: card_Diff_singleton_if) simp_all
qed

lemma count_up:
  assumes "unat (c :: u32) = card (lines_of v \<inter> lines_of w)" "n \<notin> lines_of v \<inter> lines_of w" "n < 32"
  shows "unat (c + 1) = card (lines_of v \<inter> lines_of w) + 1"
proof -
  have "card (lines_of v \<inter> lines_of w) \<le> 32" using card_lines [of "v AND w"] by simp
  then have "unat (c + 1) = unat c + 1" using assms(1) by (simp add: unat_add_lem [THEN iffD1])
  then show ?thesis using assms by simp
qed

lemma count_down:
  assumes "unat (c :: u32) = card (lines_of v \<inter> lines_of w)" "n \<in> lines_of v \<inter> lines_of w"
  shows "unat (c - 1) = card (lines_of v \<inter> lines_of w) - 1"
proof -
  have "0 < unat c" using assms by (auto simp: card_gt_0_iff)
  then have "1 \<le> c" by (metis unat_eq_zero word_less_1 linorder_not_less less_irrefl)
  then have "unat (c - 1) = unat c - 1" by (simp add: unat_sub)
  then show ?thesis using assms by simp
qed

lemma set_irq_inv:
  assumes "pic_inv s" "n < 32" "goldfish_pic_set_irq s n lvl = Inr s'"
  shows "pic_inv s'"
proof -
  note c = assms(1) [unfolded pic_inv_def]
  show ?thesis
    using assms(2,3) count_up [OF c, of n] count_down [OF c, of n] c
    by (auto simp: goldfish_pic_set_irq_def Let_def and_zero_iff pic_inv_def goldfish_pic_update_def Int_insert_left insert_absorb card_remove_one
        split: if_splits)
qed

lemma pic_write_inv:
  assumes "pic_inv s" "single_line (PicWrite offset val)"
  shows "\<exists>s'. goldfish_pic_write s offset val = Inr s' \<and> pic_inv s'"
proof (cases "offset = 0x08")
  case True
  then show ?thesis by (simp add: goldfish_pic_write_def pic_inv_def Let_def goldfish_pic_update_def)
next
  case False
  then obtain n where n: "n < 32" "val = push_bit n 1" using assms(2) by auto
  then have mask: "lines_of (ucast val) = {n}"
    by (auto simp: lines_of_def bit_simps)
  note c = assms(1) [unfolded pic_inv_def]
  show ?thesis
    using assms(2) False n(1) mask count_up [OF c, of n] count_down [OF c, of n] c
    by (auto simp: goldfish_pic_write_def Let_def and_zero_iff pic_inv_def goldfish_pic_update_def Int_insert_right insert_absorb card_remove_one)
qed

lemma pic_step_inv:
  assumes "pic_inv s" "single_line x"
  shows "\<exists>s'. pic_step x s = Inr s' \<and> pic_inv s'"
proof (cases x)
  case (SetIrq n b)
  then obtain s' where "goldfish_pic_set_irq s n b = Inr s'"
    using assms(2) by (simp add: goldfish_pic_set_irq_def Let_def)
  then show ?thesis using set_irq_inv [OF assms(1)] SetIrq assms(2) by auto
next
  case (PicWrite offset val)
  then show ?thesis using pic_write_inv [OF assms(1)] assms(2) by simp
qed

text \<open>
  C30. After any sequence of changes of the input lines and of writes that enable or
  disable one line at a time, or disable all, the status register counts the lines of the
  pending register, which is the mask of the enabled lines that are up, and the output line
  is up exactly when there is one. Writes of several lines at once are left out: the
  counter goes wrong with them.
\<close>

theorem pic_counts_pending_lines:
  assumes "\<forall>x \<in> set xs. single_line x"
  shows "\<exists>s c p. run_ops pic_step xs goldfish_pic_init = Inr s \<and>
     goldfish_pic_read s 0x00 = Inr c \<and> goldfish_pic_read s 0x04 = Inr p \<and>
     unat c = card {n. n < 32 \<and> bit p n} \<and> (parent_irq s \<longleftrightarrow> c \<noteq> 0)"
proof -
  have "\<exists>s'. run_ops pic_step xs s = Inr s' \<and> pic_inv s'" if "pic_inv s" for s
    using assms that
  proof (induction xs arbitrary: s)
    case (Cons x xs)
    then obtain s1 where "pic_step x s = Inr s1" "pic_inv s1" using pic_step_inv [of s x] by auto
    then show ?case using Cons by simp
  qed simp
  moreover have "pic_inv goldfish_pic_init" by (simp add: pic_inv_def goldfish_pic_init_def)
  ultimately obtain s where s: "run_ops pic_step xs goldfish_pic_init = Inr s" "pic_inv s" by blast
  have "parent_irq goldfish_pic_init = pic_pending goldfish_pic_init"
    by (simp add: pic_pending_def goldfish_pic_init_def)
  from pic.line_is_pending [OF this s(1)]
  have "parent_irq s \<longleftrightarrow> lines_of (pic_level s AND pic_enabled s) \<noteq> {}"
    by (simp add: pic_pending_def and_zero_iff)
  also have "\<dots> \<longleftrightarrow> pending_count s \<noteq> 0"
    using s(2) by (metis pic_inv_def card_0_eq finite_lines lines_of_simps(2) unat_eq_zero)
  finally have "parent_irq s \<longleftrightarrow> pending_count s \<noteq> 0" .
  moreover have "unat (pending_count s) = card {n. n < 32 \<and> bit (pic_level s AND pic_enabled s) n}"
    using s(2) lines_of_simps(2) [of "pic_level s" "pic_enabled s"] by (simp only: pic_inv_def lines_of_def)
  ultimately show ?thesis
    using s(1) by (simp add: goldfish_pic_read_def)
qed

theorem pic_counts_pending_lines_witness:
  "\<exists>s c p. run_ops pic_step [PicWrite 0x10 1, SetIrq 0 True, SetIrq 5 True, PicWrite 0x10 32, PicWrite 0x0c 1]
       goldfish_pic_init = Inr s \<and>
     goldfish_pic_read s 0x00 = Inr c \<and> goldfish_pic_read s 0x04 = Inr p \<and>
     unat c = card {n. n < 32 \<and> bit p n} \<and> (parent_irq s \<longleftrightarrow> c \<noteq> 0)"
proof (rule pic_counts_pending_lines)
  have "1 \<in> (\<lambda>n. push_bit n 1 :: u64) ` {..<32}" "32 \<in> (\<lambda>n. push_bit n 1 :: u64) ` {..<32}"
    by (intro image_eqI [of _ _ 0] image_eqI [of _ _ 5]; simp)+
  then show "\<forall>x \<in> set [PicWrite 0x10 1, SetIrq 0 True, SetIrq 5 True, PicWrite 0x10 32, PicWrite 0x0c 1]. single_line x"
    by simp
qed

text \<open>
  A write that enables several lines is ignored altogether when one of them is enabled
  already, and counts one line when it is not.
\<close>

theorem pic_enable_several:
  assumes "pic_enabled s AND ucast val \<noteq> 0"
  shows "goldfish_pic_write s 0x10 val = Inr (goldfish_pic_update s)"
  using assms by (simp add: goldfish_pic_write_def Let_def)

end
