(* ===== verification/Goldfish_Rtc.thy ===== *)
theory Goldfish_Rtc
  imports Guest_Memory Channel_Buffer
begin

text \<open>
  The goldfish clock, \<^verbatim>\<open>hw/timer/goldfish_timer.c\<close>: a 64-bit time read and set in halves,
  and an alarm on a timer of the virtual clock. The value of the virtual clock is an
  argument of the operations that read it; signed quantities are words compared as
  signed.
\<close>

section \<open>State and registers\<close>

text \<open>\<open>rtc_timer\<close> is the expiry of the timer on the virtual clock, when it is set.\<close>

record rtc_state =
  alarm_low_ns :: u32
  alarm_high_ns :: u32
  time_base :: u64
  now_ns :: u64
  rtc_irq_enabled :: u8
  armed :: u8
  rtc_timer :: "u64 option"
  rtc_irq :: bool

definition alarm_ns :: "rtc_state \<Rightarrow> u64" where
  "alarm_ns s = ucast (alarm_low_ns s) OR push_bit 32 (scast (alarm_high_ns s))"

definition goldfish_rtc_read :: "u64 \<Rightarrow> rtc_state \<Rightarrow> u64 \<Rightarrow> (u64 \<times> rtc_state) res" where
  "goldfish_rtc_read clk s offset =
    (if offset = 0x00 then let now = clk + time_base s in Inr (now, s\<lparr>now_ns := now\<rparr>)
     else if offset = 0x04 then Inr (signed_drop_bit 32 (now_ns s), s)
     else if offset = 0x08 then Inr (ucast (alarm_low_ns s), s)
     else if offset = 0x0c then Inr (scast (alarm_high_ns s), s)
     else if offset = 0x18 then Inr (scast (armed s), s)
     else Inl CpuAbort)"

definition goldfish_rtc_write :: "u64 \<Rightarrow> rtc_state \<Rightarrow> u64 \<Rightarrow> u64 \<Rightarrow> rtc_state res" where
  "goldfish_rtc_write clk s offset val =
    (if offset = 0x08 then
       let s = s\<lparr>alarm_low_ns := ucast val\<rparr>; now = clk + time_base s in
       if alarm_ns s \<le>s now
       then Inr (if rtc_irq_enabled s \<noteq> 0 then s\<lparr>rtc_irq := True\<rparr> else s)
       else Inr (s\<lparr>rtc_timer := Some (alarm_ns s - time_base s), armed := 1, rtc_irq_enabled := 1\<rparr>)
     else if offset = 0x0c then Inr (s\<lparr>alarm_high_ns := ucast val\<rparr>)
     else if offset = 0x00 then Inr (s\<lparr>time_base := (push_bit 32 (time_base s) OR val) - clk\<rparr>)
     else if offset = 0x04 then Inr (s\<lparr>time_base := val\<rparr>)
     else if offset = 0x14 then Inr (s\<lparr>rtc_timer := None, armed := 0, rtc_irq := False\<rparr>)
     else if offset = 0x1c then Inr (s\<lparr>rtc_irq := False\<rparr>)
     else if offset = 0x10 then Inr (s\<lparr>rtc_irq_enabled := if val \<noteq> 0 then 1 else 0\<rparr>)
     else Inl CpuAbort)"

definition goldfish_rtc_tick :: "rtc_state \<Rightarrow> rtc_state" where
  "goldfish_rtc_tick s = (let s = s\<lparr>armed := 0\<rparr> in if rtc_irq_enabled s \<noteq> 0 then s\<lparr>rtc_irq := True\<rparr> else s)"

definition goldfish_rtc_realize :: rtc_state where
  "goldfish_rtc_realize =
     \<lparr>alarm_low_ns = 0, alarm_high_ns = 0, time_base = 0, now_ns = 0, rtc_irq_enabled = 0, armed = 0,
      rtc_timer = None, rtc_irq = False\<rparr>"

section \<open>Snapshots\<close>

definition goldfish_rtc_save :: "u64 \<Rightarrow> 's QEMUFile \<Rightarrow> rtc_state \<Rightarrow> 's QEMUFile res" where
  "goldfish_rtc_save clk f s =
     rbind (qemu_put_be64 f (now_ns s)) (\<lambda>f.
     rbind (qemu_put_byte f (armed s)) (\<lambda>f.
     if armed s \<noteq> 0 then qemu_put_be64 f (alarm_ns s - clk) else Inr f))"

definition goldfish_rtc_load :: "u64 \<Rightarrow> 's QEMUFile \<Rightarrow> rtc_state \<Rightarrow> nat \<Rightarrow> (bool \<times> rtc_state \<times> 's QEMUFile) res" where
  "goldfish_rtc_load clk f s version_id =
    (if version_id \<noteq> 1 then Inr (False, s, f)
     else rbind (qemu_get_be64 f) (\<lambda>(now, f).
          rbind (qemu_get_byte f) (\<lambda>(arm, f).
          let s = s\<lparr>now_ns := now, armed := arm\<rparr> in
          if armed s \<noteq> 0
          then rbind (qemu_get_be64 f) (\<lambda>(diff, f).
               let alarm = clk + diff in
               Inr (True,
                 if alarm \<le>s clk then s\<lparr>rtc_irq := True, armed := 0\<rparr>
                 else s\<lparr>rtc_irq := False, rtc_timer := Some alarm\<rparr>, f))
          else Inr (True, s, f))))"

section \<open>The clock\<close>

text \<open>
  The main loop runs the timer callback once the virtual clock has reached its expiry.
  The timer is then no longer set.
\<close>

definition rtc_elapse :: "u64 \<Rightarrow> rtc_state \<Rightarrow> rtc_state" where
  "rtc_elapse clk s =
    (case rtc_timer s of
       None \<Rightarrow> s
     | Some t \<Rightarrow> if t \<le>s clk then goldfish_rtc_tick (s\<lparr>rtc_timer := None\<rparr>) else s)"

text \<open>
  C31. A guest that sets the clock, high half first, and reads it later, low half first,
  reads the time it set plus the virtual time that passed in between, both halves of the
  same instant; the high half is that of the last read of the low half, whatever the
  clock does in between.
\<close>

theorem rtc_time_roundtrip:
  "\<exists>s1 s2 s3 v h s4. goldfish_rtc_write c0 s 0x04 hi = Inr s1 \<and> goldfish_rtc_write c1 s1 0x00 lo = Inr s2 \<and>
     goldfish_rtc_read c2 s2 0x00 = Inr (v, s3) \<and> goldfish_rtc_read c3 s3 0x04 = Inr (h, s4) \<and>
     take_bit 32 v OR push_bit 32 h = (push_bit 32 hi OR lo) + (c2 - c1)"
proof -
  let ?t = "(push_bit 32 hi OR lo) + (c2 - c1)"
  have "take_bit 32 ?t OR push_bit 32 (signed_drop_bit 32 ?t) = ?t"
  proof (rule bit_word_eqI)
    fix n assume "n < LENGTH(64)"
    then show "bit (take_bit 32 ?t OR push_bit 32 (signed_drop_bit 32 ?t)) n = bit ?t n"
      by (cases "n < 32") (auto simp: bit_simps)
  qed
  moreover have shift: "c2 + ((push_bit 32 hi OR lo) - c1) = ?t" by simp
  ultimately show ?thesis
    by (simp add: goldfish_rtc_write_def goldfish_rtc_read_def Let_def shift del: add_diff_eq)
qed

section \<open>The alarm\<close>

text \<open>Times of at most \<open>2 ^ 62\<close> nanoseconds, some 146 years, around zero: differences and sums do not overflow.\<close>

definition near :: "u64 \<Rightarrow> bool" where
  "near t \<longleftrightarrow> - (2 ^ 62) \<le> sint t \<and> sint t < 2 ^ 62"

lemma sint_near:
  assumes "near a" "near b"
  shows "sint (a + b) = sint a + sint b" "sint (a - b) = sint a - sint b"
  using assms by (simp_all add: near_def sint_word_ariths signed_take_bit_int_eq_self)

lemma near_sle:
  assumes "near a" "near b" "near c"
  shows "a - b \<le>s c \<longleftrightarrow> a \<le>s c + b"
  using sint_near(1) [OF assms(3,2)] sint_near(2) [OF assms(1,2)] by (simp add: word_sle_eq) arith

text \<open>
  C32. An alarm set to a time in the future raises the line exactly when the time the
  clock shows has reached it, provided nothing else is written in between and the times
  do not overflow; it enables the interrupt by itself. An alarm that is not in the
  future raises the line at once, but only when the interrupt was enabled before, and
  sets no timer.
\<close>

theorem rtc_alarm_on_time:
  assumes "near (ucast lo OR push_bit 32 (scast hi))" "near (time_base s)" "near c"
  shows "\<exists>s1 s2. goldfish_rtc_write c0 s 0x0c (ucast hi) = Inr s1 \<and> goldfish_rtc_write c1 s1 0x08 (ucast lo) = Inr s2 \<and>
     (let alarm = ucast (lo :: u32) OR push_bit 32 (scast (hi :: u32)) in
      if alarm \<le>s c1 + time_base s
      then rtc_irq s2 = (rtc_irq s \<or> rtc_irq_enabled s \<noteq> 0) \<and> rtc_timer s2 = rtc_timer s
      else rtc_irq (rtc_elapse c s2) = (rtc_irq s \<or> alarm \<le>s c + time_base s))"
proof -
  have "ucast (ucast w :: u64) = w" for w :: u32 by (simp add: ucast_up_down)
  then show ?thesis
    using near_sle [OF assms]
    by (simp add: goldfish_rtc_write_def alarm_ns_def Let_def rtc_elapse_def goldfish_rtc_tick_def)
qed

theorem rtc_alarm_on_time_witness:
  "\<exists>s1 s2. goldfish_rtc_write 0 goldfish_rtc_realize 0x0c 0 = Inr s1 \<and> goldfish_rtc_write 100 s1 0x08 500 = Inr s2 \<and>
     \<not> rtc_irq (rtc_elapse 499 s2)"
proof -
  have "near (ucast (500 :: u32) OR push_bit 32 (scast (0 :: u32)))" "near (time_base goldfish_rtc_realize)" "near 499"
    by (simp_all add: near_def goldfish_rtc_realize_def)
  from rtc_alarm_on_time [OF this, of 0 100] show ?thesis
    by (simp add: goldfish_rtc_realize_def Let_def word_sle_eq)
qed

section \<open>The alarm in a snapshot\<close>

lemma puts_rtc:
  assumes "armed s \<noteq> 0"
  shows "chan.puts (\<lambda>f. goldfish_rtc_save clk f s) (be64 (now_ns s) @ [armed s] @ be64 (alarm_ns s - clk))"
  unfolding goldfish_rtc_save_def using assms
  by (intro chan.puts_bind chan.puts_be64 chan.puts_byte) (simp add: chan.puts_be64)

lemma load_rtc:
  assumes "chan.rd_ok f" "chan.unread f = be64 n @ [a] @ be64 diff" "a \<noteq> 0" "\<not> clk + diff \<le>s clk"
  shows "\<exists>f'. goldfish_rtc_load clk f s 1 =
     Inr (True, s\<lparr>now_ns := n, armed := a, rtc_irq := False, rtc_timer := Some (clk + diff)\<rparr>, f')"
proof -
  obtain f1 where f1: "qemu_get_be64 f = Inr (n, f1)" "chan.rd_ok f1" "chan.unread f1 = [a] @ be64 diff"
    using chan.getsD [OF chan.gets_be64 assms(1,2)] by auto
  obtain f2 where f2: "qemu_get_byte f1 = Inr (a, f2)" "chan.rd_ok f2" "chan.unread f2 = be64 diff"
    using chan.getsD [OF chan.gets_byte f1(2), of a "be64 diff"] f1(3) by auto
  obtain f3 where "qemu_get_be64 f2 = Inr (diff, f3)"
    using chan.getsD [OF chan.gets_be64 f2(2), of diff "[]"] f2(3) by auto
  then show ?thesis
    using f1(1) f2(1) assms(3,4) by (simp add: goldfish_rtc_load_def Let_def)
qed

text \<open>
  C33. A snapshot loses the alarm. It is saved relative to the virtual clock without the
  offset between the clock the guest set and the virtual clock, so the delay left is
  wrong by that offset; and as the interrupt enable is not saved, in a new machine the
  timer expires without raising the line.
\<close>

theorem rtc_snapshot_loses_alarm:
  assumes "armed s \<noteq> 0" "rtc_timer s = Some (alarm_ns s - time_base s)" "\<not> clk' + (alarm_ns s - clk) \<le>s clk'"
  shows "\<exists>w w' s' r t'. goldfish_rtc_save clk (qemu_fopen_channel_output (qio_channel_buffer_new junk 0) mem) s = Inr w \<and>
     qemu_fflush w = Inr w' \<and>
     goldfish_rtc_load clk' (qemu_fopen_channel_input (qio_channel_buffer_seek (opaque w') 0) mem) goldfish_rtc_realize 1 =
       Inr (True, s', r) \<and>
     rtc_timer s' = Some t' \<and> t' - clk' = (the (rtc_timer s) - clk) + time_base s \<and>
     \<not> rtc_irq (rtc_elapse c s')"
proof -
  obtain w w' where w: "goldfish_rtc_save clk (qemu_fopen_channel_output (qio_channel_buffer_new junk 0) mem) s = Inr w"
    "qemu_fflush w = Inr w'"
    "chan.rd_ok (qemu_fopen_channel_input (qio_channel_buffer_seek (opaque w') 0) mem)"
    "chan.unread (qemu_fopen_channel_input (qio_channel_buffer_seek (opaque w') 0) mem) =
       be64 (now_ns s) @ [armed s] @ be64 (alarm_ns s - clk)"
    using saved_is_unread [OF puts_rtc [OF assms(1)]] by blast
  from load_rtc [OF w(3,4) assms(1,3)] obtain r where
    "goldfish_rtc_load clk' (qemu_fopen_channel_input (qio_channel_buffer_seek (opaque w') 0) mem) goldfish_rtc_realize 1 =
     Inr (True, goldfish_rtc_realize\<lparr>now_ns := now_ns s, armed := armed s, rtc_irq := False,
       rtc_timer := Some (clk' + (alarm_ns s - clk))\<rparr>, r)" by blast
  then show ?thesis
    using w(1,2) assms(2)
    by (auto simp: rtc_elapse_def goldfish_rtc_tick_def goldfish_rtc_realize_def)
qed

definition ringing :: rtc_state where
  "ringing = goldfish_rtc_realize\<lparr>alarm_low_ns := 5000, time_base := 1000, rtc_timer := Some 4000, armed := 1,
     rtc_irq_enabled := 1\<rparr>"

theorem rtc_snapshot_loses_alarm_witness:
  "\<exists>w w' s' r t'. goldfish_rtc_save 3000 (qemu_fopen_channel_output (qio_channel_buffer_new 0 0) (\<lambda>_. 0)) ringing = Inr w \<and>
     qemu_fflush w = Inr w' \<and>
     goldfish_rtc_load 100 (qemu_fopen_channel_input (qio_channel_buffer_seek (opaque w') 0) (\<lambda>_. 0)) goldfish_rtc_realize 1 =
       Inr (True, s', r) \<and> rtc_timer s' = Some t' \<and> t' - 100 = (the (rtc_timer ringing) - 3000) + 1000 \<and>
     rtc_irq (rtc_elapse 4000 ringing) \<and> \<not> rtc_irq (rtc_elapse 9000 s')"
proof -
  have alarm: "alarm_ns ringing = 5000" by (simp add: alarm_ns_def ringing_def goldfish_rtc_realize_def)
  have "armed ringing \<noteq> 0" "rtc_timer ringing = Some (alarm_ns ringing - time_base ringing)"
    "\<not> 100 + (alarm_ns ringing - 3000) \<le>s (100 :: u64)"
    unfolding alarm by (simp_all add: ringing_def word_sle_eq)
  moreover have "rtc_irq (rtc_elapse 4000 ringing)" "time_base ringing = 1000"
    by (simp_all add: rtc_elapse_def ringing_def goldfish_rtc_tick_def)
  ultimately show ?thesis
    using rtc_snapshot_loses_alarm [of ringing 100 3000 0 "\<lambda>_. 0" 9000] by simp
qed

end
