(* ===== verification/Bit_Ops.thy ===== *)
theory Bit_Ops
  imports Interfaces
begin

text \<open>
  The bit operations of \<^verbatim>\<open>include/qemu/bitops.h\<close> and \<^verbatim>\<open>util/bitops.c\<close>: single bits of arrays
  of 64-bit words, searches for the next and the last bit, bit fields, and the shuffles.
  The searches are proved equal to a search bit by bit.
\<close>

section \<open>Bits of an array of words\<close>

abbreviation BITS_PER_LONG :: nat where
  "BITS_PER_LONG \<equiv> 64"

definition BIT_MASK :: "nat \<Rightarrow> u64" where
  "BIT_MASK nr = push_bit (nr mod BITS_PER_LONG) 1"

definition BIT_WORD :: "nat \<Rightarrow> nat" where
  "BIT_WORD nr = nr div BITS_PER_LONG"

definition BITS_TO_LONGS :: "nat \<Rightarrow> nat" where
  "BITS_TO_LONGS nr = (nr + BITS_PER_LONG - 1) div BITS_PER_LONG"

definition set_bit_in :: "nat \<Rightarrow> u64 list \<Rightarrow> u64 list res" where
  "set_bit_in nr addr = rbind (aread addr (BIT_WORD nr)) (\<lambda>w. awrite addr (BIT_WORD nr) (w OR BIT_MASK nr))"

definition clear_bit :: "nat \<Rightarrow> u64 list \<Rightarrow> u64 list res" where
  "clear_bit nr addr = rbind (aread addr (BIT_WORD nr)) (\<lambda>w. awrite addr (BIT_WORD nr) (w AND NOT (BIT_MASK nr)))"

definition change_bit :: "nat \<Rightarrow> u64 list \<Rightarrow> u64 list res" where
  "change_bit nr addr = rbind (aread addr (BIT_WORD nr)) (\<lambda>w. awrite addr (BIT_WORD nr) (w XOR BIT_MASK nr))"

definition test_and_set_bit :: "nat \<Rightarrow> u64 list \<Rightarrow> (bool \<times> u64 list) res" where
  "test_and_set_bit nr addr =
     rbind (aread addr (BIT_WORD nr)) (\<lambda>w.
     rbind (awrite addr (BIT_WORD nr) (w OR BIT_MASK nr)) (\<lambda>ws. Inr (w AND BIT_MASK nr \<noteq> 0, ws)))"

definition test_and_clear_bit :: "nat \<Rightarrow> u64 list \<Rightarrow> (bool \<times> u64 list) res" where
  "test_and_clear_bit nr addr =
     rbind (aread addr (BIT_WORD nr)) (\<lambda>w.
     rbind (awrite addr (BIT_WORD nr) (w AND NOT (BIT_MASK nr))) (\<lambda>ws. Inr (w AND BIT_MASK nr \<noteq> 0, ws)))"

definition test_and_change_bit :: "nat \<Rightarrow> u64 list \<Rightarrow> (bool \<times> u64 list) res" where
  "test_and_change_bit nr addr =
     rbind (aread addr (BIT_WORD nr)) (\<lambda>w.
     rbind (awrite addr (BIT_WORD nr) (w XOR BIT_MASK nr)) (\<lambda>ws. Inr (w AND BIT_MASK nr \<noteq> 0, ws)))"

definition test_bit :: "nat \<Rightarrow> u64 list \<Rightarrow> bool res" where
  "test_bit nr addr =
     rbind (aread addr (BIT_WORD nr)) (\<lambda>w. Inr (1 AND drop_bit (nr mod BITS_PER_LONG) w \<noteq> 0))"

section \<open>Counting zeros\<close>

text \<open>The first place from \<open>a\<close> on, within \<open>n\<close> places, where \<open>P\<close> holds, or the end.\<close>

fun first_from :: "(nat \<Rightarrow> bool) \<Rightarrow> nat \<Rightarrow> nat \<Rightarrow> nat" where
  "first_from P a 0 = a"
| "first_from P a (Suc n) = (if P a then a else first_from P (a + 1) n)"

text \<open>The last place below \<open>n\<close> where \<open>P\<close> holds.\<close>

fun last_below :: "(nat \<Rightarrow> bool) \<Rightarrow> nat \<Rightarrow> nat option" where
  "last_below P 0 = None"
| "last_below P (Suc n) = (if P n then Some n else last_below P n)"

definition ctzl :: "u64 \<Rightarrow> nat" where
  "ctzl w = first_from (bit w) 0 64"

definition clzl :: "u64 \<Rightarrow> nat" where
  "clzl w = first_from (\<lambda>i. bit w (63 - i)) 0 64"

section \<open>Searches\<close>

definition find_found_first :: "u64 \<Rightarrow> nat \<Rightarrow> nat \<Rightarrow> nat" where
  "find_found_first tmp result sz =
    (let tmp = tmp AND drop_bit (BITS_PER_LONG - sz) (- 1) in
     if tmp = 0 then result + sz else result + ctzl tmp)"

fun find_next_words :: "u64 list \<Rightarrow> nat \<Rightarrow> nat \<Rightarrow> nat \<Rightarrow> nat res" where
  "find_next_words addr p result sz =
    (if 64 \<le> sz
     then rbind (aread addr p) (\<lambda>tmp.
       if tmp \<noteq> 0 then Inr (result + ctzl tmp)
       else find_next_words addr (p + 1) (result + 64) (sz - 64))
     else if sz = 0 then Inr result
     else rbind (aread addr p) (\<lambda>tmp. Inr (find_found_first tmp result sz)))"

fun find_next_four :: "u64 list \<Rightarrow> nat \<Rightarrow> nat \<Rightarrow> nat \<Rightarrow> nat res" where
  "find_next_four addr p result sz =
    (if 4 * 64 \<le> sz
     then rbind (aread addr p) (\<lambda>tmp. rbind (aread addr (p + 1)) (\<lambda>d1.
          rbind (aread addr (p + 2)) (\<lambda>d2. rbind (aread addr (p + 3)) (\<lambda>d3.
       if tmp \<noteq> 0 then Inr (result + ctzl tmp)
       else if d1 OR d2 OR d3 \<noteq> 0 then find_next_words addr p result sz
       else find_next_four addr (p + 4) (result + 4 * 64) (sz - 4 * 64)))))
     else find_next_words addr p result sz)"

declare find_next_words.simps [simp del] find_next_four.simps [simp del]

definition find_next_bit :: "u64 list \<Rightarrow> nat \<Rightarrow> nat \<Rightarrow> nat res" where
  "find_next_bit addr sz offset =
    (let p = BIT_WORD offset; result = offset - offset mod BITS_PER_LONG in
     if sz \<le> offset then Inr sz
     else let sz = sz - result; offset = offset mod BITS_PER_LONG in
     if offset \<noteq> 0
     then rbind (aread addr p) (\<lambda>tmp.
       let tmp = tmp AND push_bit offset (- 1) in
       if sz < BITS_PER_LONG then Inr (find_found_first tmp result sz)
       else if tmp \<noteq> 0 then Inr (result + ctzl tmp)
       else find_next_four addr (p + 1) (result + BITS_PER_LONG) (sz - BITS_PER_LONG))
     else find_next_four addr p result sz)"

definition find_zero_found_first :: "u64 \<Rightarrow> nat \<Rightarrow> nat \<Rightarrow> nat" where
  "find_zero_found_first tmp result sz =
    (let tmp = tmp OR push_bit sz (- 1) in
     if tmp = - 1 then result + sz else result + ctzl (NOT tmp))"

fun find_next_zero_words :: "u64 list \<Rightarrow> nat \<Rightarrow> nat \<Rightarrow> nat \<Rightarrow> nat res" where
  "find_next_zero_words addr p result sz =
    (if 64 \<le> sz
     then rbind (aread addr p) (\<lambda>tmp.
       if NOT tmp \<noteq> 0 then Inr (result + ctzl (NOT tmp))
       else find_next_zero_words addr (p + 1) (result + 64) (sz - 64))
     else if sz = 0 then Inr result
     else rbind (aread addr p) (\<lambda>tmp. Inr (find_zero_found_first tmp result sz)))"

declare find_next_zero_words.simps [simp del]

definition find_next_zero_bit :: "u64 list \<Rightarrow> nat \<Rightarrow> nat \<Rightarrow> nat res" where
  "find_next_zero_bit addr sz offset =
    (let p = BIT_WORD offset; result = offset - offset mod BITS_PER_LONG in
     if sz \<le> offset then Inr sz
     else let sz = sz - result; offset = offset mod BITS_PER_LONG in
     if offset \<noteq> 0
     then rbind (aread addr p) (\<lambda>tmp.
       let tmp = tmp OR drop_bit (BITS_PER_LONG - offset) (- 1) in
       if sz < BITS_PER_LONG then Inr (find_zero_found_first tmp result sz)
       else if NOT tmp \<noteq> 0 then Inr (result + ctzl (NOT tmp))
       else find_next_zero_words addr (p + 1) (result + BITS_PER_LONG) (sz - BITS_PER_LONG))
     else find_next_zero_words addr p result sz)"

function find_first_loop :: "u64 list \<Rightarrow> nat \<Rightarrow> nat \<Rightarrow> nat \<Rightarrow> nat res" where
  "find_first_loop addr p result sz =
    (if result < sz
     then rbind (aread addr p) (\<lambda>tmp.
       if tmp \<noteq> 0 then let result = result + ctzl tmp in Inr (if result < sz then result else sz)
       else find_first_loop addr (p + 1) (result + 64) sz)
     else Inr sz)"
  by pat_completeness auto
termination
  by (relation "measure (\<lambda>(addr, p, result, sz). sz - result)") auto

declare find_first_loop.simps [simp del]

definition find_first_bit :: "u64 list \<Rightarrow> nat \<Rightarrow> nat res" where
  "find_first_bit addr sz = find_first_loop addr 0 0 sz"

definition find_first_zero_bit :: "u64 list \<Rightarrow> nat \<Rightarrow> nat res" where
  "find_first_zero_bit addr sz = find_next_zero_bit addr sz 0"

fun find_last_words :: "u64 list \<Rightarrow> nat \<Rightarrow> nat \<Rightarrow> nat res" where
  "find_last_words addr sz 0 = Inr sz"
| "find_last_words addr sz (Suc words) =
     rbind (aread addr words) (\<lambda>tmp.
       if tmp \<noteq> 0 then Inr (words * BITS_PER_LONG + BITS_PER_LONG - 1 - clzl tmp)
       else find_last_words addr sz words)"

definition find_last_bit :: "u64 list \<Rightarrow> nat \<Rightarrow> nat res" where
  "find_last_bit addr sz =
    (let words = sz div BITS_PER_LONG in
     if sz mod BITS_PER_LONG \<noteq> 0
     then rbind (aread addr words) (\<lambda>w.
       let tmp = w AND drop_bit (BITS_PER_LONG - sz mod BITS_PER_LONG) (- 1) in
       if tmp \<noteq> 0 then Inr (words * BITS_PER_LONG + BITS_PER_LONG - 1 - clzl tmp)
       else find_last_words addr sz words)
     else find_last_words addr sz words)"

section \<open>Rotations and bit fields\<close>

text \<open>A shift by the width of the type or more is undefined, for the types that are not promoted.\<close>

definition rol32 :: "u32 \<Rightarrow> nat \<Rightarrow> u32 res" where
  "rol32 word shift =
    (if 32 \<le> shift then Inl IntOverflow else Inr (push_bit shift word OR drop_bit ((32 - shift) mod 32) word))"

definition ror32 :: "u32 \<Rightarrow> nat \<Rightarrow> u32 res" where
  "ror32 word shift =
    (if 32 \<le> shift then Inl IntOverflow else Inr (drop_bit shift word OR push_bit ((32 - shift) mod 32) word))"

definition rol64 :: "u64 \<Rightarrow> nat \<Rightarrow> u64 res" where
  "rol64 word shift =
    (if 64 \<le> shift then Inl IntOverflow else Inr (push_bit shift word OR drop_bit ((64 - shift) mod 64) word))"

definition ror64 :: "u64 \<Rightarrow> nat \<Rightarrow> u64 res" where
  "ror64 word shift =
    (if 64 \<le> shift then Inl IntOverflow else Inr (drop_bit shift word OR push_bit ((64 - shift) mod 64) word))"

definition field_ok :: "nat \<Rightarrow> int \<Rightarrow> int \<Rightarrow> bool" where
  "field_ok w start len \<longleftrightarrow> 0 \<le> start \<and> 0 < len \<and> len \<le> int w - start"

definition extract32 :: "u32 \<Rightarrow> int \<Rightarrow> int \<Rightarrow> u32 res" where
  "extract32 value start len =
     assert_then (field_ok 32 start len) (Inr (drop_bit (nat start) value AND drop_bit (32 - nat len) (- 1)))"

definition extract64 :: "u64 \<Rightarrow> int \<Rightarrow> int \<Rightarrow> u64 res" where
  "extract64 value start len =
     assert_then (field_ok 64 start len) (Inr (drop_bit (nat start) value AND drop_bit (64 - nat len) (- 1)))"

definition sextract32 :: "u32 \<Rightarrow> int \<Rightarrow> int \<Rightarrow> u32 res" where
  "sextract32 value start len =
     assert_then (field_ok 32 start len)
       (Inr (signed_drop_bit (32 - nat len) (push_bit (32 - nat len - nat start) value)))"

definition sextract64 :: "u64 \<Rightarrow> int \<Rightarrow> int \<Rightarrow> u64 res" where
  "sextract64 value start len =
     assert_then (field_ok 64 start len)
       (Inr (signed_drop_bit (64 - nat len) (push_bit (64 - nat len - nat start) value)))"

definition deposit32 :: "u32 \<Rightarrow> int \<Rightarrow> int \<Rightarrow> u32 \<Rightarrow> u32 res" where
  "deposit32 value start len fieldval =
     assert_then (field_ok 32 start len)
      (let mask = push_bit (nat start) (drop_bit (32 - nat len) (- 1)) in
       Inr (value AND NOT mask OR push_bit (nat start) fieldval AND mask))"

definition deposit64 :: "u64 \<Rightarrow> int \<Rightarrow> int \<Rightarrow> u64 \<Rightarrow> u64 res" where
  "deposit64 value start len fieldval =
     assert_then (field_ok 64 start len)
      (let mask = push_bit (nat start) (drop_bit (64 - nat len) (- 1)) in
       Inr (value AND NOT mask OR push_bit (nat start) fieldval AND mask))"

definition half_shuffle32 :: "u32 \<Rightarrow> u32" where
  "half_shuffle32 x =
    (let x = push_bit 8 (x AND 0xFF00) OR (x AND 0x00FF);
         x = (push_bit 4 x OR x) AND 0x0F0F0F0F;
         x = (push_bit 2 x OR x) AND 0x33333333;
         x = (push_bit 1 x OR x) AND 0x55555555 in x)"

definition half_unshuffle32 :: "u32 \<Rightarrow> u32" where
  "half_unshuffle32 x =
    (let x = x AND 0x55555555;
         x = (drop_bit 1 x OR x) AND 0x33333333;
         x = (drop_bit 2 x OR x) AND 0x0F0F0F0F;
         x = (drop_bit 4 x OR x) AND 0x00FF00FF;
         x = (drop_bit 8 x OR x) AND 0x0000FFFF in x)"

section \<open>Single bits\<close>

definition bit_at :: "u64 list \<Rightarrow> nat \<Rightarrow> bool" where
  "bit_at ws n = bit (ws ! (n div 64)) (n mod 64)"

definition bits_of :: "u64 list \<Rightarrow> nat set" where
  "bits_of ws = {n. n < 64 * length ws \<and> bit_at ws n}"

lemma BIT_WORD_less: "nr < 64 * length ws \<Longrightarrow> BIT_WORD nr < length ws"
  by (simp add: BIT_WORD_def)

lemma bit_BIT_MASK: "bit (BIT_MASK nr) n \<longleftrightarrow> n = nr mod 64"
  by (auto simp: BIT_MASK_def bit_simps)

lemma same_bit_iff: "m div 64 = nr div 64 \<Longrightarrow> m mod 64 = nr mod 64 \<longleftrightarrow> m = (nr :: nat)"
  by (metis div_mult_mod_eq)

lemma bit_at_update:
  assumes "nr < 64 * length ws" "\<And>n. n < 64 \<Longrightarrow> bit v n = (if n = nr mod 64 then b else bit (ws ! (nr div 64)) n)"
  shows "bit_at (ws[BIT_WORD nr := v]) m \<longleftrightarrow> (if m = nr then b else bit_at ws m)"
proof (cases "m div 64 = nr div 64")
  case True
  then show ?thesis
    using assms same_bit_iff [OF True] BIT_WORD_less [OF assms(1)] by (auto simp: bit_at_def BIT_WORD_def)
next
  case False
  then show ?thesis by (auto simp: bit_at_def BIT_WORD_def)
qed

lemma bits_of_update:
  assumes "nr < 64 * length ws" "\<And>n. n < 64 \<Longrightarrow> bit v n = (if n = nr mod 64 then b else bit (ws ! (nr div 64)) n)"
  shows "bits_of (ws[BIT_WORD nr := v]) = (if b then insert nr (bits_of ws) else bits_of ws - {nr})"
  using assms(1) by (auto simp: bits_of_def bit_at_update [OF assms])

lemma u64_zero_iff: "(w :: u64) = 0 \<longleftrightarrow> (\<forall>n < 64. \<not> bit w n)"
  by (auto intro!: bit_word_eqI)

lemma and_mask_nonzero: "w AND BIT_MASK nr \<noteq> 0 \<longleftrightarrow> bit w (nr mod 64)"
  by (auto simp: u64_zero_iff bit_and_iff bit_BIT_MASK)

lemma bits_of_iff: "nr < 64 * length ws \<Longrightarrow> nr \<in> bits_of ws \<longleftrightarrow> bit (ws ! BIT_WORD nr) (nr mod 64)"
  by (simp add: bits_of_def bit_at_def BIT_WORD_def)

lemma bit_array_ops:
  assumes "nr < 64 * length ws"
  shows "\<exists>v. set_bit_in nr ws = Inr v \<and> bits_of v = insert nr (bits_of ws) \<and> length v = length ws"
    and "\<exists>v. clear_bit nr ws = Inr v \<and> bits_of v = bits_of ws - {nr} \<and> length v = length ws"
    and "\<exists>v. change_bit nr ws = Inr v \<and> bits_of v = (if nr \<in> bits_of ws then bits_of ws - {nr} else insert nr (bits_of ws)) \<and>
       length v = length ws"
    and "test_bit nr ws = Inr (nr \<in> bits_of ws)"
proof -
  let ?w = "ws ! BIT_WORD nr"
  note word = BIT_WORD_less [OF assms]
  note upd = bits_of_update [OF assms]
  have "bits_of (ws[BIT_WORD nr := ?w OR BIT_MASK nr]) = insert nr (bits_of ws)"
    by (subst upd [of _ True]) (auto simp: bit_or_iff bit_BIT_MASK BIT_WORD_def)
  then show "\<exists>v. set_bit_in nr ws = Inr v \<and> bits_of v = insert nr (bits_of ws) \<and> length v = length ws"
    using word by (simp add: set_bit_in_def res_simps)
  have "bits_of (ws[BIT_WORD nr := ?w AND NOT (BIT_MASK nr)]) = bits_of ws - {nr}"
    by (subst upd [of _ False]) (auto simp: bit_and_iff bit_not_iff bit_BIT_MASK BIT_WORD_def)
  then show "\<exists>v. clear_bit nr ws = Inr v \<and> bits_of v = bits_of ws - {nr} \<and> length v = length ws"
    using word by (simp add: clear_bit_def res_simps)
  have "bits_of (ws[BIT_WORD nr := ?w XOR BIT_MASK nr]) = (if nr \<in> bits_of ws then bits_of ws - {nr} else insert nr (bits_of ws))"
    by (subst upd [of _ "nr \<notin> bits_of ws"]) (auto simp: bit_xor_iff bit_BIT_MASK BIT_WORD_def bits_of_iff [OF assms])
  then show "\<exists>v. change_bit nr ws = Inr v \<and>
      bits_of v = (if nr \<in> bits_of ws then bits_of ws - {nr} else insert nr (bits_of ws)) \<and> length v = length ws"
    using word by (simp add: change_bit_def res_simps)
  show "test_bit nr ws = Inr (nr \<in> bits_of ws)"
    using word by (simp add: test_bit_def res_simps bits_of_iff [OF assms] one_and_eq bit_iff_odd_drop_bit
        odd_iff_mod_2_eq_one)
qed

section \<open>Searching bit by bit\<close>

lemma first_from_range: "a \<le> first_from P a n \<and> first_from P a n \<le> a + n"
proof (induction n arbitrary: a)
  case (Suc n)
  then show ?case using Suc [of "Suc a"] by (auto intro: Suc_leD)
qed simp

lemma first_from_none: "(\<And>i. a \<le> i \<Longrightarrow> i < a + n \<Longrightarrow> \<not> P i) \<Longrightarrow> first_from P a n = a + n"
  by (induction n arbitrary: a) auto

lemma first_from_eq:
  assumes "P k" "a \<le> k" "k < a + n" "\<And>i. a \<le> i \<Longrightarrow> i < k \<Longrightarrow> \<not> P i"
  shows "first_from P a n = k"
  using assms
proof (induction n arbitrary: a)
  case (Suc n)
  show ?case
  proof (cases "a = k")
    case False
    then have "\<not> P a" using Suc.prems(2,4) by simp
    then show ?thesis using Suc.IH [of "a + 1"] Suc.prems False by simp
  qed (use Suc.prems(1) in simp)
qed simp

lemma first_from_cases:
  obtains (none) "first_from P a n = a + n" "\<And>i. a \<le> i \<Longrightarrow> i < a + n \<Longrightarrow> \<not> P i"
  | (found) "P (first_from P a n)" "a \<le> first_from P a n" "first_from P a n < a + n"
      "\<And>i. a \<le> i \<Longrightarrow> i < first_from P a n \<Longrightarrow> \<not> P i"
proof (cases "\<exists>i. a \<le> i \<and> i < a + n \<and> P i")
  case True
  then obtain k where k: "a \<le> k" "k < a + n" "P k" "\<And>i. a \<le> i \<Longrightarrow> i < k \<Longrightarrow> \<not> P i"
    using exists_least_iff [of "\<lambda>i. a \<le> i \<and> i < a + n \<and> P i"] by (metis less_trans)
  then show ?thesis using first_from_eq [of P k a n] found by simp
next
  case False
  then show ?thesis using first_from_none [of a n P] none by blast
qed

lemma first_from_split:
  assumes "m \<le> n"
  shows "first_from P a n = (if \<exists>i. a \<le> i \<and> i < a + m \<and> P i then first_from P a m else first_from P (a + m) (n - m))"
proof (cases "\<exists>i. a \<le> i \<and> i < a + m \<and> P i")
  case True
  then show ?thesis
  proof (cases rule: first_from_cases [of P a m])
    case found
    then show ?thesis using True assms first_from_eq [of P "first_from P a m" a n] by auto
  qed auto
next
  case False
  have "first_from P a n = first_from P (a + m) (n - m)"
  proof (cases rule: first_from_cases [of P "a + m" "n - m"])
    case none
    have "first_from P a n = a + n"
      by (rule first_from_none) (use none(2) False assms in \<open>metis le_add_diff_inverse add.assoc not_less\<close>)
    then show ?thesis using none(1) assms by simp
  next
    case found
    let ?k = "first_from P (a + m) (n - m)"
    have "\<not> P i" if "a \<le> i" "i < ?k" for i
      using found(4) [of i] False that by (cases "i < a + m") auto
    then show ?thesis
      using first_from_eq [of P ?k a n] found(1-3) assms by auto
  qed
  then show ?thesis using False by auto
qed

lemma ctzl_eq: "bit w k \<Longrightarrow> k < 64 \<Longrightarrow> (\<And>i. i < k \<Longrightarrow> \<not> bit w i) \<Longrightarrow> ctzl w = k"
  by (simp add: ctzl_def first_from_eq)

text \<open>The first bit of the word that holds the places \<open>64 * p\<close> and following.\<close>

lemma first_in_word:
  assumes "sz \<le> 64" "w \<noteq> 0" "\<And>i. i < 64 \<Longrightarrow> bit w i \<longleftrightarrow> i < sz \<and> P (64 * p + i)"
  shows "first_from P (64 * p) sz = 64 * p + ctzl w"
proof -
  obtain k where k: "k < 64" "bit w k" "\<And>i. i < k \<Longrightarrow> \<not> bit w i"
    using assms(2) exists_least_iff [of "\<lambda>n. n < 64 \<and> bit w n"] u64_zero_iff [of w] by (metis less_trans)
  have "first_from P (64 * p) sz = 64 * p + k"
  proof (rule first_from_eq)
    fix i assume i: "64 * p \<le> i" "i < 64 * p + k"
    then have "i - 64 * p < k" by arith
    then show "\<not> P i" using i k assms(3) [of "i - 64 * p"] assms(3) [of k] by auto
  qed (use k assms(3) in auto)
  then show ?thesis using ctzl_eq [of w k] k by simp
qed

lemma none_in_word:
  assumes "sz \<le> 64" "w = 0" "\<And>i. i < 64 \<Longrightarrow> bit w i \<longleftrightarrow> i < sz \<and> P (64 * p + i)"
  shows "64 * p \<le> i \<Longrightarrow> i < 64 * p + sz \<Longrightarrow> \<not> P i"
  using assms(3) [of "i - 64 * p"] assms(1,2) by auto

lemma bit_ones_drop: "i < 64 \<Longrightarrow> sz \<le> 64 \<Longrightarrow> bit (drop_bit (64 - sz) (- 1) :: u64) i \<longleftrightarrow> i < sz"
  by (auto simp: bit_simps)

lemma bit_at_word: "i < 64 \<Longrightarrow> bit_at ws (64 * p + i) = bit (ws ! p) i"
  by (simp add: bit_at_def)

lemma found_first_eq:
  assumes "sz \<le> 64" "\<And>i. i < sz \<Longrightarrow> bit w i \<longleftrightarrow> P (64 * p + i)"
  shows "find_found_first w (64 * p) sz = first_from P (64 * p) sz"
proof -
  let ?w = "w AND drop_bit (64 - sz) (- 1)"
  have w: "bit ?w i \<longleftrightarrow> i < sz \<and> P (64 * p + i)" if "i < 64" for i
    using that assms bit_ones_drop [OF that assms(1)] by (auto simp: bit_and_iff)
  show ?thesis
  proof (cases "?w = 0")
    case True
    then show ?thesis
      using first_from_none [OF none_in_word [OF assms(1) True w]] by (simp add: find_found_first_def)
  next
    case False
    then show ?thesis
      using first_in_word [OF assms(1) False w] by (simp add: find_found_first_def Let_def)
  qed
qed

lemma first_word_split:
  assumes "64 \<le> n" "\<And>i. i < 64 \<Longrightarrow> bit w i \<longleftrightarrow> P (64 * p + i)"
  shows "first_from P (64 * p) n = (if w \<noteq> 0 then 64 * p + ctzl w else first_from P (64 * (p + 1)) (n - 64))"
proof (cases "w = 0")
  case True
  then have "\<not> P i" if "64 * p \<le> i" "i < 64 * p + 64" for i
    using none_in_word [OF order_refl True, of P p i] assms(2) that by blast
  then show ?thesis
    using first_from_split [OF assms(1), of P "64 * p"] True by (auto simp: algebra_simps)
next
  case False
  then obtain i where i: "i < 64" "P (64 * p + i)" using assms(2) u64_zero_iff by blast
  moreover have "first_from P (64 * p) 64 = 64 * p + ctzl w"
    using first_in_word [OF order_refl False, of P p] assms(2) by blast
  ultimately show ?thesis
    using first_from_split [OF assms(1), of P "64 * p"] False by (auto intro!: exI [of _ "64 * p + i"])
qed

lemma first_from_cong: "(\<And>i. a \<le> i \<Longrightarrow> P i = Q i) \<Longrightarrow> first_from P a n = first_from Q a n"
  by (induction n arbitrary: a) auto

lemma next_words_eq:
  assumes "64 * p + sz \<le> 64 * length ws"
  shows "find_next_words ws p (64 * p) sz = Inr (first_from (bit_at ws) (64 * p) sz)"
  using assms
proof (induction sz arbitrary: p rule: less_induct)
  case (less sz)
  show ?case
  proof (cases "64 \<le> sz")
    case True
    then have p: "p < length ws" using less.prems by arith
    show ?thesis
      using less.IH [of "sz - 64" "p + 1"] less.prems True p first_word_split [OF True, of "ws ! p" "bit_at ws" p] bit_at_word
      by (subst find_next_words.simps) (auto simp: res_simps algebra_simps)
  next
    case False
    show ?thesis
    proof (cases "sz = 0")
      case False
      then have "p < length ws" using less.prems by arith
      then show ?thesis
        using \<open>\<not> 64 \<le> sz\<close> False found_first_eq [of sz "ws ! p" "bit_at ws" p] bit_at_word
        by (subst find_next_words.simps) (simp add: res_simps)
    qed (subst find_next_words.simps, simp)
  qed
qed

lemma next_words_zero:
  "64 \<le> sz \<Longrightarrow> p < length ws \<Longrightarrow> ws ! p = 0 \<Longrightarrow>
   find_next_words ws p r sz = find_next_words ws (p + 1) (r + 64) (sz - 64)"
  by (subst find_next_words.simps) (simp add: res_simps)

text \<open>The loop over four words at a time finds what the loop over single words finds.\<close>

lemma next_four_words:
  assumes "64 * p + sz \<le> 64 * length ws"
  shows "find_next_four ws p r sz = find_next_words ws p r sz"
  using assms
proof (induction ws p r sz rule: find_next_four.induct)
  case (1 ws p r sz)
  show ?case
  proof (cases "4 * 64 \<le> sz")
    case True
    then have p: "p + 3 < length ws" using "1.prems" by arith
    show ?thesis
    proof (cases "ws ! p = 0 \<and> ws ! (p + 1) OR ws ! (p + 2) OR ws ! (p + 3) = 0")
      case zero: True
      then have z: "ws ! p = 0" "ws ! (p + 1) = 0" "ws ! (p + 2) = 0" "ws ! (p + 3) = 0"
        by (simp_all add: or_eq_0_iff)
      have "find_next_four ws p r sz = find_next_four ws (p + 4) (r + 4 * 64) (sz - 4 * 64)"
        using True p z by (subst find_next_four.simps) (simp add: res_simps)
      also have "\<dots> = find_next_words ws (p + 4) (r + 4 * 64) (sz - 4 * 64)"
        using "1.IH" [OF True, of 0 0 0 0] "1.prems" True by simp
      also have "\<dots> = find_next_words ws p r sz"
        using next_words_zero [of sz p ws r] next_words_zero [of "sz - 64" "p + 1" ws "r + 64"]
          next_words_zero [of "sz - 2 * 64" "p + 2" ws "r + 2 * 64"] next_words_zero [of "sz - 3 * 64" "p + 3" ws "r + 3 * 64"]
          True p z by (simp add: numeral_eq_Suc)
      finally show ?thesis .
    next
      case False
      have "find_next_words ws p r sz = Inr (r + ctzl (ws ! p))" if "ws ! p \<noteq> 0"
        using True p that by (subst find_next_words.simps) (simp add: res_simps)
      then show ?thesis
        using False True p by (subst find_next_four.simps) (simp add: res_simps)
    qed
  next
    case False
    then show ?thesis by (subst find_next_four.simps) simp
  qed
qed

lemma next_four_eq:
  "64 * p + sz \<le> 64 * length ws \<Longrightarrow> find_next_four ws p (64 * p) sz = Inr (first_from (bit_at ws) (64 * p) sz)"
  by (simp add: next_four_words next_words_eq)

text \<open>The part of a search that starts inside a word: the bits before the start are masked.\<close>

lemma first_from_inside:
  assumes "o0 < 64" "\<And>i. i < o0 \<Longrightarrow> \<not> Q (64 * p + i)" "\<And>i. o0 \<le> i \<Longrightarrow> Q (64 * p + i) = P (64 * p + i)" "o0 \<le> sz"
  shows "first_from P (64 * p + o0) (sz - o0) = first_from Q (64 * p) sz"
proof -
  have "\<not> (\<exists>i. 64 * p \<le> i \<and> i < 64 * p + o0 \<and> Q i)"
    using assms(2) by (metis add_less_cancel_left le_add_diff_inverse)
  then have "first_from Q (64 * p) sz = first_from Q (64 * p + o0) (sz - o0)"
    using first_from_split [OF assms(4), of Q "64 * p"] by auto
  moreover have "first_from Q (64 * p + o0) n = first_from P (64 * p + o0) n" for n
  proof (rule first_from_cong)
    fix i assume "64 * p + o0 \<le> i"
    then show "Q i = P i" using assms(3) [of "i - 64 * p"] by simp
  qed
  ultimately show ?thesis by simp
qed

lemma find_next_inside:
  assumes "64 * p + sz \<le> 64 * length ws" "o0 < 64" "o0 < sz" "ws' = ws[p := ws ! p AND push_bit o0 (- 1)]"
  shows "first_from (bit_at ws) (64 * p + o0) (sz - o0) = first_from (bit_at ws') (64 * p) sz"
proof (rule first_from_inside)
  have p: "p < length ws" using assms(1,3) by arith
  show "\<not> bit_at ws' (64 * p + i)" if "i < o0" for i
    using that assms(2,4) p by (simp add: bit_at_def bit_simps)
  show "bit_at ws' (64 * p + i) = bit_at ws (64 * p + i)" if "o0 \<le> i" for i
  proof (cases "i < 64")
    case True
    then show ?thesis using that assms(4) p by (simp add: bit_at_def bit_simps)
  next
    case False
    then have "(64 * p + i) div 64 \<noteq> p" by simp
    then show ?thesis using assms(4) by (simp add: bit_at_def)
  qed
qed (use assms in auto)

lemma find_next_bit_at:
  assumes "o0 < 64" "64 * p + o0 < sz" "n = sz - 64 * p"
  shows "find_next_bit ws sz (64 * p + o0) =
    (if o0 \<noteq> 0
     then rbind (aread ws p) (\<lambda>w.
       let w = w AND push_bit o0 (- 1) in
       if n < 64 then Inr (find_found_first w (64 * p) n)
       else if w \<noteq> 0 then Inr (64 * p + ctzl w)
       else find_next_four ws (p + 1) (64 * (p + 1)) (n - 64))
     else find_next_four ws p (64 * p) n)"
proof -
  have "(64 * p + o0) div 64 = p" "(64 * p + o0) mod 64 = o0" and next_word: "64 * (p + 1) = 64 * p + 64"
    using assms(1) by simp_all
  then show ?thesis using assms(2) unfolding next_word assms(3) by (simp add: find_next_bit_def BIT_WORD_def Let_def)
qed

lemma find_next_bit_eq:
  assumes "o0 < 64" "64 * p + o0 < sz" "sz \<le> 64 * length ws"
  shows "find_next_bit ws sz (64 * p + o0) = Inr (first_from (bit_at ws) (64 * p + o0) (sz - (64 * p + o0)))"
proof -
  define n where "n = sz - 64 * p"
  have n: "64 * p + n \<le> 64 * length ws" "o0 < n" "sz - (64 * p + o0) = n - o0" and p: "p < length ws"
    using assms unfolding n_def by linarith+
  note unfold = find_next_bit_at [OF assms(1,2) n_def, of ws]
  show ?thesis
  proof (cases "o0 = 0")
    case True
    then show ?thesis using unfold next_four_eq [OF n(1)] n(3) by simp
  next
    case False
    define w where "w = ws ! p AND push_bit o0 (- 1)"
    define ws' where "ws' = ws[p := w]"
    have w: "ws' ! p = w" using p by (simp add: ws'_def)
    have eq: "first_from (bit_at ws) (64 * p + o0) (n - o0) = first_from (bit_at ws') (64 * p) n"
      using find_next_inside [OF n(1) assms(1) n(2), of ws'] by (simp add: ws'_def w_def)
    have other: "first_from (bit_at ws') (64 * (p + 1)) k = first_from (bit_at ws) (64 * (p + 1)) k" for k
      by (rule first_from_cong) (auto simp: bit_at_def ws'_def)
    show ?thesis
    proof (cases "n < 64")
      case True
      then have "find_found_first w (64 * p) n = first_from (bit_at ws') (64 * p) n"
        using found_first_eq [of n w "bit_at ws'" p] bit_at_word [of _ ws' p] w by simp
      then show ?thesis
        using unfold eq True False p n(3) by (simp add: w_def res_simps)
    next
      case big: False
      then have "first_from (bit_at ws') (64 * p) n =
          (if w \<noteq> 0 then 64 * p + ctzl w else first_from (bit_at ws) (64 * (p + 1)) (n - 64))"
        using first_word_split [of n w "bit_at ws'" p] bit_at_word [of _ ws' p] w other by simp
      moreover have "find_next_four ws (p + 1) (64 * (p + 1)) (n - 64) = Inr (first_from (bit_at ws) (64 * (p + 1)) (n - 64))"
        using next_four_eq [of "p + 1" "n - 64" ws] n(1) big by simp
      ultimately show ?thesis
        using unfold eq big False p n(3) by (simp add: w_def res_simps)
    qed
  qed
qed

text \<open>A search for a zero is a search for a one in the complement.\<close>

lemma not_ones:
  "sz \<le> 64 \<Longrightarrow> NOT (w OR push_bit sz (- 1)) = NOT w AND drop_bit (64 - sz) (- 1 :: u64)"
  "sz \<le> 64 \<Longrightarrow> NOT (w OR drop_bit (64 - sz) (- 1)) = NOT w AND push_bit sz (- 1 :: u64)"
  by (rule bit_word_eqI; force simp: bit_simps)+

lemma zero_found_first: "sz \<le> 64 \<Longrightarrow> find_zero_found_first w r sz = find_found_first (NOT w) r sz"
proof -
  assume sz: "sz \<le> 64"
  have "v = - 1 \<longleftrightarrow> NOT v = 0" for v :: u64 by (metis bit.double_compl bit.compl_zero)
  then show ?thesis
    unfolding find_zero_found_first_def find_found_first_def Let_def not_ones(1) [OF sz, symmetric] by simp
qed

lemma next_zero_words:
  assumes "64 * p + sz \<le> 64 * length ws"
  shows "find_next_zero_words ws p r sz = find_next_words (map NOT ws) p r sz"
  using assms
proof (induction sz arbitrary: p r rule: less_induct)
  case (less sz)
  show ?case
  proof (cases "sz = 0")
    case False
    then have "p < length ws" using less.prems by arith
    then show ?thesis
      using less.IH [of "sz - 64" "p + 1" "r + 64"] less.prems False
      by (subst find_next_zero_words.simps, subst find_next_words.simps) (simp add: res_simps zero_found_first)
  qed (subst find_next_zero_words.simps, subst find_next_words.simps, simp)
qed

lemma find_next_zero_complement:
  assumes "sz \<le> 64 * length ws"
  shows "find_next_zero_bit ws sz offset = find_next_bit (map NOT ws) sz offset"
proof (cases "offset < sz")
  case True
  let ?p = "offset div 64" and ?o = "offset mod 64"
  have p: "?p < length ws" using True assms by (simp add: less_mult_imp_div_less mult.commute)
  have r: "offset - ?o = 64 * ?p" by (simp add: minus_mod_eq_mult_div)
  have fit: "64 * ?p + (sz - 64 * ?p) \<le> 64 * length (map NOT ws)" "64 * (?p + 1) + (sz - 64 * ?p - 64) \<le> 64 * length (map NOT ws)"
    if "64 \<le> sz - 64 * ?p"
    using that assms by auto
  have all: "64 * ?p + (sz - 64 * ?p) \<le> 64 * length ws" using True assms p by (cases "64 * ?p \<le> sz") auto
  have z: "NOT (w OR drop_bit (64 - ?o) (- 1)) = NOT w AND push_bit ?o (- 1)" for w :: u64
    by (rule not_ones(2)) (simp add: less_imp_le)
  show ?thesis
    using True p r all fit next_zero_words [of ?p "sz - 64 * ?p" ws "64 * ?p"]
      next_zero_words [of "?p + 1" "sz - 64 * ?p - 64" ws "64 * ?p + 64"]
      next_four_words [of ?p "sz - 64 * ?p" "map NOT ws" "64 * ?p"]
      next_four_words [of "?p + 1" "sz - 64 * ?p - 64" "map NOT ws" "64 * ?p + 64"]
    by (auto simp: find_next_zero_bit_def find_next_bit_def BIT_WORD_def Let_def res_simps zero_found_first z)
next
  case False
  then show ?thesis by (simp add: find_next_zero_bit_def find_next_bit_def)
qed

lemma find_next_bit_correct:
  assumes "sz \<le> 64 * length ws"
  shows "find_next_bit ws sz offset = Inr (if offset < sz then first_from (bit_at ws) offset (sz - offset) else sz)"
proof (cases "offset < sz")
  case True
  then show ?thesis
    using find_next_bit_eq [of "offset mod 64" "offset div 64" sz ws] assms by simp
next
  case False
  then show ?thesis by (simp add: find_next_bit_def)
qed

lemma first_from_cong_range:
  "(\<And>i. a \<le> i \<Longrightarrow> i < a + n \<Longrightarrow> P i = Q i) \<Longrightarrow> first_from P a n = first_from Q a n"
  by (induction n arbitrary: a) auto

lemma find_next_zero_bit_correct:
  assumes "sz \<le> 64 * length ws"
  shows "find_next_zero_bit ws sz offset =
     Inr (if offset < sz then first_from (\<lambda>n. \<not> bit_at ws n) offset (sz - offset) else sz)"
proof -
  have "first_from (bit_at (map NOT ws)) offset (sz - offset) = first_from (\<lambda>n. \<not> bit_at ws n) offset (sz - offset)"
  proof (rule first_from_cong_range)
    fix i assume "offset \<le> i" "i < offset + (sz - offset)"
    then have "i div 64 < length ws" using assms by (intro less_mult_imp_div_less) (auto simp: mult.commute)
    then show "bit_at (map NOT ws) i = (\<not> bit_at ws i)" by (simp add: bit_at_def bit_not_iff)
  qed
  then show ?thesis
    using find_next_bit_correct [of sz "map NOT ws" offset] assms by (simp add: find_next_zero_complement)
qed

lemma word_first_bit:
  assumes "w \<noteq> (0 :: u64)"
  shows "bit w (ctzl w)" "ctzl w < 64" "i < ctzl w \<Longrightarrow> \<not> bit w i"
proof -
  obtain j where "j < 64" "bit w j" using assms u64_zero_iff by blast
  then have "bit w (ctzl w) \<and> ctzl w < 64 \<and> (\<forall>i < ctzl w. \<not> bit w i)"
    unfolding ctzl_def by (cases rule: first_from_cases [of "bit w" 0 64]) auto
  then show "bit w (ctzl w)" "ctzl w < 64" "i < ctzl w \<Longrightarrow> \<not> bit w i" by auto
qed

lemma find_first_loop_eq:
  assumes "sz \<le> 64 * length ws" "64 * p \<le> sz"
  shows "find_first_loop ws p (64 * p) sz = Inr (first_from (bit_at ws) (64 * p) (sz - 64 * p))"
  using assms(2)
proof (induction "sz - 64 * p" arbitrary: p rule: less_induct)
  case less
  consider "sz = 64 * p" | (found) "64 * p < sz" "ws ! p \<noteq> 0" | (next_word) "64 * p + 64 \<le> sz" "ws ! p = 0"
    | (last_word) "64 * p < sz" "sz < 64 * p + 64" "ws ! p = 0"
    using less.prems by linarith
  then show ?case
  proof cases
    case 1
    then show ?thesis by (subst find_first_loop.simps) simp
  next
    case found
    let ?k = "64 * p + ctzl (ws ! p)"
    have none: "\<not> bit_at ws i" if "64 * p \<le> i" "i < ?k" for i
      using word_first_bit(2) [OF found(2)] word_first_bit(3) [OF found(2), of "i - 64 * p"] bit_at_word [of "i - 64 * p" ws p] that by auto
    have "bit_at ws ?k" using word_first_bit [OF found(2)] bit_at_word by simp
    then have "first_from (bit_at ws) (64 * p) (sz - 64 * p) = (if ?k < sz then ?k else sz)"
      using first_from_eq [of "bit_at ws" ?k "64 * p" "sz - 64 * p"] first_from_none [of "64 * p" "sz - 64 * p" "bit_at ws"] none found(1)
      by auto
    then show ?thesis
      using found assms(1) by (subst find_first_loop.simps) (simp add: res_simps Let_def)
  next
    case next_word
    have "sz - 64 * p - 64 = sz - 64 * (p + 1)" by simp
    then have "first_from (bit_at ws) (64 * p) (sz - 64 * p) = first_from (bit_at ws) (64 * (p + 1)) (sz - 64 * (p + 1))"
      using first_word_split [of "sz - 64 * p" "ws ! p" "bit_at ws" p] bit_at_word next_word by simp
    moreover have "find_first_loop ws (p + 1) (64 * (p + 1)) sz = Inr (first_from (bit_at ws) (64 * (p + 1)) (sz - 64 * (p + 1)))"
      by (rule less.hyps) (use next_word in auto)
    moreover have "find_first_loop ws p (64 * p) sz = find_first_loop ws (p + 1) (64 * p + 64) sz"
      using next_word assms(1) by (subst find_first_loop.simps) (simp add: res_simps)
    moreover have "64 * p + 64 = 64 * (p + 1)" by simp
    ultimately show ?thesis by simp
  next
    case last_word
    have "\<not> bit_at ws i" if "64 * p \<le> i" "i < 64 * p + (sz - 64 * p)" for i
      using bit_at_word [of "i - 64 * p" ws p] that last_word by simp
    then have "first_from (bit_at ws) (64 * p) (sz - 64 * p) = sz"
      using first_from_none [of "64 * p" "sz - 64 * p" "bit_at ws"] last_word by simp
    moreover have "find_first_loop ws (p + 1) (64 * p + 64) sz = Inr sz"
      using last_word by (subst find_first_loop.simps) simp
    ultimately show ?thesis
      using last_word assms(1) by (subst find_first_loop.simps) (simp add: res_simps)
  qed
qed

lemma find_first_bit_correct:
  "sz \<le> 64 * length ws \<Longrightarrow> find_first_bit ws sz = Inr (first_from (bit_at ws) 0 sz)"
  using find_first_loop_eq [of sz ws 0] by (simp add: find_first_bit_def)

section \<open>The last bit\<close>

lemma last_below_none: "(\<And>i. i < n \<Longrightarrow> \<not> P i) \<Longrightarrow> last_below P n = None"
  by (induction n) auto

lemma last_below_eq: "k < n \<Longrightarrow> P k \<Longrightarrow> (\<And>i. k < i \<Longrightarrow> i < n \<Longrightarrow> \<not> P i) \<Longrightarrow> last_below P n = Some k"
  by (induction n) (auto simp: less_Suc_eq)

lemma last_below_skip: "m \<le> n \<Longrightarrow> (\<And>i. m \<le> i \<Longrightarrow> i < n \<Longrightarrow> \<not> P i) \<Longrightarrow> last_below P n = last_below P m"
  by (induction n) (auto simp: le_Suc_eq)

lemma word_last_bit:
  assumes "w \<noteq> (0 :: u64)"
  shows "clzl w < 64 \<and> bit w (63 - clzl w) \<and> (\<forall>i. 63 - clzl w < i \<longrightarrow> i < 64 \<longrightarrow> \<not> bit w i)"
proof -
  let ?P = "\<lambda>i. bit w (63 - i)"
  obtain j where "j < 64" "bit w j" using assms u64_zero_iff by blast
  then have j: "63 - j < 64" "?P (63 - j)" by simp_all
  show ?thesis
  proof (cases rule: first_from_cases [of ?P 0 64, folded clzl_def])
    case none: 1
    then have False using none(2) [of "63 - j"] j by simp
    then show ?thesis ..
  next
    case found: 2
    have "\<not> bit w i" if "63 - clzl w < i" "i < 64" for i
    proof -
      have "63 - i < clzl w" "63 - (63 - i) = i" using that by arith+
      then show ?thesis using found(4) [of "63 - i"] by simp
    qed
    then show ?thesis using found(1,3) by auto
  qed
qed

text \<open>The place found in a word whose bits are the places from \<open>64 * p\<close> up to \<open>n\<close>.\<close>

lemma last_in_word:
  assumes "w \<noteq> 0" "64 * p < n" "n \<le> 64 * p + 64" "\<And>i. i < 64 \<Longrightarrow> bit w i \<longleftrightarrow> 64 * p + i < n \<and> P (64 * p + i)"
  shows "last_below P n = Some (p * 64 + 64 - 1 - clzl w)"
proof -
  let ?k = "63 - clzl w"
  have k: "?k < 64" "64 * p + ?k < n" "P (64 * p + ?k)" "p * 64 + 64 - 1 - clzl w = 64 * p + ?k"
    using word_last_bit [OF assms(1)] assms(4) [of ?k] by auto
  have "\<not> P i" if "64 * p + ?k < i" "i < n" for i
    using word_last_bit [OF assms(1)] assms(3) assms(4) [of "i - 64 * p"] that by auto
  then show ?thesis using last_below_eq [of "64 * p + ?k" n P] k by auto
qed

definition last_or :: "nat \<Rightarrow> (nat \<Rightarrow> bool) \<Rightarrow> nat \<Rightarrow> nat" where
  "last_or z P n = (case last_below P n of None \<Rightarrow> z | Some k \<Rightarrow> k)"

lemma find_last_words_eq:
  "p \<le> length ws \<Longrightarrow> find_last_words ws sz p = Inr (last_or sz (bit_at ws) (64 * p))"
proof (induction p)
  case 0
  then show ?case by (simp add: last_or_def)
next
  case (Suc p)
  show ?case
  proof (cases "ws ! p = 0")
    case True
    have "last_below (bit_at ws) (64 * Suc p) = last_below (bit_at ws) (64 * p)"
    proof (rule last_below_skip)
      fix i assume "64 * p \<le> i" "i < 64 * Suc p"
      then show "\<not> bit_at ws i" using bit_at_word [of "i - 64 * p" ws p] True by simp
    qed simp
    then show ?thesis using Suc True by (simp add: res_simps last_or_def)
  next
    case False
    have "last_below (bit_at ws) (64 * Suc p) = Some (p * 64 + 64 - 1 - clzl (ws ! p))"
      by (rule last_in_word [OF False]) (auto simp: bit_at_word)
    then show ?thesis using Suc False by (simp add: res_simps last_or_def)
  qed
qed

lemma find_last_bit_eq:
  assumes "o0 < 64" "64 * p + o0 \<le> 64 * length ws"
  shows "find_last_bit ws (64 * p + o0) = Inr (last_or (64 * p + o0) (bit_at ws) (64 * p + o0))"
proof -
  have split: "(64 * p + o0) div 64 = p" "(64 * p + o0) mod 64 = o0" using assms(1) by simp_all
  have words: "find_last_words ws z p = Inr (last_or z (bit_at ws) (64 * p))" for z
    using find_last_words_eq [of p ws] assms(2) by simp
  show ?thesis
  proof (cases "o0 = 0")
    case True
    then show ?thesis using words by (simp add: find_last_bit_def)
  next
    case False
    let ?w = "ws ! p AND drop_bit (64 - o0) (- 1)"
    have p: "p < length ws" using False assms(2) by linarith
    have w: "bit ?w i \<longleftrightarrow> 64 * p + i < 64 * p + o0 \<and> bit_at ws (64 * p + i)" if "i < 64" for i
      using that bit_ones_drop [OF that, of o0] assms(1) by (auto simp: bit_and_iff bit_at_word)
    show ?thesis
    proof (cases "?w = 0")
      case True
      have "last_below (bit_at ws) (64 * p + o0) = last_below (bit_at ws) (64 * p)"
      proof (rule last_below_skip)
        fix i assume "64 * p \<le> i" "i < 64 * p + o0"
        then show "\<not> bit_at ws i" using w [of "i - 64 * p"] True assms(1) by simp
      qed simp
      then show ?thesis
        using True False p words split unfolding find_last_bit_def by (simp add: res_simps last_or_def)
    next
      case found: False
      have "last_below (bit_at ws) (64 * p + o0) = Some (p * 64 + 64 - 1 - clzl ?w)"
        by (rule last_in_word [OF found _ _ w]) (use False assms(1) in auto)
      then show ?thesis
        using found False p split unfolding find_last_bit_def by (simp add: res_simps last_or_def)
    qed
  qed
qed

lemma find_last_bit_correct: "sz \<le> 64 * length ws \<Longrightarrow> find_last_bit ws sz = Inr (last_or sz (bit_at ws) sz)"
  using find_last_bit_eq [of "sz mod 64" "sz div 64" ws] by simp

text \<open>
  C34. The searches for the next one, the next zero, the first and the last one in a
  bitmap, which go word by word, in one case four words at a time, and mask the first
  and the last word, find what searches bit by bit find, for every start and size, and
  read no word outside the bitmap.
\<close>

theorem bit_searches_correct:
  assumes "sz \<le> 64 * length ws"
  shows "find_next_bit ws sz offset = Inr (if offset < sz then first_from (bit_at ws) offset (sz - offset) else sz) \<and>
     find_next_zero_bit ws sz offset =
       Inr (if offset < sz then first_from (\<lambda>n. \<not> bit_at ws n) offset (sz - offset) else sz) \<and>
     find_first_bit ws sz = Inr (first_from (bit_at ws) 0 sz) \<and>
     find_last_bit ws sz = Inr (last_or sz (bit_at ws) sz)"
  using assms by (simp add: find_next_bit_correct find_next_zero_bit_correct find_first_bit_correct find_last_bit_correct)

theorem bit_searches_correct_witness:
  "find_next_bit [0x10, 0, 0x8000] 150 5 = Inr 143 \<and> find_next_zero_bit [0x10, 0, 0x8000] 150 4 = Inr 5"
proof -
  have "find_next_bit [0x10, 0, 0x8000] 150 5 = Inr (first_from (bit_at [0x10, 0, 0x8000]) 5 145)"
    "find_next_zero_bit [0x10, 0, 0x8000] 150 4 = Inr (first_from (\<lambda>n. \<not> bit_at [0x10, 0, 0x8000] n) 4 146)"
    using bit_searches_correct [of 150 "[0x10, 0, 0x8000]" 5] bit_searches_correct [of 150 "[0x10, 0, 0x8000]" 4] by simp_all
  moreover have "first_from (bit_at [0x10, 0, 0x8000]) 5 145 = 143" by code_simp
  moreover have "first_from (\<lambda>n. \<not> bit_at [0x10, 0, 0x8000] n) 4 146 = 5" by code_simp
  ultimately show ?thesis by simp
qed

section \<open>Bit fields\<close>

lemma extract64_eq: "field_ok 64 start len \<Longrightarrow> extract64 v start len = Inr (take_bit (nat len) (drop_bit (nat start) v))"
  by (auto simp: extract64_def field_ok_def bit_simps intro!: bit_word_eqI)

lemma extract32_eq: "field_ok 32 start len \<Longrightarrow> extract32 v start len = Inr (take_bit (nat len) (drop_bit (nat start) v))"
  by (auto simp: extract32_def field_ok_def bit_simps intro!: bit_word_eqI)

lemma bit_deposit64:
  assumes "field_ok 64 start len"
  shows "\<exists>r. deposit64 v start len f = Inr r \<and>
    (\<forall>n < 64. bit r n = (if nat start \<le> n \<and> n < nat start + nat len then bit f (n - nat start) else bit v n))"
proof -
  let ?mask = "push_bit (nat start) (drop_bit (64 - nat len) (- 1)) :: u64"
  have "bit ?mask n \<longleftrightarrow> nat start \<le> n \<and> n < nat start + nat len" if "n < 64" for n
    using that assms by (auto simp: bit_simps field_ok_def)
  then show ?thesis
    using assms by (auto simp: deposit64_def Let_def bit_or_iff bit_and_iff bit_not_iff bit_push_bit_iff)
qed

text \<open>What is deposited in a field is extracted from it, and the other bits stay.\<close>

lemma deposit_extract64:
  assumes "field_ok 64 start len" "deposit64 v start len f = Inr r"
  shows "extract64 r start len = Inr (take_bit (nat len) f)"
proof -
  have r: "bit r n = bit f (n - nat start)" if "n < 64" "nat start \<le> n" "n < nat start + nat len" for n
    using bit_deposit64 [OF assms(1), of v f] assms(2) that by auto
  have "take_bit (nat len) (drop_bit (nat start) r) = take_bit (nat len) f"
    using r assms(1) by (intro bit_word_eqI) (auto simp: bit_simps field_ok_def)
  then show ?thesis by (simp add: extract64_eq [OF assms(1)])
qed

lemma signed_field:
  assumes "0 < l" "a + l \<le> 64"
  shows "signed_drop_bit (64 - l) (push_bit (64 - l - a) v) = (signed_take_bit (l - 1) (drop_bit a v) :: u64)"
proof (rule bit_word_eqI)
  fix n assume "n < LENGTH(64)"
  then show "bit (signed_drop_bit (64 - l) (push_bit (64 - l - a) v)) n = bit (signed_take_bit (l - 1) (drop_bit a v) :: u64) n"
    using assms by (cases "n < l")
      (auto simp: bit_signed_drop_bit_iff bit_signed_take_bit_iff bit_push_bit_iff bit_drop_bit_eq add.commute)
qed

lemma sextract64_eq:
  assumes "field_ok 64 start len"
  shows "sextract64 v start len = Inr (signed_take_bit (nat len - 1) (drop_bit (nat start) v))"
proof -
  have "0 < nat len" "nat start + nat len \<le> 64" using assms unfolding field_ok_def by arith+
  from signed_field [OF this, of v] show ?thesis using assms by (simp add: sextract64_def)
qed

section \<open>Shuffles\<close>

lemma less_32_octets:
  "n < (32 :: nat) \<Longrightarrow> n < 8 \<or> (\<exists>m < 8. n = m + 8) \<or> (\<exists>m < 8. n = m + 16) \<or> (\<exists>m < 8. n = m + 24)"
  by presburger

lemma less_8_cases: "m < (8 :: nat) \<Longrightarrow> m = 7 \<or> m = 6 \<or> m = 5 \<or> m = 4 \<or> m = 3 \<or> m = 2 \<or> m = 1 \<or> m = 0"
  by presburger

lemma less_32_induct: "n < 32 \<Longrightarrow> (\<And>m. m < 8 \<Longrightarrow> P m \<and> P (m + 8) \<and> P (m + 16) \<and> P (m + 24)) \<Longrightarrow> P (n :: nat)"
  using less_32_octets [of n] by blast

lemma half_shuffle32_bits: "n < 32 \<Longrightarrow> bit (half_shuffle32 x) n \<longleftrightarrow> even n \<and> bit x (n div 2)"
  by (erule less_32_induct, drule less_8_cases, elim disjE; simp only: half_shuffle32_def Let_def bit_or_iff bit_and_iff bit_push_bit_iff; simp)

lemma half_unshuffle32_bits: "n < 32 \<Longrightarrow> bit (half_unshuffle32 x) n \<longleftrightarrow> n < 16 \<and> bit x (2 * n)"
  by (erule less_32_induct, drule less_8_cases, elim disjE; simp only: half_unshuffle32_def Let_def bit_or_iff bit_and_iff bit_drop_bit_eq o_apply;
      simp add: numeral_2_eq_2)

lemma unshuffle_shuffle32: "half_unshuffle32 (half_shuffle32 x) = take_bit 16 x"
  by (rule bit_word_eqI) (auto simp: half_unshuffle32_bits half_shuffle32_bits bit_take_bit_iff)

end
