(* ===== verification/Goldfish_Tty.thy ===== *)
theory Goldfish_Tty
  imports Guest_Memory Bit_Ops
begin

text \<open>
  The goldfish serial port, \<^verbatim>\<open>hw/char/goldfish_tty.c\<close>: a buffer of 128 received bytes, which
  the guest takes into its memory, and a path from guest memory to a character device of
  the host.
\<close>

section \<open>State and registers\<close>

text \<open>
  Besides the fields of the C structure the state has the interrupt line, the guest memory
  and what was sent to the character device, where there is one.
\<close>

record tty_state =
  tty_cs :: bool
  tty_ptr :: u64
  ptr_len :: u32
  tty_ready :: u32
  tty_data :: "u8 list"
  data_count :: u32
  tty_irq :: bool
  tty_mem :: phys_mem
  tty_sent :: "u8 list"

text \<open>
  How much of a range of guest memory \<^verbatim>\<open>cpu_physical_memory_map\<close> maps is a parameter:
  a part of the range from its start, or nothing, which is the null pointer. An empty
  range is not mapped.
\<close>

type_synonym phys_map = "u64 \<Rightarrow> nat \<Rightarrow> nat option"

definition maps_part :: "phys_map \<Rightarrow> bool" where
  "maps_part maps \<longleftrightarrow> (\<forall>addr n l. maps addr n = Some l \<longrightarrow> l \<le> n)"

text \<open>The number of bytes to copy; a copy of bytes to or from the null pointer faults.\<close>

definition map_range :: "phys_map \<Rightarrow> u64 \<Rightarrow> nat \<Rightarrow> nat res" where
  "map_range maps addr n =
    (if n = 0 then Inr 0 else case maps addr n of None \<Rightarrow> Inl NullDeref | Some l \<Rightarrow> Inr l)"

definition goldfish_tty_read :: "tty_state \<Rightarrow> u64 \<Rightarrow> u64 res" where
  "goldfish_tty_read s offset =
    (if offset = 0x04 then Inr (ucast (data_count s))
     else if offset = 0x20 then Inr 1
     else Inl CpuAbort)"

definition tty_read_buffer :: "phys_map \<Rightarrow> tty_state \<Rightarrow> tty_state res" where
  "tty_read_buffer maps s =
    (if data_count s < ptr_len s then Inl CpuAbort
     else rbind (map_range maps (tty_ptr s) (unat (ptr_len s))) (\<lambda>l.
          rbind (memcpy_from (tty_data s) 0 l) (\<lambda>bs.
          let s = s\<lparr>tty_mem := cpu_physical_memory_write (tty_mem s) (tty_ptr s) bs\<rparr> in
          rbind (if l < unat (data_count s) then memmove 0 l (unat (data_count s) - l) (tty_data s) else Inr (tty_data s)) (\<lambda>data.
          let s = s\<lparr>tty_data := data, data_count := data_count s - of_nat l\<rparr> in
          Inr (if data_count s = 0 \<and> tty_ready s \<noteq> 0 then s\<lparr>tty_irq := False\<rparr> else s)))))"

definition tty_write_buffer :: "phys_map \<Rightarrow> tty_state \<Rightarrow> tty_state res" where
  "tty_write_buffer maps s =
    (if tty_cs s
     then rbind (map_range maps (tty_ptr s) (unat (ptr_len s))) (\<lambda>l.
          Inr (s\<lparr>tty_sent := tty_sent s @ cpu_physical_memory_read (tty_mem s) (tty_ptr s) l\<rparr>))
     else Inr s)"

definition goldfish_tty_write :: "phys_map \<Rightarrow> tty_state \<Rightarrow> u64 \<Rightarrow> u64 \<Rightarrow> tty_state res" where
  "goldfish_tty_write maps s offset val =
    (if offset = 0x00 then Inr (if tty_cs s then s\<lparr>tty_sent := tty_sent s @ [ucast val]\<rparr> else s)
     else if offset = 0x08 then
       if val = 0 then
         Inr (if tty_ready s \<noteq> 0
              then (if 0 < data_count s then s\<lparr>tty_irq := False\<rparr> else s)\<lparr>tty_ready := 0\<rparr>
              else s)
       else if val = 1 then
         Inr (if tty_ready s = 0
              then (if 0 < data_count s then s\<lparr>tty_irq := True\<rparr> else s)\<lparr>tty_ready := 1\<rparr>
              else s)
       else if val = 2 then tty_write_buffer maps s
       else if val = 3 then tty_read_buffer maps s
       else Inl CpuAbort
     else if offset = 0x10 then rbind (deposit64 (tty_ptr s) 0 32 val) (\<lambda>p. Inr (s\<lparr>tty_ptr := p\<rparr>))
     else if offset = 0x18 then rbind (deposit64 (tty_ptr s) 32 32 val) (\<lambda>p. Inr (s\<lparr>tty_ptr := p\<rparr>))
     else if offset = 0x14 then Inr (s\<lparr>ptr_len := ucast val\<rparr>)
     else Inl CpuAbort)"

section \<open>The character device\<close>

definition tty_can_receive :: "tty_state \<Rightarrow> nat" where
  "tty_can_receive s = 128 - unat (data_count s)"

definition tty_receive :: "tty_state \<Rightarrow> u8 list \<Rightarrow> tty_state res" where
  "tty_receive s buf =
     rbind (memcpy_to (tty_data s) (unat (data_count s)) buf) (\<lambda>data.
     let s = s\<lparr>tty_data := data, data_count := data_count s + of_nat (length buf)\<rparr> in
     Inr (if 0 < data_count s \<and> tty_ready s \<noteq> 0 then s\<lparr>tty_irq := True\<rparr> else s))"

text \<open>A device of the object model starts with all its fields zero.\<close>

definition goldfish_tty_realize :: "bool \<Rightarrow> phys_mem \<Rightarrow> tty_state" where
  "goldfish_tty_realize cs mem =
     \<lparr>tty_cs = cs, tty_ptr = 0, ptr_len = 0, tty_ready = 0, tty_data = replicate 128 0, data_count = 0,
      tty_irq = False, tty_mem = mem, tty_sent = []\<rparr>"

section \<open>The received bytes\<close>

definition tty_queue :: "tty_state \<Rightarrow> u8 list" where
  "tty_queue s = take (unat (data_count s)) (tty_data s)"

definition tty_wf :: "tty_state \<Rightarrow> bool" where
  "tty_wf s \<longleftrightarrow> length (tty_data s) = 128 \<and> unat (data_count s) \<le> 128 \<and>
     (tty_irq s \<longleftrightarrow> tty_ready s \<noteq> 0 \<and> 0 < data_count s)"

lemma word_pos_iff: "0 < (w :: u32) \<longleftrightarrow> unat w \<noteq> 0"
  by (simp add: word_less_nat_alt)

lemma tty_receive_correct:
  assumes "tty_wf s" "length buf \<le> tty_can_receive s"
  shows "\<exists>s'. tty_receive s buf = Inr s' \<and> tty_wf s' \<and> tty_queue s' = tty_queue s @ buf"
proof -
  let ?c = "unat (data_count s)" and ?d = "tty_data s"
  let ?data = "take ?c ?d @ buf @ drop (?c + length buf) ?d"
  have len: "?c + length buf \<le> 128" "length ?d = 128" using assms by (auto simp: tty_wf_def tty_can_receive_def)
  then have cnt: "unat (data_count s + of_nat (length buf)) = ?c + length buf"
    by (simp add: unat_plus_no_overflow unat_of_nat)
  have "tty_receive s buf =
      Inr (if 0 < data_count s + of_nat (length buf) \<and> tty_ready s \<noteq> 0
           then s\<lparr>tty_data := ?data, data_count := data_count s + of_nat (length buf), tty_irq := True\<rparr>
           else s\<lparr>tty_data := ?data, data_count := data_count s + of_nat (length buf)\<rparr>)"
    using len by (simp add: tty_receive_def memcpy_to_def Let_def)
  moreover have "length ?data = 128" using len by simp
  ultimately show ?thesis
    using assms(1) len cnt by (auto simp: tty_wf_def tty_queue_def word_pos_iff)
qed

text \<open>The bytes that a command to read took from the queue are those the guest finds in its buffer.\<close>

definition guest_finds :: "tty_state \<Rightarrow> tty_state \<Rightarrow> u8 list" where
  "guest_finds s s' = cpu_physical_memory_read (tty_mem s') (tty_ptr s) (unat (data_count s) - unat (data_count s'))"

lemma guest_finds_none: "data_count s' = data_count s \<Longrightarrow> guest_finds s s' = []"
  by (simp add: guest_finds_def cpu_physical_memory_read_def)

lemma tty_read_buffer_correct:
  assumes "tty_wf s" "maps_part maps"
  shows "case tty_read_buffer maps s of
     Inl e \<Rightarrow> e \<in> {CpuAbort, NullDeref}
   | Inr s' \<Rightarrow> tty_wf s' \<and> tty_queue s = guest_finds s s' @ tty_queue s'"
proof (cases "data_count s < ptr_len s \<or> map_range maps (tty_ptr s) (unat (ptr_len s)) = Inl NullDeref")
  case True
  then show ?thesis by (auto simp: tty_read_buffer_def)
next
  case False
  let ?c = "unat (data_count s)" and ?d = "tty_data s"
  obtain l where l: "map_range maps (tty_ptr s) (unat (ptr_len s)) = Inr l" "l \<le> unat (ptr_len s)"
    using False assms(2) by (auto simp: map_range_def maps_part_def split: option.splits if_splits)
  have lc: "l \<le> ?c" "?c \<le> 128" "length ?d = 128" using l(2) False assms(1) by (auto simp: tty_wf_def word_less_nat_alt)
  define data where "data = (if l < ?c then take (?c - l) (drop l ?d) @ drop (?c - l) ?d else ?d)"
  have small: "?c - l \<le> 128" using lc(2) by linarith
  have move: "(if l < ?c then memmove 0 l (?c - l) ?d else Inr ?d) = Inr data"
    using lc small by (simp add: memmove_def data_def)
  have data: "length data = 128" "take (?c - l) data = drop l (take ?c ?d)"
    using lc small by (auto simp: data_def drop_take)
  have cnt: "unat (data_count s - of_nat l) = ?c - l"
    using lc by (simp add: unat_minus_no_underflow unat_of_nat)
  define s1 where "s1 = s\<lparr>tty_mem := cpu_physical_memory_write (tty_mem s) (tty_ptr s) (take l ?d), tty_data := data,
    data_count := data_count s - of_nat l\<rparr>"
  define s2 where "s2 = (if data_count s1 = 0 \<and> tty_ready s1 \<noteq> 0 then s1\<lparr>tty_irq := False\<rparr> else s1)"
  have "tty_read_buffer maps s = Inr s2"
  proof -
    have "\<not> data_count s < ptr_len s" using False by simp
    moreover have "memcpy_from ?d 0 l = Inr (take l ?d)" using lc by (simp add: memcpy_from_def)
    ultimately show ?thesis
      by (simp add: tty_read_buffer_def l(1) Let_def move s1_def s2_def cong: if_cong split del: if_split)
  qed
  moreover have "tty_wf s2"
    using assms(1) data(1) cnt lc by (auto simp: tty_wf_def s2_def s1_def word_pos_iff unat_eq_0 [symmetric])
  moreover have "data_count s2 = data_count s1" "tty_mem s2 = tty_mem s1" "tty_data s2 = tty_data s1" by (simp_all add: s2_def)
  then have s2: "unat (data_count s2) = ?c - l" "tty_data s2 = data"
    "tty_mem s2 = cpu_physical_memory_write (tty_mem s) (tty_ptr s) (take l ?d)"
    using cnt by (simp_all add: s1_def)
  then have "guest_finds s s2 = take l ?d" using lc by (simp add: guest_finds_def)
  moreover have "tty_queue s2 = drop l (take ?c ?d)" using s2 data(2) by (simp add: tty_queue_def)
  ultimately show ?thesis using lc by (simp add: tty_queue_def) (metis append_take_drop_id min.absorb1 take_take)
qed

section \<open>Runs\<close>

text \<open>A character device asks how much the port can receive and passes no more.\<close>

datatype tty_op = TtyWrite u64 u64 | Input "u8 list"

fun tty_step :: "phys_map \<Rightarrow> tty_op \<Rightarrow> tty_state \<Rightarrow> (u8 list \<times> tty_state) res" where
  "tty_step maps (TtyWrite offset val) s = rbind (goldfish_tty_write maps s offset val) (\<lambda>s'. Inr ([], s'))"
| "tty_step maps (Input buf) s =
    (let buf = take (tty_can_receive s) buf in rbind (tty_receive s buf) (\<lambda>s'. Inr (buf, s')))"

text \<open>The bytes that came in, the bytes the guest took, and the state after a run.\<close>

fun tty_run :: "phys_map \<Rightarrow> tty_op list \<Rightarrow> tty_state \<Rightarrow> (u8 list \<times> u8 list \<times> tty_state) res" where
  "tty_run maps [] s = Inr ([], [], s)"
| "tty_run maps (x # xs) s =
     rbind (tty_step maps x s) (\<lambda>(came, s1).
     rbind (tty_run maps xs s1) (\<lambda>(rest, took, s2). Inr (came @ rest, guest_finds s s1 @ took, s2)))"

lemma tty_other_writes:
  assumes "tty_wf s" "goldfish_tty_write maps s offset val = Inr s'" "\<not> (offset = 0x08 \<and> val = 3)"
  shows "tty_wf s' \<and> tty_queue s' = tty_queue s \<and> data_count s' = data_count s"
  using assms
  by (auto simp: goldfish_tty_write_def tty_write_buffer_def tty_wf_def tty_queue_def rbind_eq_Inr_iff split: if_splits)

lemma goldfish_tty_write_faults:
  assumes "goldfish_tty_write maps s offset val = Inl e" "\<not> (offset = 0x08 \<and> val = 3)"
  shows "e \<in> {CpuAbort, NullDeref}"
proof -
  have "deposit64 p a 32 val \<noteq> Inl e" if "a = 0 \<or> a = 32" for p a
    using that by (auto simp: deposit64_def field_ok_def Let_def)
  then show ?thesis
    using assms by (auto simp: goldfish_tty_write_def tty_write_buffer_def map_range_def rbind_def split: if_splits sum.splits option.splits)
qed

lemma tty_step_correct:
  assumes "tty_wf s" "maps_part maps"
  shows "case tty_step maps x s of
     Inl e \<Rightarrow> e \<in> {CpuAbort, NullDeref}
   | Inr (came, s') \<Rightarrow> tty_wf s' \<and> tty_queue s @ came = guest_finds s s' @ tty_queue s'"
proof (cases x)
  case (TtyWrite offset val)
  show ?thesis
  proof (cases "offset = 0x08 \<and> val = 3")
    case True
    then show ?thesis
      using tty_read_buffer_correct [OF assms] TtyWrite by (auto simp: goldfish_tty_write_def split: sum.splits)
  next
    case False
    show ?thesis
    proof (cases "goldfish_tty_write maps s offset val")
      case (Inl e)
      then show ?thesis using goldfish_tty_write_faults [OF Inl False] TtyWrite by simp
    next
      case (Inr s')
      then show ?thesis using tty_other_writes [OF assms(1) Inr False] TtyWrite guest_finds_none [of s' s] by simp
    qed
  qed
next
  case (Input buf)
  let ?b = "take (tty_can_receive s) buf"
  obtain s' where "tty_receive s ?b = Inr s'" "tty_wf s'" "tty_queue s' = tty_queue s @ ?b"
    using tty_receive_correct [OF assms(1), of ?b] by auto
  moreover have "guest_finds s s' = []"
  proof -
    have "length (tty_queue s) \<le> length (tty_queue s')" using \<open>tty_queue s' = tty_queue s @ ?b\<close> by simp
    moreover have "length (tty_queue u) = unat (data_count u)" if "tty_wf u" for u using that by (simp add: tty_queue_def tty_wf_def)
    ultimately have "unat (data_count s) - unat (data_count s') = 0" using assms(1) \<open>tty_wf s'\<close> by simp
    then show ?thesis by (simp add: guest_finds_def cpu_physical_memory_read_def)
  qed
  ultimately show ?thesis using Input by (simp add: Let_def)
qed

text \<open>
  C40. The serial port stays well formed: whatever the guest writes to its registers and
  whatever arrives, no copy leaves its buffer of 128 bytes; a run ends in a state whose
  count is at most 128 and whose line is up exactly when the interrupt is enabled and
  bytes wait, or in one of the two ways a guest can stop it (a register or length it must
  not use, or a buffer that cannot be mapped). The bytes that arrived are the bytes the
  guest found in its buffers followed by those that wait, in order and without loss.
\<close>

theorem tty_well_formed:
  assumes "maps_part maps"
  shows "case tty_run maps xs (goldfish_tty_realize cs mem) of
     Inl e \<Rightarrow> e \<in> {CpuAbort, NullDeref}
   | Inr (came, took, s) \<Rightarrow>
       length (tty_data s) = 128 \<and> unat (data_count s) \<le> 128 \<and> (tty_irq s \<longleftrightarrow> tty_ready s \<noteq> 0 \<and> 0 < data_count s) \<and>
       came = took @ take (unat (data_count s)) (tty_data s)"
proof -
  have "case tty_run maps xs s of
      Inl e \<Rightarrow> e \<in> {CpuAbort, NullDeref} | Inr (came, took, s') \<Rightarrow> tty_wf s' \<and> tty_queue s @ came = took @ tty_queue s'"
    if "tty_wf s" for s
    using that
  proof (induction xs arbitrary: s)
    case (Cons x xs)
    show ?case
    proof (cases "tty_step maps x s")
      case (Inl e)
      then show ?thesis using tty_step_correct [OF Cons.prems assms, of x] by simp
    next
      case (Inr p)
      obtain came s1 where p: "p = (came, s1)" by fastforce
      have s1: "tty_wf s1" "tty_queue s @ came = guest_finds s s1 @ tty_queue s1"
        using tty_step_correct [OF Cons.prems assms, of x] Inr p by simp_all
      show ?thesis
      proof (cases "tty_run maps xs s1")
        case l: (Inl e)
        then show ?thesis using Cons.IH [OF s1(1)] Inr p by simp
      next
        case r: (Inr q)
        obtain rest took s2 where q: "q = (rest, took, s2)" by (cases q)
        have "tty_wf s2" "tty_queue s1 @ rest = took @ tty_queue s2" using Cons.IH [OF s1(1)] r q by simp_all
        moreover from this have "tty_queue s @ came @ rest = guest_finds s s1 @ took @ tty_queue s2"
          using s1(2) by (metis append.assoc)
        ultimately show ?thesis using Inr p r q by simp
      qed
    qed
  qed simp
  moreover have "tty_wf (goldfish_tty_realize cs mem)" "tty_queue (goldfish_tty_realize cs mem) = []"
    by (simp_all add: tty_wf_def tty_queue_def goldfish_tty_realize_def)
  ultimately show ?thesis by (fastforce simp: tty_wf_def tty_queue_def split: sum.splits)
qed

definition taking_two :: "tty_op list" where
  "taking_two = [TtyWrite 0x08 1, Input [1, 2, 3], TtyWrite 0x10 0x1000, TtyWrite 0x14 2, TtyWrite 0x08 3]"

theorem tty_well_formed_witness:
  "case tty_run (\<lambda>addr n. Some n) taking_two (goldfish_tty_realize True (\<lambda>_. 0)) of
     Inl e \<Rightarrow> e \<in> {CpuAbort, NullDeref}
   | Inr (came, took, s) \<Rightarrow>
       length (tty_data s) = 128 \<and> unat (data_count s) \<le> 128 \<and> (tty_irq s \<longleftrightarrow> tty_ready s \<noteq> 0 \<and> 0 < data_count s) \<and>
       came = took @ take (unat (data_count s)) (tty_data s)"
  by (rule tty_well_formed) (simp add: maps_part_def)

end
