(* ===== verification/Bitmaps.thy ===== *)
theory Bitmaps
  imports Bit_Ops
begin

text \<open>
  The bitmaps of \<^verbatim>\<open>util/bitmap.c\<close> and \<^verbatim>\<open>include/qemu/bitmap.h\<close>: arrays of 64-bit words of
  which the first \<open>nbits\<close> bits count. Every operation is related to the set of the bits
  it stands for. Sizes are far below the range of the type \<^verbatim>\<open>long\<close>.
\<close>

section \<open>Masks and loops over words\<close>

definition BITMAP_FIRST_WORD_MASK :: "nat \<Rightarrow> u64" where
  "BITMAP_FIRST_WORD_MASK start = push_bit (start mod BITS_PER_LONG) (- 1)"

definition BITMAP_LAST_WORD_MASK :: "nat \<Rightarrow> u64" where
  "BITMAP_LAST_WORD_MASK nbits = drop_bit ((BITS_PER_LONG - nbits mod BITS_PER_LONG) mod BITS_PER_LONG) (- 1)"

definition small_nbits :: "nat \<Rightarrow> bool" where
  "small_nbits nbits \<longleftrightarrow> nbits \<le> BITS_PER_LONG"

text \<open>\<^verbatim>\<open>for (k = ...; k < lim; ++k) if (!test(k)) return 0;\<close> with \<open>n\<close> passes to go.\<close>

fun words_loop :: "(nat \<Rightarrow> bool res) \<Rightarrow> nat \<Rightarrow> nat \<Rightarrow> bool res" where
  "words_loop test k 0 = Inr True"
| "words_loop test k (Suc n) = rbind (test k) (\<lambda>ok. if ok then words_loop test (k + 1) n else Inr False)"

text \<open>\<^verbatim>\<open>for (k = ...; k < nr; k++) result |= (dst[k] = f(k));\<close>\<close>

fun dst_loop :: "(nat \<Rightarrow> u64 res) \<Rightarrow> u64 list \<Rightarrow> u64 \<Rightarrow> nat \<Rightarrow> nat \<Rightarrow> (u64 \<times> u64 list) res" where
  "dst_loop f dst result k 0 = Inr (result, dst)"
| "dst_loop f dst result k (Suc n) =
     rbind (f k) (\<lambda>v. rbind (awrite dst k v) (\<lambda>dst. dst_loop f dst (result OR v) (k + 1) n))"

section \<open>Tests\<close>

definition slow_bitmap_empty :: "u64 list \<Rightarrow> nat \<Rightarrow> bool res" where
  "slow_bitmap_empty bitmap bits =
    (let lim = bits div BITS_PER_LONG in
     rbind (words_loop (\<lambda>k. rbind (aread bitmap k) (\<lambda>w. Inr (w = 0))) 0 lim) (\<lambda>ok.
       if \<not> ok then Inr False
       else if bits mod BITS_PER_LONG \<noteq> 0
       then rbind (aread bitmap lim) (\<lambda>w. Inr (w AND BITMAP_LAST_WORD_MASK bits = 0))
       else Inr True))"

definition slow_bitmap_full :: "u64 list \<Rightarrow> nat \<Rightarrow> bool res" where
  "slow_bitmap_full bitmap bits =
    (let lim = bits div BITS_PER_LONG in
     rbind (words_loop (\<lambda>k. rbind (aread bitmap k) (\<lambda>w. Inr (NOT w = 0))) 0 lim) (\<lambda>ok.
       if \<not> ok then Inr False
       else if bits mod BITS_PER_LONG \<noteq> 0
       then rbind (aread bitmap lim) (\<lambda>w. Inr (NOT w AND BITMAP_LAST_WORD_MASK bits = 0))
       else Inr True))"

definition slow_bitmap_equal :: "u64 list \<Rightarrow> u64 list \<Rightarrow> nat \<Rightarrow> bool res" where
  "slow_bitmap_equal bitmap1 bitmap2 bits =
    (let lim = bits div BITS_PER_LONG in
     rbind (words_loop (\<lambda>k. rbind (aread bitmap1 k) (\<lambda>v. rbind (aread bitmap2 k) (\<lambda>w. Inr (v = w)))) 0 lim) (\<lambda>ok.
       if \<not> ok then Inr False
       else if bits mod BITS_PER_LONG \<noteq> 0
       then rbind (aread bitmap1 lim) (\<lambda>v. rbind (aread bitmap2 lim) (\<lambda>w.
         Inr ((v XOR w) AND BITMAP_LAST_WORD_MASK bits = 0)))
       else Inr True))"

definition slow_bitmap_intersects :: "u64 list \<Rightarrow> u64 list \<Rightarrow> nat \<Rightarrow> bool res" where
  "slow_bitmap_intersects bitmap1 bitmap2 bits =
    (let lim = bits div BITS_PER_LONG in
     rbind (words_loop (\<lambda>k. rbind (aread bitmap1 k) (\<lambda>v. rbind (aread bitmap2 k) (\<lambda>w. Inr (v AND w = 0)))) 0 lim) (\<lambda>ok.
       if \<not> ok then Inr True
       else if bits mod BITS_PER_LONG \<noteq> 0
       then rbind (aread bitmap1 lim) (\<lambda>v. rbind (aread bitmap2 lim) (\<lambda>w.
         Inr ((v AND w) AND BITMAP_LAST_WORD_MASK bits \<noteq> 0)))
       else Inr False))"

section \<open>Combinations\<close>

definition slow_bitmap_complement :: "u64 list \<Rightarrow> u64 list \<Rightarrow> nat \<Rightarrow> u64 list res" where
  "slow_bitmap_complement dst src bits =
    (let lim = bits div BITS_PER_LONG in
     rbind (dst_loop (\<lambda>k. rbind (aread src k) (\<lambda>w. Inr (NOT w))) dst 0 0 lim) (\<lambda>(_, dst).
       if bits mod BITS_PER_LONG \<noteq> 0
       then rbind (aread src lim) (\<lambda>w. awrite dst lim (NOT w AND BITMAP_LAST_WORD_MASK bits))
       else Inr dst))"

definition combine :: "(u64 \<Rightarrow> u64 \<Rightarrow> u64) \<Rightarrow> u64 list \<Rightarrow> u64 list \<Rightarrow> u64 list \<Rightarrow> nat \<Rightarrow> (u64 \<times> u64 list) res" where
  "combine g dst bitmap1 bitmap2 bits =
     dst_loop (\<lambda>k. rbind (aread bitmap1 k) (\<lambda>v. rbind (aread bitmap2 k) (\<lambda>w. Inr (g v w)))) dst 0 0 (BITS_TO_LONGS bits)"

definition slow_bitmap_and :: "u64 list \<Rightarrow> u64 list \<Rightarrow> u64 list \<Rightarrow> nat \<Rightarrow> (bool \<times> u64 list) res" where
  "slow_bitmap_and dst bitmap1 bitmap2 bits =
     rbind (combine (AND) dst bitmap1 bitmap2 bits) (\<lambda>(result, dst). Inr (result \<noteq> 0, dst))"

definition slow_bitmap_or :: "u64 list \<Rightarrow> u64 list \<Rightarrow> u64 list \<Rightarrow> nat \<Rightarrow> u64 list res" where
  "slow_bitmap_or dst bitmap1 bitmap2 bits = rbind (combine (OR) dst bitmap1 bitmap2 bits) (\<lambda>(_, dst). Inr dst)"

definition slow_bitmap_xor :: "u64 list \<Rightarrow> u64 list \<Rightarrow> u64 list \<Rightarrow> nat \<Rightarrow> u64 list res" where
  "slow_bitmap_xor dst bitmap1 bitmap2 bits = rbind (combine (XOR) dst bitmap1 bitmap2 bits) (\<lambda>(_, dst). Inr dst)"

definition slow_bitmap_andnot :: "u64 list \<Rightarrow> u64 list \<Rightarrow> u64 list \<Rightarrow> nat \<Rightarrow> (bool \<times> u64 list) res" where
  "slow_bitmap_andnot dst bitmap1 bitmap2 bits =
     rbind (combine (\<lambda>v w. v AND NOT w) dst bitmap1 bitmap2 bits) (\<lambda>(result, dst). Inr (result \<noteq> 0, dst))"

section \<open>Counting\<close>

definition ctpopl :: "u64 \<Rightarrow> nat" where
  "ctpopl w = length (filter (bit w) [0..<64])"

fun count_loop :: "u64 list \<Rightarrow> nat \<Rightarrow> nat \<Rightarrow> nat \<Rightarrow> nat res" where
  "count_loop bitmap result k 0 = Inr result"
| "count_loop bitmap result k (Suc n) =
     rbind (aread bitmap k) (\<lambda>w. count_loop bitmap (result + ctpopl w) (k + 1) n)"

definition slow_bitmap_count_one :: "u64 list \<Rightarrow> nat \<Rightarrow> nat res" where
  "slow_bitmap_count_one bitmap nbits =
    (let lim = nbits div BITS_PER_LONG in
     rbind (count_loop bitmap 0 0 lim) (\<lambda>result.
       if nbits mod BITS_PER_LONG \<noteq> 0
       then rbind (aread bitmap lim) (\<lambda>w. Inr (result + ctpopl (w AND BITMAP_LAST_WORD_MASK nbits)))
       else Inr result))"

section \<open>Ranges\<close>

text \<open>
  The passes of the loop after the first have a whole word to go; the pass with the
  first, partial word stands before them.
\<close>

fun full_words :: "(u64 \<Rightarrow> u64) \<Rightarrow> u64 list \<Rightarrow> nat \<Rightarrow> nat \<Rightarrow> (u64 list \<times> nat \<times> nat) res" where
  "full_words f m p nr =
    (if 64 \<le> nr
     then rbind (aread m p) (\<lambda>w. rbind (awrite m p (f w)) (\<lambda>m. full_words f m (p + 1) (nr - 64)))
     else Inr (m, p, nr))"

declare full_words.simps [simp del]

definition last_word :: "(u64 \<Rightarrow> u64 \<Rightarrow> u64) \<Rightarrow> u64 list \<Rightarrow> nat \<Rightarrow> nat \<Rightarrow> u64 \<Rightarrow> nat \<Rightarrow> u64 list res" where
  "last_word f m p nr msk sz =
    (if nr \<noteq> 0
     then rbind (aread m p) (\<lambda>w. awrite m p (f w (msk AND BITMAP_LAST_WORD_MASK sz)))
     else Inr m)"

definition bitmap_set :: "u64 list \<Rightarrow> nat \<Rightarrow> nat \<Rightarrow> u64 list res" where
  "bitmap_set m start nr =
    (let p = BIT_WORD start; sz = start + nr; bits_to_set = BITS_PER_LONG - start mod BITS_PER_LONG;
         mask_to_set = BITMAP_FIRST_WORD_MASK start in
     if bits_to_set \<le> nr
     then rbind (aread m p) (\<lambda>w. rbind (awrite m p (w OR mask_to_set)) (\<lambda>m.
          rbind (full_words (\<lambda>w. w OR - 1) m (p + 1) (nr - bits_to_set)) (\<lambda>(m, p, nr).
          last_word (OR) m p nr (- 1) sz)))
     else last_word (OR) m p nr mask_to_set sz)"

definition bitmap_clear :: "u64 list \<Rightarrow> nat \<Rightarrow> nat \<Rightarrow> u64 list res" where
  "bitmap_clear m start nr =
    (let p = BIT_WORD start; sz = start + nr; bits_to_clear = BITS_PER_LONG - start mod BITS_PER_LONG;
         mask_to_clear = BITMAP_FIRST_WORD_MASK start in
     if bits_to_clear \<le> nr
     then rbind (aread m p) (\<lambda>w. rbind (awrite m p (w AND NOT mask_to_clear)) (\<lambda>m.
          rbind (full_words (\<lambda>w. w AND NOT (- 1)) m (p + 1) (nr - bits_to_clear)) (\<lambda>(m, p, nr).
          last_word (\<lambda>w msk. w AND NOT msk) m p nr (- 1) sz)))
     else last_word (\<lambda>w msk. w AND NOT msk) m p nr mask_to_clear sz)"

text \<open>The atomic operations act on one word at a time; nothing else changes the words here.\<close>

definition bitmap_set_atomic :: "u64 list \<Rightarrow> nat \<Rightarrow> nat \<Rightarrow> u64 list res" where
  "bitmap_set_atomic m start nr =
    (let p = BIT_WORD start; sz = start + nr; bits_to_set = BITS_PER_LONG - start mod BITS_PER_LONG;
         mask_to_set = BITMAP_FIRST_WORD_MASK start in
     rbind (if bits_to_set < nr
            then rbind (aread m p) (\<lambda>w. rbind (awrite m p (w OR mask_to_set)) (\<lambda>m.
                 Inr (m, p + 1, nr - bits_to_set, BITS_PER_LONG, - 1)))
            else Inr (m, p, nr, bits_to_set, mask_to_set)) (\<lambda>(m, p, nr, bits_to_set, mask_to_set).
     rbind (if bits_to_set = BITS_PER_LONG then full_words (\<lambda>w. - 1) m p nr else Inr (m, p, nr)) (\<lambda>(m, p, nr).
     last_word (OR) m p nr mask_to_set sz)))"

fun clear_full_words :: "u64 list \<Rightarrow> nat \<Rightarrow> nat \<Rightarrow> u64 \<Rightarrow> (u64 list \<times> nat \<times> nat \<times> u64) res" where
  "clear_full_words m p nr dirty =
    (if 64 \<le> nr
     then rbind (aread m p) (\<lambda>w.
       if w \<noteq> 0
       then rbind (awrite m p 0) (\<lambda>m. clear_full_words m (p + 1) (nr - 64) (dirty OR w))
       else clear_full_words m (p + 1) (nr - 64) dirty)
     else Inr (m, p, nr, dirty))"

declare clear_full_words.simps [simp del]

definition bitmap_test_and_clear_atomic :: "u64 list \<Rightarrow> nat \<Rightarrow> nat \<Rightarrow> (bool \<times> u64 list) res" where
  "bitmap_test_and_clear_atomic m start nr =
    (let p = BIT_WORD start; sz = start + nr; bits_to_clear = BITS_PER_LONG - start mod BITS_PER_LONG;
         mask_to_clear = BITMAP_FIRST_WORD_MASK start in
     rbind (if bits_to_clear < nr
            then rbind (aread m p) (\<lambda>w. rbind (awrite m p (w AND NOT mask_to_clear)) (\<lambda>m.
                 Inr (m, p + 1, nr - bits_to_clear, BITS_PER_LONG, - 1, w AND mask_to_clear)))
            else Inr (m, p, nr, bits_to_clear, mask_to_clear, 0)) (\<lambda>(m, p, nr, bits_to_clear, mask_to_clear, dirty).
     rbind (if bits_to_clear = BITS_PER_LONG then clear_full_words m p nr dirty else Inr (m, p, nr, dirty)) (\<lambda>(m, p, nr, dirty).
     if nr \<noteq> 0
     then let msk = mask_to_clear AND BITMAP_LAST_WORD_MASK sz in
          rbind (aread m p) (\<lambda>w. rbind (awrite m p (w AND NOT msk)) (\<lambda>m. Inr (dirty OR (w AND msk) \<noteq> 0, m)))
     else Inr (dirty \<noteq> 0, m))))"

fun copy_and_clear_loop :: "u64 list \<Rightarrow> u64 list \<Rightarrow> nat \<Rightarrow> nat \<Rightarrow> (u64 list \<times> u64 list) res" where
  "copy_and_clear_loop dst src k nr =
    (if 0 < nr
     then rbind (aread src k) (\<lambda>w. rbind (awrite src k 0) (\<lambda>src. rbind (awrite dst k w) (\<lambda>dst.
          copy_and_clear_loop dst src (k + 1) (nr - 64))))
     else Inr (dst, src))"

declare copy_and_clear_loop.simps [simp del]

definition bitmap_copy_and_clear_atomic :: "u64 list \<Rightarrow> u64 list \<Rightarrow> nat \<Rightarrow> (u64 list \<times> u64 list) res" where
  "bitmap_copy_and_clear_atomic dst src nr = copy_and_clear_loop dst src 0 nr"

section \<open>The inline operations\<close>

text \<open>Bitmaps of at most one word are handled directly.\<close>

definition bitmap_new :: "nat \<Rightarrow> u64 list" where
  "bitmap_new nbits = replicate (BITS_TO_LONGS nbits) 0"

definition bitmap_empty :: "u64 list \<Rightarrow> nat \<Rightarrow> bool res" where
  "bitmap_empty src nbits =
    (if small_nbits nbits then rbind (aread src 0) (\<lambda>w. Inr (w AND BITMAP_LAST_WORD_MASK nbits = 0))
     else slow_bitmap_empty src nbits)"

definition bitmap_full :: "u64 list \<Rightarrow> nat \<Rightarrow> bool res" where
  "bitmap_full src nbits =
    (if small_nbits nbits then rbind (aread src 0) (\<lambda>w. Inr (NOT w AND BITMAP_LAST_WORD_MASK nbits = 0))
     else slow_bitmap_full src nbits)"

definition bitmap_equal :: "u64 list \<Rightarrow> u64 list \<Rightarrow> nat \<Rightarrow> bool res" where
  "bitmap_equal src1 src2 nbits =
    (if small_nbits nbits
     then rbind (aread src1 0) (\<lambda>v. rbind (aread src2 0) (\<lambda>w. Inr ((v XOR w) AND BITMAP_LAST_WORD_MASK nbits = 0)))
     else slow_bitmap_equal src1 src2 nbits)"

definition bitmap_intersects :: "u64 list \<Rightarrow> u64 list \<Rightarrow> nat \<Rightarrow> bool res" where
  "bitmap_intersects src1 src2 nbits =
    (if small_nbits nbits
     then rbind (aread src1 0) (\<lambda>v. rbind (aread src2 0) (\<lambda>w. Inr ((v AND w) AND BITMAP_LAST_WORD_MASK nbits \<noteq> 0)))
     else slow_bitmap_intersects src1 src2 nbits)"

definition bitmap_and :: "u64 list \<Rightarrow> u64 list \<Rightarrow> u64 list \<Rightarrow> nat \<Rightarrow> (bool \<times> u64 list) res" where
  "bitmap_and dst src1 src2 nbits =
    (if small_nbits nbits
     then rbind (aread src1 0) (\<lambda>v. rbind (aread src2 0) (\<lambda>w. rbind (awrite dst 0 (v AND w)) (\<lambda>dst. Inr (v AND w \<noteq> 0, dst))))
     else slow_bitmap_and dst src1 src2 nbits)"

definition bitmap_or :: "u64 list \<Rightarrow> u64 list \<Rightarrow> u64 list \<Rightarrow> nat \<Rightarrow> u64 list res" where
  "bitmap_or dst src1 src2 nbits =
    (if small_nbits nbits
     then rbind (aread src1 0) (\<lambda>v. rbind (aread src2 0) (\<lambda>w. awrite dst 0 (v OR w)))
     else slow_bitmap_or dst src1 src2 nbits)"

definition bitmap_xor :: "u64 list \<Rightarrow> u64 list \<Rightarrow> u64 list \<Rightarrow> nat \<Rightarrow> u64 list res" where
  "bitmap_xor dst src1 src2 nbits =
    (if small_nbits nbits
     then rbind (aread src1 0) (\<lambda>v. rbind (aread src2 0) (\<lambda>w. awrite dst 0 (v XOR w)))
     else slow_bitmap_xor dst src1 src2 nbits)"

definition bitmap_andnot :: "u64 list \<Rightarrow> u64 list \<Rightarrow> u64 list \<Rightarrow> nat \<Rightarrow> (bool \<times> u64 list) res" where
  "bitmap_andnot dst src1 src2 nbits =
    (if small_nbits nbits
     then rbind (aread src1 0) (\<lambda>v. rbind (aread src2 0) (\<lambda>w.
          rbind (awrite dst 0 (v AND NOT w)) (\<lambda>dst. Inr (v AND NOT w \<noteq> 0, dst))))
     else slow_bitmap_andnot dst src1 src2 nbits)"

definition bitmap_complement :: "u64 list \<Rightarrow> u64 list \<Rightarrow> nat \<Rightarrow> u64 list res" where
  "bitmap_complement dst src nbits =
    (if small_nbits nbits
     then rbind (aread src 0) (\<lambda>w. awrite dst 0 (NOT w AND BITMAP_LAST_WORD_MASK nbits))
     else slow_bitmap_complement dst src nbits)"

definition bitmap_zero :: "u64 list \<Rightarrow> nat \<Rightarrow> u64 list res" where
  "bitmap_zero dst nbits =
    (if small_nbits nbits then awrite dst 0 0
     else memcpy_to dst 0 (replicate (BITS_TO_LONGS nbits) 0))"

text \<open>For no bits at all the index of the last word wraps around.\<close>

definition bitmap_fill :: "u64 list \<Rightarrow> nat \<Rightarrow> u64 list res" where
  "bitmap_fill dst nbits =
    (let nlongs = BITS_TO_LONGS nbits in
     rbind (if \<not> small_nbits nbits then memcpy_to dst 0 (replicate (nlongs - 1) (- 1)) else Inr dst) (\<lambda>dst.
     if nlongs = 0 then Inl OutOfBounds else awrite dst (nlongs - 1) (BITMAP_LAST_WORD_MASK nbits)))"

definition bitmap_copy :: "u64 list \<Rightarrow> u64 list \<Rightarrow> nat \<Rightarrow> u64 list res" where
  "bitmap_copy dst src nbits =
    (if small_nbits nbits then rbind (aread src 0) (awrite dst 0)
     else rbind (memcpy_from src 0 (BITS_TO_LONGS nbits)) (memcpy_to dst 0))"

text \<open>\<open>junk\<close> is what the reallocated memory holds behind the old words.\<close>

definition bitmap_zero_extend :: "(nat \<Rightarrow> u64) \<Rightarrow> u64 list \<Rightarrow> nat \<Rightarrow> nat \<Rightarrow> u64 list res" where
  "bitmap_zero_extend junk old old_nbits new_nbits =
    (let n = BITS_TO_LONGS new_nbits in
     bitmap_clear (take n old @ map junk [length old..<n]) old_nbits (new_nbits - old_nbits))"

definition bitmap_count_one :: "u64 list \<Rightarrow> nat \<Rightarrow> nat res" where
  "bitmap_count_one bitmap nbits =
    (if small_nbits nbits then rbind (aread bitmap 0) (\<lambda>w. Inr (ctpopl (w AND BITMAP_LAST_WORD_MASK nbits)))
     else slow_bitmap_count_one bitmap nbits)"

section \<open>Free areas\<close>

definition ALIGN_MASK :: "u64 \<Rightarrow> u64 \<Rightarrow> u64" where
  "ALIGN_MASK x msk = (x + msk) AND NOT msk"

text \<open>Each pass of the loop starts behind the bit that was in the way; \<open>n\<close> bounds the passes.\<close>

fun find_next_zero_area :: "nat \<Rightarrow> u64 list \<Rightarrow> u64 \<Rightarrow> u64 \<Rightarrow> u64 \<Rightarrow> u64 \<Rightarrow> u64 res" where
  "find_next_zero_area 0 m sz start nr align_mask = Inl Hang"
| "find_next_zero_area (Suc n) m sz start nr align_mask =
     rbind (find_next_zero_bit m (unat sz) (unat start)) (\<lambda>index.
     let index = ALIGN_MASK (of_nat index) align_mask; stop = index + nr in
     if sz < stop then Inr stop
     else rbind (find_next_bit m (unat stop) (unat index)) (\<lambda>i.
       if of_nat i < stop then find_next_zero_area n m sz (of_nat i + 1) nr align_mask
       else Inr index))"

definition bitmap_find_next_zero_area :: "u64 list \<Rightarrow> u64 \<Rightarrow> u64 \<Rightarrow> u64 \<Rightarrow> u64 \<Rightarrow> u64 res" where
  "bitmap_find_next_zero_area m sz start nr align_mask = find_next_zero_area (unat sz + 1) m sz start nr align_mask"

section \<open>Words and bits\<close>

lemma bit_last_mask: "i < 64 \<Longrightarrow> bit (BITMAP_LAST_WORD_MASK n) i \<longleftrightarrow> n mod 64 = 0 \<or> i < n mod 64"
  by (cases "n mod 64 = 0") (auto simp: BITMAP_LAST_WORD_MASK_def bit_simps)

lemma bit_first_mask: "i < 64 \<Longrightarrow> bit (BITMAP_FIRST_WORD_MASK n) i \<longleftrightarrow> n mod 64 \<le> i"
  by (auto simp: BITMAP_FIRST_WORD_MASK_def bit_simps)

text \<open>The places below \<open>bits\<close> are those of the whole words and those of the rest.\<close>

lemma all_places:
  "(\<forall>n < (bits :: nat). Q n) \<longleftrightarrow> (\<forall>k < bits div 64. \<forall>i < 64. Q (64 * k + i)) \<and> (\<forall>i < bits mod 64. Q (64 * (bits div 64) + i))"
proof -
  have bits: "bits = 64 * (bits div 64) + bits mod 64" by simp
  have "Q n" if "n < bits" and all: "\<forall>k < bits div 64. \<forall>i < 64. Q (64 * k + i)" "\<forall>i < bits mod 64. Q (64 * (bits div 64) + i)" for n
  proof (cases "n div 64 < bits div 64")
    case True
    moreover have "n mod 64 < 64" by simp
    ultimately have "Q (64 * (n div 64) + n mod 64)" using all(1) by blast
    then show ?thesis by simp
  next
    case False
    moreover have "n div 64 \<le> bits div 64" using \<open>n < bits\<close> by (simp add: div_le_mono)
    ultimately have "n div 64 = bits div 64" by simp
    then have n: "n = 64 * (bits div 64) + n mod 64" by (metis mult_div_mod_eq)
    then have "n mod 64 < bits mod 64" using \<open>n < bits\<close> bits by linarith
    then show ?thesis using all(2) n by metis
  qed
  moreover have "64 * k + i < bits" if "k < bits div 64" "i < 64" for k i
    using that bits by linarith
  moreover have "64 * (bits div 64) + i < bits" if "i < bits mod 64" for i
    using that bits by linarith
  ultimately show ?thesis by blast
qed

text \<open>A test of the words whose bits are the places where \<open>Q\<close> fails.\<close>

lemma word_tests:
  assumes "\<And>k i. i < 64 \<Longrightarrow> 64 * k + i < bits \<Longrightarrow> bit (h k) i \<longleftrightarrow> \<not> Q (64 * k + i)"
  shows "(\<forall>k < bits div 64. h k = 0) \<and> (bits mod 64 \<noteq> 0 \<longrightarrow> h (bits div 64) AND BITMAP_LAST_WORD_MASK bits = 0) \<longleftrightarrow>
     (\<forall>n < bits. Q n)"
proof -
  have bits: "bits = 64 * (bits div 64) + bits mod 64" by simp
  have "h k = 0 \<longleftrightarrow> (\<forall>i < 64. Q (64 * k + i))" if "k < bits div 64" for k
  proof -
    have "64 * k + i < bits" if "i < 64" for i using that \<open>k < bits div 64\<close> bits by linarith
    then show ?thesis using assms by (auto simp: u64_zero_iff)
  qed
  moreover have "h (bits div 64) AND BITMAP_LAST_WORD_MASK bits = 0 \<longleftrightarrow> (\<forall>i < bits mod 64. Q (64 * (bits div 64) + i))"
    if "bits mod 64 \<noteq> 0"
  proof -
    have "64 * (bits div 64) + i < bits" "i < 64" if "i < bits mod 64" for i
      using that bits mod_less_divisor [of 64 bits] by linarith+
    then have "bit (h (bits div 64)) i \<longleftrightarrow> \<not> Q (64 * (bits div 64) + i)" "i < 64" if "i < bits mod 64" for i
      using assms that by blast+
    moreover have "h (bits div 64) AND BITMAP_LAST_WORD_MASK bits = 0 \<longleftrightarrow> (\<forall>i < 64. i < bits mod 64 \<longrightarrow> \<not> bit (h (bits div 64)) i)"
    proof -
      have "\<forall>i < 64. bit (BITMAP_LAST_WORD_MASK bits) i \<longleftrightarrow> i < bits mod 64" using bit_last_mask [of _ bits] that by simp
      then show ?thesis unfolding u64_zero_iff bit_and_iff by blast
    qed
    ultimately show ?thesis by blast
  qed
  ultimately show ?thesis using all_places [of bits Q] by (cases "bits mod 64 = 0") auto
qed

lemma words_loop_eq:
  "(\<And>j. j < n \<Longrightarrow> test (k + j) = Inr (t (k + j))) \<Longrightarrow> words_loop test k n = Inr (\<forall>j < n. t (k + j))"
proof (induction n arbitrary: k)
  case (Suc n)
  show ?case using Suc.IH [of "k + 1"] Suc.prems [of 0] Suc.prems [of "Suc j" for j] by (simp add: All_less_Suc2)
qed simp

lemma div_less_length:
  fixes bits :: nat
  shows "bits \<le> 64 * length m \<Longrightarrow> k < bits div 64 \<Longrightarrow> k < length (m :: u64 list)"
  "bits \<le> 64 * length m \<Longrightarrow> bits mod 64 \<noteq> 0 \<Longrightarrow> bits div 64 < length m"
proof -
  have bits: "bits = 64 * (bits div 64) + bits mod 64" by simp
  show "bits \<le> 64 * length m \<Longrightarrow> k < bits div 64 \<Longrightarrow> k < length m" using bits by linarith
  show "bits \<le> 64 * length m \<Longrightarrow> bits mod 64 \<noteq> 0 \<Longrightarrow> bits div 64 < length m" using bits by linarith
qed

text \<open>The shape that the tests share: the words before the last, then the masked rest.\<close>

lemma masked_test:
  assumes "\<And>k. k < bits div 64 \<Longrightarrow> test k = Inr (h k = 0)"
    and "bits mod 64 \<noteq> 0 \<Longrightarrow> rest = Inr (h (bits div 64) AND BITMAP_LAST_WORD_MASK bits = 0)"
    and "\<And>k i. i < 64 \<Longrightarrow> 64 * k + i < bits \<Longrightarrow> bit (h k) i \<longleftrightarrow> \<not> Q (64 * k + i)"
  shows "rbind (words_loop test 0 (bits div 64)) (\<lambda>ok. if \<not> ok then Inr False else if bits mod 64 \<noteq> 0 then rest else Inr True) =
     Inr (\<forall>n < bits. Q n)"
proof -
  have "words_loop test 0 (bits div 64) = Inr (\<forall>k < bits div 64. h k = 0)"
    using words_loop_eq [of "bits div 64" test 0 "\<lambda>k. h k = 0"] assms(1) by simp
  moreover have "(\<forall>k < bits div 64. h k = 0) \<and> (bits mod 64 \<noteq> 0 \<longrightarrow> h (bits div 64) AND BITMAP_LAST_WORD_MASK bits = 0) \<longleftrightarrow>
      (\<forall>n < bits. Q n)"
    by (rule word_tests) (rule assms(3))
  ultimately show ?thesis using assms(2) by (cases "bits mod 64 \<noteq> 0"; cases "\<forall>k < bits div 64. h k = 0") simp_all
qed

lemma xor_zero_iff: "v XOR w = 0 \<longleftrightarrow> v = (w :: u64)"
  by (auto simp: u64_zero_iff bit_xor_iff intro: bit_word_eqI)

lemma slow_bitmap_empty_correct:
  assumes "bits \<le> 64 * length m"
  shows "slow_bitmap_empty m bits = Inr (\<forall>n < bits. \<not> bit_at m n)"
  unfolding slow_bitmap_empty_def Let_def
  by (rule masked_test [where h = "\<lambda>k. m ! k"]) (simp_all add: res_simps div_less_length [OF assms] bit_at_word)

lemma slow_bitmap_full_correct:
  assumes "bits \<le> 64 * length m"
  shows "slow_bitmap_full m bits = Inr (\<forall>n < bits. bit_at m n)"
  unfolding slow_bitmap_full_def Let_def
  by (rule masked_test [where h = "\<lambda>k. NOT (m ! k)"]) (simp_all add: res_simps div_less_length [OF assms] bit_at_word bit_not_iff)

lemma slow_bitmap_equal_correct:
  assumes "bits \<le> 64 * length m1" "bits \<le> 64 * length m2"
  shows "slow_bitmap_equal m1 m2 bits = Inr (\<forall>n < bits. bit_at m1 n = bit_at m2 n)"
  unfolding slow_bitmap_equal_def Let_def
  by (rule masked_test [where h = "\<lambda>k. m1 ! k XOR m2 ! k"])
    (simp_all add: res_simps div_less_length [OF assms(1)] div_less_length [OF assms(2)] bit_at_word bit_xor_iff xor_zero_iff)

lemma slow_bitmap_intersects_correct:
  assumes "bits \<le> 64 * length m1" "bits \<le> 64 * length m2"
  shows "slow_bitmap_intersects m1 m2 bits = Inr (\<exists>n < bits. bit_at m1 n \<and> bit_at m2 n)"
proof -
  let ?test = "\<lambda>k. rbind (aread m1 k) (\<lambda>v. rbind (aread m2 k) (\<lambda>w. Inr (v AND w = 0)))"
  let ?rest = "rbind (aread m1 (bits div 64)) (\<lambda>v. rbind (aread m2 (bits div 64)) (\<lambda>w. Inr ((v AND w) AND BITMAP_LAST_WORD_MASK bits = 0)))"
  have "rbind (words_loop ?test 0 (bits div 64)) (\<lambda>ok. if \<not> ok then Inr False else if bits mod 64 \<noteq> 0 then ?rest else Inr True) =
     Inr (\<forall>n < bits. \<not> (bit_at m1 n \<and> bit_at m2 n))"
    by (rule masked_test [where h = "\<lambda>k. m1 ! k AND m2 ! k"])
      (simp_all add: res_simps div_less_length [OF assms(1)] div_less_length [OF assms(2)] bit_at_word bit_and_iff)
  then show ?thesis
    unfolding slow_bitmap_intersects_def Let_def
    by (cases "words_loop ?test 0 (bits div 64)"; cases "bits mod 64 \<noteq> 0")
      (auto simp: rbind_eq_Inr_iff res_simps div_less_length [OF assms(1)] div_less_length [OF assms(2)] split: if_splits)
qed

section \<open>Setting and clearing ranges\<close>

text \<open>The bits from \<open>lo\<close> up to \<open>hi\<close> became \<open>b\<close>, the others kept their value.\<close>

definition ranged :: "bool \<Rightarrow> nat \<Rightarrow> nat \<Rightarrow> u64 list \<Rightarrow> u64 list \<Rightarrow> bool" where
  "ranged b lo hi m m' \<longleftrightarrow> length m' = length m \<and> (\<forall>n. bit_at m' n = (if lo \<le> n \<and> n < hi then b else bit_at m n))"

lemma ranged_empty [simp]: "hi \<le> lo \<Longrightarrow> ranged b lo hi m m"
  by (auto simp: ranged_def)

lemma ranged_trans: "ranged b lo mid m m1 \<Longrightarrow> ranged b mid hi m1 m2 \<Longrightarrow> lo \<le> mid \<Longrightarrow> mid \<le> hi \<Longrightarrow> ranged b lo hi m m2"
  by (auto simp: ranged_def)

lemma ranged_word:
  assumes "p < length m" "64 * p \<le> lo" "hi \<le> 64 * p + 64"
    and "\<And>i. i < 64 \<Longrightarrow> bit v i = (if lo \<le> 64 * p + i \<and> 64 * p + i < hi then b else bit (m ! p) i)"
  shows "ranged b lo hi m (m[p := v])"
proof -
  have "bit_at (m[p := v]) n = (if lo \<le> n \<and> n < hi then b else bit_at m n)" for n
  proof (cases "n div 64 = p")
    case True
    then have "n = 64 * p + n mod 64" by auto
    then show ?thesis using assms(1) assms(4) [of "n mod 64"] True by (simp add: bit_at_def)
  next
    case False
    have "n = 64 * (n div 64) + n mod 64" "n mod 64 < 64" by simp_all
    then have "\<not> (lo \<le> n \<and> n < hi)" using assms(2,3) False by linarith
    then show ?thesis using False by (auto simp: bit_at_def)
  qed
  then show ?thesis by (simp add: ranged_def)
qed

text \<open>The two operations on a word and a mask.\<close>

definition mask_op :: "bool \<Rightarrow> (u64 \<Rightarrow> u64 \<Rightarrow> u64) \<Rightarrow> bool" where
  "mask_op b f \<longleftrightarrow> (\<forall>w msk i. i < 64 \<longrightarrow> bit (f w msk) i = (if bit msk i then b else bit w i))"

lemma mask_op_or: "mask_op True (OR)"
  by (auto simp: mask_op_def bit_or_iff)

lemma mask_op_andnot: "mask_op False (\<lambda>w msk. w AND NOT msk)"
  by (auto simp: mask_op_def bit_and_iff bit_not_iff)

lemma full_words_ranged:
  assumes "\<And>w i. i < 64 \<Longrightarrow> bit (f w) i = b" "64 * p + nr \<le> 64 * length m"
  shows "\<exists>m'. full_words f m p nr = Inr (m', p + nr div 64, nr mod 64) \<and> ranged b (64 * p) (64 * (p + nr div 64)) m m'"
  using assms(2)
proof (induction nr arbitrary: m p rule: less_induct)
  case (less nr)
  show ?case
  proof (cases "64 \<le> nr")
    case True
    let ?m = "m[p := f (m ! p)]"
    obtain k where k: "nr = k + 64" using True by (metis le_add_diff_inverse2)
    have "p < length m" using less.prems k by linarith
    obtain m' where m': "full_words f ?m (p + 1) k = Inr (m', p + 1 + k div 64, k mod 64)"
      "ranged b (64 * (p + 1)) (64 * (p + 1 + k div 64)) ?m m'"
      using less.IH [of k "p + 1" ?m] less.prems k by auto
    have "ranged b (64 * p) (64 * (p + 1)) m ?m"
      using \<open>p < length m\<close> assms(1) by (intro ranged_word) auto
    moreover have div: "nr div 64 = 1 + k div 64" "nr mod 64 = k mod 64" using k by simp_all
    ultimately have "ranged b (64 * p) (64 * (p + nr div 64)) m m'"
      using ranged_trans [OF _ m'(2)] by (simp add: add.assoc)
    moreover have "full_words f m p nr = Inr (m', p + nr div 64, nr mod 64)"
      using m'(1) \<open>p < length m\<close> True div k by (subst full_words.simps) (simp add: res_simps)
    ultimately show ?thesis by blast
  next
    case False
    then show ?thesis by (subst full_words.simps) simp
  qed
qed

lemma last_mask_upto: "64 * p < sz \<Longrightarrow> sz \<le> 64 * p + 64 \<Longrightarrow> i < 64 \<Longrightarrow> bit (BITMAP_LAST_WORD_MASK sz) i \<longleftrightarrow> 64 * p + i < sz"
proof -
  assume sz: "64 * p < sz" "sz \<le> 64 * p + 64" and i: "i < 64"
  then obtain e where e: "sz = 64 * p + e" "0 < e" "e \<le> 64" using less_imp_add_positive by (metis nat_add_left_cancel_le)
  then show ?thesis using bit_last_mask [OF i, of sz] i by (cases "e = 64") auto
qed

lemma last_word_ranged:
  assumes "mask_op b f" "64 * p \<le> lo" "lo + nr = sz" "sz \<le> 64 * p + 64" "sz \<le> 64 * length m"
    and "\<And>i. i < 64 \<Longrightarrow> bit msk i \<longleftrightarrow> lo \<le> 64 * p + i"
  shows "\<exists>m'. last_word f m p nr msk sz = Inr m' \<and> ranged b lo sz m m'"
proof (cases "nr = 0")
  case True
  then show ?thesis using assms(3) by (simp add: last_word_def)
next
  case False
  have p: "p < length m" using assms(2,3,5) False by linarith
  have "bit (msk AND BITMAP_LAST_WORD_MASK sz) i \<longleftrightarrow> lo \<le> 64 * p + i \<and> 64 * p + i < sz" if "i < 64" for i
    using that last_mask_upto [of p sz i] assms(2-4,6) False by (simp add: bit_and_iff)
  then have "ranged b lo sz m (m[p := f (m ! p) (msk AND BITMAP_LAST_WORD_MASK sz)])"
    using assms(1,2,4) p by (intro ranged_word) (simp_all add: mask_op_def)
  then show ?thesis using p False by (simp add: last_word_def res_simps)
qed

text \<open>Whole words from \<open>q\<close> on, then the rest.\<close>

lemma rest_ranged:
  assumes "mask_op b f" "\<And>w i. i < 64 \<Longrightarrow> bit (g w) i = b" "64 * q + nr = sz" "sz \<le> 64 * length m"
  shows "\<exists>m'. rbind (full_words g m q nr) (\<lambda>(m, p, nr). last_word f m p nr (- 1) sz) = Inr m' \<and> ranged b (64 * q) sz m m'"
proof -
  obtain m1 where m1: "full_words g m q nr = Inr (m1, q + nr div 64, nr mod 64)"
    "ranged b (64 * q) (64 * (q + nr div 64)) m m1"
    using full_words_ranged [of g b q nr m] assms(2-4) by auto
  have nr: "nr = 64 * (nr div 64) + nr mod 64" "nr mod 64 < 64" by simp_all
  have "length m1 = length m" using m1(2) by (simp add: ranged_def)
  then obtain m2 where m2: "last_word f m1 (q + nr div 64) (nr mod 64) (- 1) sz = Inr m2"
    "ranged b (64 * (q + nr div 64)) sz m1 m2"
    using last_word_ranged [OF assms(1), of "q + nr div 64" "64 * (q + nr div 64)" "nr mod 64" sz m1 "- 1"] assms(3,4) nr
    by auto
  have "ranged b (64 * q) sz m m2" using ranged_trans [OF m1(2) m2(2)] assms(3) nr by simp
  then show ?thesis using m1(1) m2(1) by simp
qed

lemma first_mask_from: "i < 64 \<Longrightarrow> bit (BITMAP_FIRST_WORD_MASK start) i \<longleftrightarrow> start \<le> 64 * (start div 64) + i"
proof -
  assume "i < 64"
  then have "bit (BITMAP_FIRST_WORD_MASK start) i \<longleftrightarrow> start mod 64 \<le> i" by (rule bit_first_mask)
  moreover have "start = 64 * (start div 64) + start mod 64" by simp
  ultimately show ?thesis by linarith
qed

lemma first_word_ranged:
  assumes "mask_op b f" "start div 64 < length m"
  shows "ranged b start (64 * (start div 64 + 1)) m (m[start div 64 := f (m ! (start div 64)) (BITMAP_FIRST_WORD_MASK start)])"
  using assms(2)
proof (rule ranged_word)
  fix i :: nat assume "i < 64"
  then show "bit (f (m ! (start div 64)) (BITMAP_FIRST_WORD_MASK start)) i =
      (if start \<le> 64 * (start div 64) + i \<and> 64 * (start div 64) + i < 64 * (start div 64 + 1) then b else bit (m ! (start div 64)) i)"
    using assms(1) first_mask_from [of i start] by (simp add: mask_op_def)
qed simp_all

text \<open>A range within one word, and one that goes on in the next.\<close>

lemma range_in_word:
  fixes start :: nat
  assumes "nr \<le> 64 - start mod 64"
  shows "64 * (start div 64) \<le> start" "start + nr \<le> 64 * (start div 64) + 64"
proof -
  have "start = 64 * (start div 64) + start mod 64" "start mod 64 < 64" by simp_all
  then show "64 * (start div 64) \<le> start" "start + nr \<le> 64 * (start div 64) + 64" using assms by linarith+
qed

lemma range_past_word:
  fixes start :: nat
  assumes "64 - start mod 64 \<le> nr"
  shows "64 * (start div 64 + 1) + (nr - (64 - start mod 64)) = start + nr" "64 * (start div 64) + 64 \<le> start + nr"
proof -
  have "64 * (q + 1) + (nr - (64 - o0)) = start + nr" if "start = 64 * q + o0" "o0 < 64" "64 - o0 \<le> nr" for q o0
    using that by simp
  from this [of "start div 64" "start mod 64"] assms
  show "64 * (start div 64 + 1) + (nr - (64 - start mod 64)) = start + nr" by simp
  then have "64 * (start div 64 + 1) \<le> start + nr" by (metis le_add1)
  then show "64 * (start div 64) + 64 \<le> start + nr" by simp
qed

lemma short_ranged:
  assumes "mask_op b f" "nr \<le> 64 - start mod 64" "start + nr \<le> 64 * length m"
  shows "\<exists>m'. last_word f m (start div 64) nr (BITMAP_FIRST_WORD_MASK start) (start + nr) = Inr m' \<and>
     ranged b start (start + nr) m m'"
  by (rule last_word_ranged [OF assms(1)]) (use range_in_word [OF assms(2)] assms(3) first_mask_from in auto)

lemma long_ranged:
  assumes "mask_op b f" "\<And>w i. i < 64 \<Longrightarrow> bit (g w) i = b" "64 - start mod 64 \<le> nr" "start + nr \<le> 64 * length m" "nr' = nr"
  shows "start div 64 < length m"
    and "\<exists>m'. rbind (full_words g (m[start div 64 := f (m ! (start div 64)) (BITMAP_FIRST_WORD_MASK start)])
          (start div 64 + 1) (nr - (64 - start mod 64))) (\<lambda>(m, p, nr). last_word f m p nr (- 1) (start + nr')) = Inr m' \<and>
       ranged b start (start + nr') m m'"
proof -
  let ?m = "m[start div 64 := f (m ! (start div 64)) (BITMAP_FIRST_WORD_MASK start)]"
  have start: "start = 64 * (start div 64) + start mod 64" "start mod 64 < 64" by simp_all
  show len: "start div 64 < length m" using start assms(3,4) by linarith
  have sz: "64 * (start div 64 + 1) + (nr - (64 - start mod 64)) = start + nr"
    by (rule range_past_word) (rule assms(3))
  obtain m' where m': "rbind (full_words g ?m (start div 64 + 1) (nr - (64 - start mod 64)))
      (\<lambda>(m, p, nr). last_word f m p nr (- 1) (start + nr')) = Inr m'" "ranged b (64 * (start div 64 + 1)) (start + nr) ?m m'"
    using rest_ranged [where g = g and m = ?m, OF assms(1,2) sz] assms(4,5) by auto
  have "start \<le> 64 * (start div 64 + 1)" by presburger
  moreover have "64 * (start div 64 + 1) \<le> start + nr" using sz by (metis le_add1)
  ultimately have "ranged b start (start + nr) m m'"
    by (rule ranged_trans [OF first_word_ranged [OF assms(1) len] m'(2)])
  then show "\<exists>m'. rbind (full_words g ?m (start div 64 + 1) (nr - (64 - start mod 64)))
      (\<lambda>(m, p, nr). last_word f m p nr (- 1) (start + nr')) = Inr m' \<and> ranged b start (start + nr') m m'"
    using m'(1) assms(5) by blast
qed

lemma bitmap_set_ranged:
  assumes "start + nr \<le> 64 * length m"
  shows "\<exists>m'. bitmap_set m start nr = Inr m' \<and> ranged True start (start + nr) m m'"
proof (cases "64 - start mod 64 \<le> nr")
  case True
  have "bit (w OR - 1 :: u64) i = True" if "i < 64" for w i using that by (simp add: bit_or_iff)
  from long_ranged [where g = "\<lambda>w. w OR - 1", OF mask_op_or this True assms refl] show ?thesis
    using True by (simp add: bitmap_set_def BIT_WORD_def Let_def res_simps)
next
  case False
  then show ?thesis
    using short_ranged [OF mask_op_or _ assms] by (simp add: bitmap_set_def BIT_WORD_def Let_def)
qed

lemma bitmap_clear_ranged:
  assumes "start + nr \<le> 64 * length m"
  shows "\<exists>m'. bitmap_clear m start nr = Inr m' \<and> ranged False start (start + nr) m m'"
proof (cases "64 - start mod 64 \<le> nr")
  case True
  have "bit (w AND NOT (- 1) :: u64) i = False" for w i by simp
  from long_ranged [where g = "\<lambda>w. w AND NOT (- 1)", OF mask_op_andnot this True assms refl] show ?thesis
    using True by (simp add: bitmap_clear_def BIT_WORD_def Let_def res_simps)
next
  case False
  then show ?thesis
    using short_ranged [OF mask_op_andnot _ assms] by (simp add: bitmap_clear_def BIT_WORD_def Let_def)
qed

lemma bitmap_set_atomic_ranged:
  assumes "start + nr \<le> 64 * length m"
  shows "\<exists>m'. bitmap_set_atomic m start nr = Inr m' \<and> ranged True start (start + nr) m m'"
proof (cases "64 - start mod 64 < nr")
  case True
  have ones: "bit (- 1 :: u64) i = True" if "i < 64" for i using that by simp
  from long_ranged [where g = "\<lambda>w. - 1", OF mask_op_or ones _ assms refl] show ?thesis
    using True by (simp add: bitmap_set_atomic_def BIT_WORD_def Let_def res_simps)
next
  case short: False
  show ?thesis
  proof (cases "start mod 64 = 0")
    case True
    then have start: "64 * (start div 64) = start" by auto
    have "BITMAP_FIRST_WORD_MASK start = - 1" using True by (simp add: BITMAP_FIRST_WORD_MASK_def)
    then show ?thesis
      using rest_ranged [OF mask_op_or, of "\<lambda>w. - 1" "start div 64" nr "start + nr" m] short True start assms
      by (simp add: bitmap_set_atomic_def BIT_WORD_def Let_def)
  next
    case False
    then have "64 - start mod 64 \<noteq> 64" by simp
    then show ?thesis
      using short_ranged [OF mask_op_or _ assms] short by (simp add: bitmap_set_atomic_def BIT_WORD_def Let_def del: diff_diff_left)
  qed
qed

section \<open>Testing and clearing\<close>

definition some_in :: "u64 list \<Rightarrow> nat \<Rightarrow> nat \<Rightarrow> bool" where
  "some_in m lo hi \<longleftrightarrow> (\<exists>n. lo \<le> n \<and> n < hi \<and> bit_at m n)"

lemma some_in_split: "lo \<le> mid \<Longrightarrow> mid \<le> hi \<Longrightarrow> some_in m lo hi \<longleftrightarrow> some_in m lo mid \<or> some_in m mid hi"
  unfolding some_in_def by (meson less_le_trans not_less order_trans)

lemma some_in_ranged: "ranged b lo hi m m' \<Longrightarrow> hi \<le> a \<Longrightarrow> some_in m' a z = some_in m a z"
proof -
  assume "ranged b lo hi m m'" "hi \<le> a"
  then have "bit_at m' n = bit_at m n" if "a \<le> n" for n using that by (simp add: ranged_def)
  then show ?thesis by (auto simp: some_in_def)
qed

lemma some_in_empty [simp]: "hi \<le> lo \<Longrightarrow> \<not> some_in m lo hi"
  by (auto simp: some_in_def)

lemma some_in_word:
  assumes "64 * p \<le> lo" "hi \<le> 64 * p + 64" "\<And>i. i < 64 \<Longrightarrow> bit msk i \<longleftrightarrow> lo \<le> 64 * p + i \<and> 64 * p + i < hi"
  shows "m ! p AND msk \<noteq> 0 \<longleftrightarrow> some_in m lo hi"
proof -
  have "(\<exists>i < 64. bit (m ! p AND msk) i) \<longleftrightarrow> (\<exists>i < 64. lo \<le> 64 * p + i \<and> 64 * p + i < hi \<and> bit_at m (64 * p + i))"
    using assms(3) by (auto simp: bit_and_iff bit_at_word)
  also have "\<dots> \<longleftrightarrow> some_in m lo hi"
  proof
    assume "some_in m lo hi"
    then obtain n where n: "lo \<le> n" "n < hi" "bit_at m n" by (auto simp: some_in_def)
    then have "n - 64 * p < 64" "64 * p + (n - 64 * p) = n" using assms(1,2) by auto
    then show "\<exists>i < 64. lo \<le> 64 * p + i \<and> 64 * p + i < hi \<and> bit_at m (64 * p + i)" using n by metis
  qed (auto simp: some_in_def)
  finally show ?thesis by (auto simp: u64_zero_iff)
qed

lemma or_nonzero: "v OR w \<noteq> (0 :: u64) \<longleftrightarrow> v \<noteq> 0 \<or> w \<noteq> 0"
  by (auto simp: u64_zero_iff bit_or_iff)

lemma clear_full_words_ranged:
  assumes "64 * p + nr \<le> 64 * length m"
  shows "\<exists>m' d. clear_full_words m p nr dirty = Inr (m', p + nr div 64, nr mod 64, d) \<and>
     ranged False (64 * p) (64 * (p + nr div 64)) m m' \<and> (d \<noteq> 0 \<longleftrightarrow> dirty \<noteq> 0 \<or> some_in m (64 * p) (64 * (p + nr div 64)))"
  using assms
proof (induction nr arbitrary: m p dirty rule: less_induct)
  case (less nr)
  show ?case
  proof (cases "64 \<le> nr")
    case True
    let ?m = "m[p := 0]"
    obtain k where k: "nr = k + 64" using True by (metis le_add_diff_inverse2)
    have p: "p < length m" using less.prems k by linarith
    have div: "nr div 64 = 1 + k div 64" "nr mod 64 = k mod 64" using k by simp_all
    have same: "m ! p = 0 \<Longrightarrow> ?m = m" by (metis list_update_id)
    obtain m' d where m': "clear_full_words ?m (p + 1) k (dirty OR m ! p) = Inr (m', p + 1 + k div 64, k mod 64, d)"
      "ranged False (64 * (p + 1)) (64 * (p + 1 + k div 64)) ?m m'"
      "d \<noteq> 0 \<longleftrightarrow> dirty OR m ! p \<noteq> 0 \<or> some_in ?m (64 * (p + 1)) (64 * (p + 1 + k div 64))"
      using less.IH [of k "p + 1" ?m "dirty OR m ! p"] less.prems k by auto
    have "clear_full_words m p nr dirty = Inr (m', p + nr div 64, nr mod 64, d)"
      using m'(1) same p True div k by (subst clear_full_words.simps) (cases "m ! p = 0"; simp add: res_simps)
    moreover have step: "ranged False (64 * p) (64 * (p + 1)) m ?m" using p by (intro ranged_word) auto
    then have "ranged False (64 * p) (64 * (p + nr div 64)) m m'"
      using ranged_trans [OF _ m'(2)] div by (simp add: add.assoc)
    moreover have "m ! p \<noteq> 0 \<longleftrightarrow> some_in m (64 * p) (64 * (p + 1))"
      using some_in_word [of p "64 * p" "64 * (p + 1)" "- 1" m] by simp
    then have "d \<noteq> 0 \<longleftrightarrow> dirty \<noteq> 0 \<or> some_in m (64 * p) (64 * (p + nr div 64))"
      using m'(3) some_in_ranged [OF step order_refl] some_in_split [of "64 * p" "64 * (p + 1)" "64 * (p + nr div 64)" m] div
      by (simp add: or_nonzero add.assoc)
    ultimately show ?thesis by blast
  next
    case False
    then show ?thesis by (subst clear_full_words.simps) simp
  qed
qed

text \<open>The words from \<open>q\<close> on are cleared, and then the rest of the range.\<close>

lemma last_clear_ranged:
  assumes "64 * p \<le> lo" "lo + nr = sz" "sz \<le> 64 * p + 64" "sz \<le> 64 * length m" "\<And>i. i < 64 \<Longrightarrow> bit msk i \<longleftrightarrow> lo \<le> 64 * p + i"
  shows "\<exists>m'. (if nr \<noteq> 0
      then let msk = msk AND BITMAP_LAST_WORD_MASK sz in
           rbind (aread m p) (\<lambda>w. rbind (awrite m p (w AND NOT msk)) (\<lambda>m. Inr (dirty OR (w AND msk) \<noteq> 0, m)))
      else Inr (dirty \<noteq> 0, m)) = Inr (dirty \<noteq> 0 \<or> some_in m lo sz, m') \<and> ranged False lo sz m m'"
proof (cases "nr = 0")
  case True
  then show ?thesis using assms(2) by simp
next
  case False
  have p: "p < length m" using assms(1,2,4) False by linarith
  let ?msk = "msk AND BITMAP_LAST_WORD_MASK sz"
  have "bit ?msk i \<longleftrightarrow> lo \<le> 64 * p + i \<and> 64 * p + i < sz" if "i < 64" for i
    using that last_mask_upto [of p sz i] assms(1,2,3,5) False by (simp add: bit_and_iff)
  then have "m ! p AND ?msk \<noteq> 0 \<longleftrightarrow> some_in m lo sz" using some_in_word assms(1,3) by blast
  moreover obtain m' where "last_word (\<lambda>w msk. w AND NOT msk) m p nr msk sz = Inr m'" "ranged False lo sz m m'"
    using last_word_ranged [OF mask_op_andnot assms] by blast
  ultimately show ?thesis using p False by (simp add: last_word_def Let_def res_simps or_nonzero)
qed

lemma rest_clear_ranged:
  assumes "64 * q + nr = sz" "sz \<le> 64 * length m"
  shows "\<exists>m'. rbind (clear_full_words m q nr dirty) (\<lambda>(m, p, nr, dirty).
      if nr \<noteq> 0
      then let msk = - 1 AND BITMAP_LAST_WORD_MASK sz in
           rbind (aread m p) (\<lambda>w. rbind (awrite m p (w AND NOT msk)) (\<lambda>m. Inr (dirty OR (w AND msk) \<noteq> 0, m)))
      else Inr (dirty \<noteq> 0, m)) = Inr (dirty \<noteq> 0 \<or> some_in m (64 * q) sz, m') \<and> ranged False (64 * q) sz m m'"
proof -
  let ?mid = "64 * (q + nr div 64)"
  obtain m1 d where m1: "clear_full_words m q nr dirty = Inr (m1, q + nr div 64, nr mod 64, d)"
    "ranged False (64 * q) ?mid m m1" "d \<noteq> 0 \<longleftrightarrow> dirty \<noteq> 0 \<or> some_in m (64 * q) ?mid"
    using clear_full_words_ranged [of q nr m dirty] assms by auto
  have sz: "?mid + nr mod 64 = sz" using assms(1) by (simp add: add.assoc)
  moreover have "nr mod 64 \<le> 64" by simp
  ultimately have mid: "64 * q \<le> ?mid" "?mid \<le> sz" "sz \<le> ?mid + 64" by (auto simp del: distrib_left_numeral)
  have "length m1 = length m" using m1(2) by (simp add: ranged_def)
  then obtain m2 where m2: "(if nr mod 64 \<noteq> 0
      then let msk = - 1 AND BITMAP_LAST_WORD_MASK sz in
           rbind (aread m1 (q + nr div 64)) (\<lambda>w. rbind (awrite m1 (q + nr div 64) (w AND NOT msk)) (\<lambda>m. Inr (d OR (w AND msk) \<noteq> 0, m)))
      else Inr (d \<noteq> 0, m1)) = Inr (d \<noteq> 0 \<or> some_in m1 ?mid sz, m2)" "ranged False ?mid sz m1 m2"
    using last_clear_ranged [of "q + nr div 64" ?mid "nr mod 64" sz m1 "- 1" d] assms(2) mid sz by auto
  have "ranged False (64 * q) sz m m2" using ranged_trans [OF m1(2) m2(2)] mid by simp
  moreover have "d \<noteq> 0 \<or> some_in m1 ?mid sz \<longleftrightarrow> dirty \<noteq> 0 \<or> some_in m (64 * q) sz"
    using m1(3) some_in_split [OF mid(1,2), of m] some_in_ranged [OF m1(2) order_refl, of sz] by blast
  ultimately show ?thesis using m1(1) m2(1) by (auto simp: Let_def)
qed

lemma bitmap_test_and_clear_ranged:
  assumes "start + nr \<le> 64 * length m"
  shows "\<exists>m'. bitmap_test_and_clear_atomic m start nr = Inr (some_in m start (start + nr), m') \<and>
     ranged False start (start + nr) m m'"
proof (cases "64 - start mod 64 < nr")
  case True
  let ?p = "start div 64" and ?msk = "BITMAP_FIRST_WORD_MASK start"
  let ?m = "m[?p := m ! ?p AND NOT ?msk]" and ?stop = "64 * (start div 64 + 1)"
  have "64 * (start div 64) + 64 \<le> start + nr" "?stop + (nr - (64 - start mod 64)) = start + nr"
    using range_past_word [of start nr] True by simp_all
  then have p: "?p < length m" and sz: "?stop + (nr - (64 - start mod 64)) = start + nr" "?stop \<le> start + nr" using assms by simp_all
  have ge: "start \<le> ?stop" by presburger
  have first: "ranged False start ?stop m ?m" using first_word_ranged [OF mask_op_andnot p] by simp
  obtain m' where m': "rbind (clear_full_words ?m (?p + 1) (nr - (64 - start mod 64)) (m ! ?p AND ?msk)) (\<lambda>(m, p, nr, dirty).
      if nr \<noteq> 0
      then let msk = - 1 AND BITMAP_LAST_WORD_MASK (start + nr') in
           rbind (aread m p) (\<lambda>w. rbind (awrite m p (w AND NOT msk)) (\<lambda>m. Inr (dirty OR (w AND msk) \<noteq> 0, m)))
      else Inr (dirty \<noteq> 0, m)) = Inr (m ! ?p AND ?msk \<noteq> 0 \<or> some_in ?m ?stop (start + nr), m')"
      "ranged False ?stop (start + nr) ?m m'" if "nr' = nr" for nr'
    using rest_clear_ranged [OF sz(1), of ?m "m ! ?p AND ?msk"] assms by auto
  have "m ! ?p AND ?msk \<noteq> 0 \<longleftrightarrow> some_in m start ?stop"
    using some_in_word [of ?p start ?stop ?msk m] first_mask_from [of _ start] by simp
  then have "m ! ?p AND ?msk \<noteq> 0 \<or> some_in ?m ?stop (start + nr) \<longleftrightarrow> some_in m start (start + nr)"
    using some_in_split [OF ge sz(2), of m] some_in_ranged [OF first order_refl] by simp
  moreover have "ranged False start (start + nr) m m'" using ranged_trans [OF first m'(2) ge sz(2)] by simp
  ultimately show ?thesis
    using m'(1) [OF refl] True p by (simp add: bitmap_test_and_clear_atomic_def BIT_WORD_def Let_def res_simps)
next
  case short: False
  show ?thesis
  proof (cases "start mod 64 = 0")
    case True
    then have start: "64 * (start div 64) = start" by auto
    have "BITMAP_FIRST_WORD_MASK start = - 1" using True by (simp add: BITMAP_FIRST_WORD_MASK_def)
    then show ?thesis
      using rest_clear_ranged [of "start div 64" nr "start + nr" m 0] short True start assms
      by (simp add: bitmap_test_and_clear_atomic_def BIT_WORD_def Let_def)
  next
    case False
    then have "64 - start mod 64 \<noteq> 64" by simp
    moreover have "64 * (start div 64) \<le> start" "start + nr \<le> 64 * (start div 64) + 64"
      using range_in_word [of nr start] short by simp_all
    ultimately show ?thesis
      using last_clear_ranged [of "start div 64" start nr "start + nr" m "BITMAP_FIRST_WORD_MASK start" 0] assms short first_mask_from [of _ start]
      by (simp add: bitmap_test_and_clear_atomic_def BIT_WORD_def Let_def del: diff_diff_left)
  qed
qed

section \<open>Combinations are set operations\<close>

lemma dst_loop_eq:
  assumes "\<And>j. k \<le> j \<Longrightarrow> j < k + n \<Longrightarrow> f j = Inr (h j)" "k + n \<le> length dst"
  shows "\<exists>r d. dst_loop f dst result k n = Inr (r, d) \<and> length d = length dst \<and>
     (\<forall>j. d ! j = (if k \<le> j \<and> j < k + n then h j else dst ! j)) \<and>
     (r \<noteq> 0 \<longleftrightarrow> result \<noteq> 0 \<or> (\<exists>j. k \<le> j \<and> j < k + n \<and> h j \<noteq> 0))"
  using assms
proof (induction n arbitrary: k dst result)
  case (Suc n)
  obtain r d where d: "dst_loop f (dst[k := h k]) (result OR h k) (k + 1) n = Inr (r, d)" "length d = length dst"
    "\<forall>j. d ! j = (if k + 1 \<le> j \<and> j < k + 1 + n then h j else dst[k := h k] ! j)"
    "r \<noteq> 0 \<longleftrightarrow> result OR h k \<noteq> 0 \<or> (\<exists>j. k + 1 \<le> j \<and> j < k + 1 + n \<and> h j \<noteq> 0)"
    using Suc.IH [of "k + 1" "dst[k := h k]" "result OR h k"] Suc.prems by auto
  have "dst_loop f dst result k (Suc n) = Inr (r, d)" using d(1) Suc.prems by (simp add: res_simps)
  moreover have "d ! j = (if k \<le> j \<and> j < k + Suc n then h j else dst ! j)" for j
    using d(3) Suc.prems(2) by (cases "j = k") auto
  moreover have "r \<noteq> 0 \<longleftrightarrow> result \<noteq> 0 \<or> (\<exists>j. k \<le> j \<and> j < k + Suc n \<and> h j \<noteq> 0)"
  proof -
    have "(\<exists>j. k \<le> j \<and> j < k + Suc n \<and> h j \<noteq> 0) \<longleftrightarrow> h k \<noteq> 0 \<or> (\<exists>j. k + 1 \<le> j \<and> j < k + 1 + n \<and> h j \<noteq> 0)"
      by (metis add_Suc_right add_Suc_shift less_add_Suc1 Suc_eq_plus1 Suc_leD Suc_leI le_eq_less_or_eq le_refl)
    then show ?thesis using d(4) or_nonzero [of result "h k"] by blast
  qed
  ultimately show ?case using d(2) by auto
qed auto

lemma BITS_TO_LONGS_bounds: "bits \<le> 64 * BITS_TO_LONGS bits" "64 * BITS_TO_LONGS bits < bits + 64"
proof -
  define q where "q = (bits + 63) div 64"
  define e where "e = (bits + 63) mod 64"
  have "64 * q + e = bits + 63" "e < 64" unfolding q_def e_def by simp_all
  moreover have "BITS_TO_LONGS bits = q" by (simp add: BITS_TO_LONGS_def q_def)
  ultimately show "bits \<le> 64 * BITS_TO_LONGS bits" "64 * BITS_TO_LONGS bits < bits + 64" by simp_all
qed

lemma combine_correct:
  assumes "BITS_TO_LONGS bits \<le> length dst" "BITS_TO_LONGS bits \<le> length m1" "BITS_TO_LONGS bits \<le> length m2"
    and "\<And>v w i. i < 64 \<Longrightarrow> bit (g v w) i \<longleftrightarrow> G (bit v i) (bit w i)"
  shows "\<exists>r d. combine g dst m1 m2 bits = Inr (r, d) \<and> length d = length dst \<and>
     (\<forall>n. bit_at d n = (if n < 64 * BITS_TO_LONGS bits then G (bit_at m1 n) (bit_at m2 n) else bit_at dst n)) \<and>
     (r \<noteq> 0 \<longleftrightarrow> (\<exists>n < 64 * BITS_TO_LONGS bits. G (bit_at m1 n) (bit_at m2 n)))"
proof -
  let ?n = "BITS_TO_LONGS bits" and ?h = "\<lambda>k. g (m1 ! k) (m2 ! k)"
  obtain r d where d: "combine g dst m1 m2 bits = Inr (r, d)" "length d = length dst"
    "\<forall>j. d ! j = (if j < ?n then ?h j else dst ! j)" "r \<noteq> 0 \<longleftrightarrow> (\<exists>j < ?n. ?h j \<noteq> 0)"
    using dst_loop_eq [of 0 ?n "\<lambda>k. rbind (aread m1 k) (\<lambda>v. rbind (aread m2 k) (\<lambda>w. Inr (g v w)))" ?h dst 0] assms(1-3)
    by (auto simp: combine_def res_simps)
  have word: "bit (?h (n div 64)) (n mod 64) = G (bit_at m1 n) (bit_at m2 n)" for n
    using assms(4) [of "n mod 64"] by (simp add: bit_at_def)
  have "bit_at d n = (if n < 64 * ?n then G (bit_at m1 n) (bit_at m2 n) else bit_at dst n)" for n
    using d(3) word [of n] by (simp add: bit_at_def less_mult_imp_div_less div_less_iff_less_mult mult.commute)
  moreover have "(\<exists>j < ?n. ?h j \<noteq> 0) \<longleftrightarrow> (\<exists>n < 64 * ?n. G (bit_at m1 n) (bit_at m2 n))"
  proof
    assume "\<exists>j < ?n. ?h j \<noteq> 0"
    then obtain j i where "j < ?n" "i < 64" "bit (?h j) i" by (auto simp: u64_zero_iff)
    then have "64 * j + i < 64 * ?n" "G (bit_at m1 (64 * j + i)) (bit_at m2 (64 * j + i))"
      using word [of "64 * j + i"] by auto
    then show "\<exists>n < 64 * ?n. G (bit_at m1 n) (bit_at m2 n)" by blast
  next
    assume "\<exists>n < 64 * ?n. G (bit_at m1 n) (bit_at m2 n)"
    then obtain n where n: "n < 64 * ?n" "G (bit_at m1 n) (bit_at m2 n)" by blast
    then have "n div 64 < ?n" "?h (n div 64) \<noteq> 0" using word [of n] by (auto simp: less_mult_imp_div_less mult.commute)
    then show "\<exists>j < ?n. ?h j \<noteq> 0" by blast
  qed
  ultimately show ?thesis using d(1,2,4) by blast
qed

text \<open>Beyond the last bit that counts, the rest of the last word is combined too.\<close>

lemma slow_bitmap_and_correct:
  assumes "BITS_TO_LONGS bits \<le> length dst" "BITS_TO_LONGS bits \<le> length m1" "BITS_TO_LONGS bits \<le> length m2"
  shows "\<exists>d. slow_bitmap_and dst m1 m2 bits = Inr (\<exists>n < 64 * BITS_TO_LONGS bits. bit_at m1 n \<and> bit_at m2 n, d) \<and>
     length d = length dst \<and> (\<forall>n < 64 * BITS_TO_LONGS bits. bit_at d n \<longleftrightarrow> bit_at m1 n \<and> bit_at m2 n)"
  using combine_correct [OF assms, of "(AND)" "(\<and>)"] by (auto simp: slow_bitmap_and_def bit_and_iff)

lemma slow_bitmap_andnot_correct:
  assumes "BITS_TO_LONGS bits \<le> length dst" "BITS_TO_LONGS bits \<le> length m1" "BITS_TO_LONGS bits \<le> length m2"
  shows "\<exists>d. slow_bitmap_andnot dst m1 m2 bits = Inr (\<exists>n < 64 * BITS_TO_LONGS bits. bit_at m1 n \<and> \<not> bit_at m2 n, d) \<and>
     length d = length dst \<and> (\<forall>n < 64 * BITS_TO_LONGS bits. bit_at d n \<longleftrightarrow> bit_at m1 n \<and> \<not> bit_at m2 n)"
  using combine_correct [OF assms, of "\<lambda>v w. v AND NOT w" "\<lambda>a b. a \<and> \<not> b"]
  by (auto simp: slow_bitmap_andnot_def bit_and_iff bit_not_iff)

lemma slow_bitmap_or_correct:
  assumes "BITS_TO_LONGS bits \<le> length dst" "BITS_TO_LONGS bits \<le> length m1" "BITS_TO_LONGS bits \<le> length m2"
  shows "\<exists>d. slow_bitmap_or dst m1 m2 bits = Inr d \<and> length d = length dst \<and>
     (\<forall>n < 64 * BITS_TO_LONGS bits. bit_at d n \<longleftrightarrow> bit_at m1 n \<or> bit_at m2 n)"
  using combine_correct [OF assms, of "(OR)" "(\<or>)"] by (auto simp: slow_bitmap_or_def bit_or_iff)

lemma slow_bitmap_xor_correct:
  assumes "BITS_TO_LONGS bits \<le> length dst" "BITS_TO_LONGS bits \<le> length m1" "BITS_TO_LONGS bits \<le> length m2"
  shows "\<exists>d. slow_bitmap_xor dst m1 m2 bits = Inr d \<and> length d = length dst \<and>
     (\<forall>n < 64 * BITS_TO_LONGS bits. bit_at d n \<longleftrightarrow> bit_at m1 n \<noteq> bit_at m2 n)"
  using combine_correct [OF assms, of "(XOR)" "(\<noteq>)"] by (auto simp: slow_bitmap_xor_def bit_xor_iff)

lemma slow_bitmap_complement_correct:
  assumes "bits \<le> 64 * length dst" "bits \<le> 64 * length src"
  shows "\<exists>d. slow_bitmap_complement dst src bits = Inr d \<and> length d = length dst \<and> (\<forall>n < bits. bit_at d n \<longleftrightarrow> \<not> bit_at src n)"
proof -
  let ?lim = "bits div 64"
  have "?lim \<le> length dst" using assms(1) by (simp add: div_le_mono [THEN order_trans, of _ _ 64] flip: div_le_mono)
  obtain r d where d: "dst_loop (\<lambda>k. rbind (aread src k) (\<lambda>w. Inr (NOT w))) dst 0 0 ?lim = Inr (r, d)" "length d = length dst"
    "\<forall>j. d ! j = (if j < ?lim then NOT (src ! j) else dst ! j)"
    using dst_loop_eq [of 0 ?lim "\<lambda>k. rbind (aread src k) (\<lambda>w. Inr (NOT w))" "\<lambda>k. NOT (src ! k)" dst 0] div_less_length(1) [OF assms(2)]
      \<open>?lim \<le> length dst\<close> by (auto simp: res_simps)
  let ?d = "if bits mod 64 \<noteq> 0 then d[?lim := NOT (src ! ?lim) AND BITMAP_LAST_WORD_MASK bits] else d"
  have "slow_bitmap_complement dst src bits = Inr ?d"
    using d(1,2) div_less_length(2) [OF assms(1)] div_less_length(2) [OF assms(2)]
    by (simp add: slow_bitmap_complement_def Let_def res_simps)
  moreover have "\<forall>n < bits. bit_at ?d n \<longleftrightarrow> \<not> bit_at src n"
  proof (subst all_places, intro conjI allI impI)
    fix k i :: nat assume "k < ?lim" "i < 64"
    then show "bit_at ?d (64 * k + i) \<longleftrightarrow> \<not> bit_at src (64 * k + i)" using d(3) by (auto simp: bit_at_word bit_not_iff)
  next
    fix i assume i: "i < bits mod 64"
    then have "i < 64" "bits mod 64 \<noteq> 0" using mod_less_divisor [of 64 bits] by linarith+
    then show "bit_at ?d (64 * ?lim + i) \<longleftrightarrow> \<not> bit_at src (64 * ?lim + i)"
      using i d(2) div_less_length(2) [OF assms(1)] bit_last_mask [of i bits] by (simp add: bit_at_word bit_and_iff bit_not_iff)
  qed
  ultimately show ?thesis using d(2) by auto
qed

section \<open>Counting\<close>

definition count_in :: "u64 list \<Rightarrow> nat \<Rightarrow> nat \<Rightarrow> nat" where
  "count_in m lo hi = card {n. lo \<le> n \<and> n < hi \<and> bit_at m n}"

lemma count_in_split: "lo \<le> mid \<Longrightarrow> mid \<le> hi \<Longrightarrow> count_in m lo hi = count_in m lo mid + count_in m mid hi"
proof -
  assume "lo \<le> mid" "mid \<le> hi"
  then have "{n. lo \<le> n \<and> n < hi \<and> bit_at m n} = {n. lo \<le> n \<and> n < mid \<and> bit_at m n} \<union> {n. mid \<le> n \<and> n < hi \<and> bit_at m n}"
    by auto
  then show ?thesis unfolding count_in_def by (simp add: card_Un_disjoint disjoint_iff)
qed

lemma ctpopl_word:
  assumes "e \<le> 64" "\<And>i. i < 64 \<Longrightarrow> bit w i \<longleftrightarrow> i < e \<and> bit_at m (64 * p + i)"
  shows "ctpopl w = count_in m (64 * p) (64 * p + e)"
proof -
  have "ctpopl w = card {i. i < 64 \<and> bit w i}"
    by (simp add: ctpopl_def distinct_card [symmetric] conj_commute)
  also have "{i. i < 64 \<and> bit w i} = {i. i < e \<and> bit_at m (64 * p + i)}" using assms by auto
  also have "card \<dots> = card ((\<lambda>i. 64 * p + i) ` {i. i < e \<and> bit_at m (64 * p + i)})"
    by (rule card_image [symmetric]) (simp add: inj_on_def)
  also have "(\<lambda>i. 64 * p + i) ` {i. i < e \<and> bit_at m (64 * p + i)} = {n. 64 * p \<le> n \<and> n < 64 * p + e \<and> bit_at m n}"
  proof (intro equalityI subsetI)
    fix n assume "n \<in> {n. 64 * p \<le> n \<and> n < 64 * p + e \<and> bit_at m n}"
    then show "n \<in> (\<lambda>i. 64 * p + i) ` {i. i < e \<and> bit_at m (64 * p + i)}" by (intro image_eqI [of _ _ "n - 64 * p"]) auto
  qed auto
  finally show ?thesis by (simp add: count_in_def)
qed

lemma count_loop_eq: "k + n \<le> length m \<Longrightarrow> count_loop m result k n = Inr (result + count_in m (64 * k) (64 * (k + n)))"
proof (induction n arbitrary: k result)
  case (Suc n)
  have "ctpopl (m ! k) = count_in m (64 * k) (64 * k + 64)" by (rule ctpopl_word) (simp_all add: bit_at_word)
  then have "ctpopl (m ! k) + count_in m (64 * (k + 1)) (64 * (k + 1 + n)) = count_in m (64 * k) (64 * (k + Suc n))"
    using count_in_split [of "64 * k" "64 * (k + 1)" "64 * (k + Suc n)" m] by (simp add: add.commute)
  then show ?case using Suc.IH [of "k + 1"] Suc.prems by (simp add: res_simps add.assoc)
qed (simp add: count_in_def)

lemma slow_bitmap_count_one_correct:
  assumes "bits \<le> 64 * length m"
  shows "slow_bitmap_count_one m bits = Inr (count_in m 0 bits)"
proof -
  let ?lim = "bits div 64"
  have "?lim \<le> length m" using div_le_mono [OF assms, of 64] by simp
  then have loop: "count_loop m 0 0 ?lim = Inr (count_in m 0 (64 * ?lim))" using count_loop_eq [of 0 ?lim m 0] by simp
  have "bit (m ! ?lim AND BITMAP_LAST_WORD_MASK bits) i \<longleftrightarrow> i < bits mod 64 \<and> bit_at m (64 * ?lim + i)"
    if "bits mod 64 \<noteq> 0" "i < 64" for i
    using that bit_last_mask [of i bits] by (auto simp: bit_and_iff bit_at_word)
  then have "bits mod 64 \<noteq> 0 \<Longrightarrow> ctpopl (m ! ?lim AND BITMAP_LAST_WORD_MASK bits) = count_in m (64 * ?lim) (64 * ?lim + bits mod 64)"
    by (intro ctpopl_word) auto
  then have "bits mod 64 \<noteq> 0 \<Longrightarrow> count_in m 0 (64 * ?lim) + ctpopl (m ! ?lim AND BITMAP_LAST_WORD_MASK bits) = count_in m 0 bits"
    using count_in_split [of 0 "64 * ?lim" bits m] by simp
  moreover have "bits mod 64 = 0 \<Longrightarrow> 64 * ?lim = bits" by auto
  ultimately show ?thesis
    using loop div_less_length(2) [OF assms] by (cases "bits mod 64 = 0") (simp_all add: slow_bitmap_count_one_def Let_def res_simps)
qed

section \<open>The inline operations agree with the out-of-line ones\<close>

lemma small_test:
  assumes "0 < bits" "bits \<le> 64" "\<And>i. i < 64 \<Longrightarrow> i < bits \<Longrightarrow> bit w i \<longleftrightarrow> \<not> Q i"
  shows "w AND BITMAP_LAST_WORD_MASK bits = 0 \<longleftrightarrow> (\<forall>n < bits. Q n)"
proof -
  have "bit (BITMAP_LAST_WORD_MASK bits) i \<longleftrightarrow> i < bits" if "i < 64" for i
    using last_mask_upto [of 0 bits i] assms(1,2) that by simp
  then show ?thesis using assms(2,3) unfolding u64_zero_iff bit_and_iff by (meson less_le_trans)
qed

lemma inline_tests:
  assumes "0 < bits" "bits \<le> 64 * length m1" "bits \<le> 64 * length m2"
  shows "bitmap_empty m1 bits = Inr (\<forall>n < bits. \<not> bit_at m1 n)"
    and "bitmap_full m1 bits = Inr (\<forall>n < bits. bit_at m1 n)"
    and "bitmap_equal m1 m2 bits = Inr (\<forall>n < bits. bit_at m1 n = bit_at m2 n)"
    and "bitmap_intersects m1 m2 bits = Inr (\<exists>n < bits. bit_at m1 n \<and> bit_at m2 n)"
    and "bitmap_count_one m1 bits = Inr (count_in m1 0 bits)"
proof -
  have len: "0 < length m1" "0 < length m2" using assms by linarith+
  have at: "bit_at m i = bit (m ! 0) i" if "i < 64" for m i using bit_at_word [of i m 0] that by simp
  note small = small_test [OF assms(1)]
  show "bitmap_empty m1 bits = Inr (\<forall>n < bits. \<not> bit_at m1 n)"
    using small [of "m1 ! 0" "\<lambda>n. \<not> bit_at m1 n"] len slow_bitmap_empty_correct [OF assms(2)]
    by (simp add: bitmap_empty_def small_nbits_def res_simps at)
  show "bitmap_full m1 bits = Inr (\<forall>n < bits. bit_at m1 n)"
    using small [of "NOT (m1 ! 0)" "\<lambda>n. bit_at m1 n"] len slow_bitmap_full_correct [OF assms(2)]
    by (simp add: bitmap_full_def small_nbits_def res_simps at bit_not_iff)
  show "bitmap_equal m1 m2 bits = Inr (\<forall>n < bits. bit_at m1 n = bit_at m2 n)"
    using small [of "m1 ! 0 XOR m2 ! 0" "\<lambda>n. bit_at m1 n = bit_at m2 n"] len slow_bitmap_equal_correct [OF assms(2,3)]
    by (simp add: bitmap_equal_def small_nbits_def res_simps at bit_xor_iff)
  have "bits \<le> 64 \<Longrightarrow> (\<exists>n < bits. bit (m1 ! 0) n \<and> bit (m2 ! 0) n) \<longleftrightarrow> (\<exists>n < bits. bit_at m1 n \<and> bit_at m2 n)"
    using at less_le_trans by metis
  then show "bitmap_intersects m1 m2 bits = Inr (\<exists>n < bits. bit_at m1 n \<and> bit_at m2 n)"
    using small [of "m1 ! 0 AND m2 ! 0" "\<lambda>n. \<not> (bit_at m1 n \<and> bit_at m2 n)"] len slow_bitmap_intersects_correct [OF assms(2,3)]
    by (cases "bits \<le> 64") (simp_all add: bitmap_intersects_def small_nbits_def res_simps at bit_and_iff)
  have "ctpopl (m1 ! 0 AND BITMAP_LAST_WORD_MASK bits) = count_in m1 0 bits" if "bits \<le> 64"
    using ctpopl_word [of bits "m1 ! 0 AND BITMAP_LAST_WORD_MASK bits" m1 0] last_mask_upto [of 0 bits] that assms(1)
    by (auto simp: bit_and_iff at)
  then show "bitmap_count_one m1 bits = Inr (count_in m1 0 bits)"
    using len slow_bitmap_count_one_correct [OF assms(2)] by (simp add: bitmap_count_one_def small_nbits_def res_simps)
qed

text \<open>
  C35. For every size above zero, the inline and the out-of-line bitmap operations are the
  set operations on the bits below the size: the tests for empty, full, equal and
  intersecting bitmaps decide those properties of the sets, counting gives the
  cardinality, and setting, clearing and testing-and-clearing a range change
  precisely the bits of the range and report whether one of them was set.
\<close>

theorem bitmap_operations_correct:
  assumes "0 < bits" "bits \<le> 64 * length m1" "bits \<le> 64 * length m2" "start + nr \<le> 64 * length m1"
  shows "bitmap_empty m1 bits = Inr (\<forall>n < bits. \<not> bit_at m1 n) \<and>
     bitmap_full m1 bits = Inr (\<forall>n < bits. bit_at m1 n) \<and>
     bitmap_equal m1 m2 bits = Inr (\<forall>n < bits. bit_at m1 n = bit_at m2 n) \<and>
     bitmap_intersects m1 m2 bits = Inr (\<exists>n < bits. bit_at m1 n \<and> bit_at m2 n) \<and>
     bitmap_count_one m1 bits = Inr (card {n. n < bits \<and> bit_at m1 n}) \<and>
     (\<exists>m'. bitmap_set m1 start nr = Inr m' \<and> bits_of m' = bits_of m1 \<union> {start..<start + nr}) \<and>
     (\<exists>m'. bitmap_set_atomic m1 start nr = Inr m' \<and> bits_of m' = bits_of m1 \<union> {start..<start + nr}) \<and>
     (\<exists>m'. bitmap_clear m1 start nr = Inr m' \<and> bits_of m' = bits_of m1 - {start..<start + nr}) \<and>
     (\<exists>m'. bitmap_test_and_clear_atomic m1 start nr = Inr (bits_of m1 \<inter> {start..<start + nr} \<noteq> {}, m') \<and>
        bits_of m' = bits_of m1 - {start..<start + nr})"
proof -
  have set: "ranged True start (start + nr) m1 m' \<Longrightarrow> bits_of m' = bits_of m1 \<union> {start..<start + nr}" for m'
    using assms(4) by (auto simp: ranged_def bits_of_def)
  have clear: "ranged False start (start + nr) m1 m' \<Longrightarrow> bits_of m' = bits_of m1 - {start..<start + nr}" for m'
    by (auto simp: ranged_def bits_of_def)
  have "some_in m1 start (start + nr) \<longleftrightarrow> bits_of m1 \<inter> {start..<start + nr} \<noteq> {}"
  proof -
    have "n < 64 * length m1" if "n < start + nr" for n using that assms(4) by simp
    then have "bits_of m1 \<inter> {start..<start + nr} = {n. start \<le> n \<and> n < start + nr \<and> bit_at m1 n}"
      unfolding bits_of_def by (intro set_eqI) auto
    then show ?thesis unfolding some_in_def by auto
  qed
  then have "\<exists>m'. bitmap_test_and_clear_atomic m1 start nr = Inr (bits_of m1 \<inter> {start..<start + nr} \<noteq> {}, m') \<and>
      bits_of m' = bits_of m1 - {start..<start + nr}"
    using bitmap_test_and_clear_ranged [OF assms(4)] clear by auto
  moreover have "\<exists>m'. bitmap_set m1 start nr = Inr m' \<and> bits_of m' = bits_of m1 \<union> {start..<start + nr}"
    using bitmap_set_ranged [OF assms(4)] set by blast
  moreover have "\<exists>m'. bitmap_set_atomic m1 start nr = Inr m' \<and> bits_of m' = bits_of m1 \<union> {start..<start + nr}"
    using bitmap_set_atomic_ranged [OF assms(4)] set by blast
  moreover have "\<exists>m'. bitmap_clear m1 start nr = Inr m' \<and> bits_of m' = bits_of m1 - {start..<start + nr}"
    using bitmap_clear_ranged [OF assms(4)] clear by blast
  moreover have "count_in m1 0 bits = card {n. n < bits \<and> bit_at m1 n}" by (simp add: count_in_def)
  ultimately show ?thesis
    using inline_tests [OF assms(1-3)] by (intro conjI) simp_all
qed

theorem bitmap_operations_correct_witness:
  "bitmap_count_one [0xF0, 1] 65 = Inr (card {n. n < 65 \<and> bit_at [0xF0, 1] n}) \<and>
   (\<exists>m'. bitmap_set [0xF0, 1] 6 60 = Inr m' \<and> bits_of m' = bits_of [0xF0, 1] \<union> {6..<66})"
  using bitmap_operations_correct [of 65 "[0xF0, 1]" "[0xF0, 1]" 6 60] by simp

section \<open>Copies\<close>

lemma bit_at_append: "n < 64 * length xs \<Longrightarrow> bit_at (xs @ ys) n = bit_at xs n"
  by (simp add: bit_at_def nth_append less_mult_imp_div_less mult.commute)

lemma bit_at_take: "n < 64 * k \<Longrightarrow> bit_at (take k xs) n = bit_at xs n"
  by (simp add: bit_at_def less_mult_imp_div_less mult.commute)

text \<open>Growing a bitmap keeps its bits and adds clear ones, whatever the new memory held.\<close>

lemma bitmap_zero_extend_correct:
  assumes "old_nbits \<le> new_nbits" "old_nbits \<le> 64 * length old"
  shows "\<exists>m'. bitmap_zero_extend junk old old_nbits new_nbits = Inr m' \<and> length m' = BITS_TO_LONGS new_nbits \<and>
     (\<forall>n < new_nbits. bit_at m' n \<longleftrightarrow> n < old_nbits \<and> bit_at old n)"
proof -
  let ?n = "BITS_TO_LONGS new_nbits"
  let ?m = "take ?n old @ map junk [length old..<?n]"
  have len: "length ?m = ?n" by simp
  have le: "new_nbits \<le> 64 * ?n" by (rule BITS_TO_LONGS_bounds)
  obtain m' where m': "bitmap_clear ?m old_nbits (new_nbits - old_nbits) = Inr m'" "ranged False old_nbits new_nbits ?m m'"
    using bitmap_clear_ranged [of old_nbits "new_nbits - old_nbits" ?m] assms(1) le len by auto
  have "bit_at ?m n = bit_at old n" if "n < old_nbits" for n
    using that assms le by (subst bit_at_append) (auto simp: bit_at_take min_def)
  then have "\<forall>n < new_nbits. bit_at m' n \<longleftrightarrow> n < old_nbits \<and> bit_at old n" using m'(2) by (auto simp: ranged_def)
  moreover have "length m' = ?n" using m'(2) len by (simp add: ranged_def)
  ultimately show ?thesis using m'(1) by (auto simp: bitmap_zero_extend_def Let_def)
qed

text \<open>Filling sets precisely the bits that count, and faults for a bitmap of none.\<close>

lemma bitmap_fill_correct:
  assumes "0 < nbits" "BITS_TO_LONGS nbits \<le> length dst"
  shows "\<exists>m'. bitmap_fill dst nbits = Inr m' \<and> (\<forall>n < 64 * BITS_TO_LONGS nbits. bit_at m' n \<longleftrightarrow> n < nbits)"
proof -
  let ?k = "BITS_TO_LONGS nbits"
  let ?m = "(replicate (?k - 1) (- 1) @ drop (?k - 1) dst)[?k - 1 := BITMAP_LAST_WORD_MASK nbits]"
  note b = BITS_TO_LONGS_bounds [of nbits]
  have k: "0 < ?k" using b(1) assms(1) by linarith
  have "small_nbits nbits \<Longrightarrow> ?k = 1" using b k by (simp add: small_nbits_def)
  then have "bitmap_fill dst nbits = Inr ?m"
    using k assms(2) by (auto simp: bitmap_fill_def Let_def memcpy_to_def awrite_def)
  moreover have "bit_at ?m n \<longleftrightarrow> n < nbits" if "n < 64 * ?k" for n
  proof (cases "n div 64 = ?k - 1")
    case True
    obtain p where p: "?k = Suc p" using k gr0_implies_Suc by blast
    have "n = 64 * p + n mod 64" using True p by (metis diff_Suc_1 mult_div_mod_eq)
    then show ?thesis
      using True p b assms last_mask_upto [of p nbits "n mod 64"] by (simp add: bit_at_def nth_append)
  next
    case False
    have "n div 64 < ?k" using that by (simp add: less_mult_imp_div_less mult.commute)
    then have "n div 64 < ?k - 1" using False by simp
    moreover have "n < 64 * (n div 64) + 64" by presburger
    ultimately have "n < nbits" using b(2) by linarith
    then show ?thesis using False \<open>n div 64 < ?k - 1\<close> by (simp add: bit_at_def nth_append)
  qed
  ultimately show ?thesis by blast
qed

lemma bitmap_fill_none: "bitmap_fill dst 0 = Inl OutOfBounds"
  by (simp add: bitmap_fill_def small_nbits_def BITS_TO_LONGS_def)

lemma copy_and_clear_eq:
  assumes "k + (nr + 63) div 64 \<le> length src" "length src \<le> length dst"
  shows "\<exists>d s. copy_and_clear_loop dst src k nr = Inr (d, s) \<and> length d = length dst \<and> length s = length src \<and>
     (\<forall>j. d ! j = (if k \<le> j \<and> j < k + (nr + 63) div 64 then src ! j else dst ! j)) \<and>
     (\<forall>j. s ! j = (if k \<le> j \<and> j < k + (nr + 63) div 64 then 0 else src ! j))"
  using assms
proof (induction nr arbitrary: k dst src rule: less_induct)
  case (less nr)
  show ?case
  proof (cases "nr = 0")
    case True
    then show ?thesis by (subst copy_and_clear_loop.simps) auto
  next
    case False
    have n: "(nr + 63) div 64 = Suc ((nr - 64 + 63) div 64)"
    proof (cases "nr < 64")
      case True
      then have "(nr + 63) div 64 = (64 + (nr - 1)) div 64" using False by simp
      also have "\<dots> = 1" using True False by (subst div_add_self1) simp_all
      finally show ?thesis using True by simp
    next
      case False
      then have "nr + 63 = 64 + (nr - 64 + 63)" by simp
      then show ?thesis by (simp add: div_add_self1)
    qed
    have k: "k < length src" "k < length dst" using less.prems n by simp_all
    obtain d s where ds: "copy_and_clear_loop (dst[k := src ! k]) (src[k := 0]) (k + 1) (nr - 64) = Inr (d, s)"
      "length d = length dst" "length s = length src"
      "\<forall>j. d ! j = (if k + 1 \<le> j \<and> j < k + 1 + (nr - 64 + 63) div 64 then src[k := 0] ! j else dst[k := src ! k] ! j)"
      "\<forall>j. s ! j = (if k + 1 \<le> j \<and> j < k + 1 + (nr - 64 + 63) div 64 then 0 else src[k := 0] ! j)"
      using less.IH [of "nr - 64" "k + 1" "src[k := 0]" "dst[k := src ! k]"] less.prems False n by auto
    have "copy_and_clear_loop dst src k nr = Inr (d, s)"
      using ds(1) k False by (subst copy_and_clear_loop.simps) (simp add: res_simps)
    moreover have "d ! j = (if k \<le> j \<and> j < k + (nr + 63) div 64 then src ! j else dst ! j)" for j
      using ds(4) k n by (cases "j = k") (auto simp: nth_list_update)
    moreover have "s ! j = (if k \<le> j \<and> j < k + (nr + 63) div 64 then 0 else src ! j)" for j
      using ds(5) k n by (cases "j = k") (auto simp: nth_list_update)
    ultimately show ?thesis using ds(2,3) by blast
  qed
qed

section \<open>Free areas\<close>

lemma and_not_mask_nat: "unat (y AND NOT (mask a) :: u64) = unat y div 2 ^ a * 2 ^ a"
proof -
  have "unat (y AND NOT (mask a)) = push_bit a (drop_bit a (unat y))"
    by (rule bit_eqI) (auto simp: bit_unsigned_iff bit_and_iff bit_not_iff bit_mask_iff bit_push_bit_iff bit_drop_bit_eq
        dest: bit_imp_le_length)
  then show ?thesis by (simp add: push_bit_eq_mult drop_bit_eq_div)
qed

lemma ALIGN_MASK_least:
  assumes "unat x + 2 ^ a \<le> 2 ^ 64"
  shows "2 ^ a dvd unat (ALIGN_MASK x (mask a))" "unat x \<le> unat (ALIGN_MASK x (mask a))"
    "unat (ALIGN_MASK x (mask a)) < unat x + 2 ^ a" "2 ^ a dvd s \<Longrightarrow> unat x \<le> s \<Longrightarrow> unat (ALIGN_MASK x (mask a)) \<le> s"
proof -
  let ?y = "unat x + (2 ^ a - 1)"
  have "(1 :: nat) \<le> 2 ^ a" by simp
  have "(2 :: nat) ^ a \<le> 2 ^ 64" using assms by (rule add_leD2)
  then have "a \<le> 64" by (rule power_le_imp_le_exp [rotated]) simp
  have "unat (mask a :: u64) = mask a"
    using \<open>a \<le> 64\<close> by (intro bit_eqI) (auto simp: bit_unsigned_iff bit_mask_iff)
  then have "unat (mask a :: u64) = 2 ^ a - 1" by (simp add: mask_eq_exp_minus_1)
  moreover have "?y < 2 ^ 64" using assms \<open>1 \<le> 2 ^ a\<close> by linarith
  ultimately have "unat (x + mask a) = ?y" by (simp add: unat_word_ariths)
  then have idx: "unat (ALIGN_MASK x (mask a)) = ?y div 2 ^ a * 2 ^ a" by (simp add: ALIGN_MASK_def and_not_mask_nat)
  have y: "?y = ?y div 2 ^ a * 2 ^ a + ?y mod 2 ^ a" "?y mod 2 ^ a < 2 ^ a"
    by (rule div_mult_mod_eq [symmetric]) simp
  show "2 ^ a dvd unat (ALIGN_MASK x (mask a))" using idx by simp
  show "unat x \<le> unat (ALIGN_MASK x (mask a))" unfolding idx using y \<open>1 \<le> 2 ^ a\<close> by linarith
  show "unat (ALIGN_MASK x (mask a)) < unat x + 2 ^ a" unfolding idx using y \<open>1 \<le> 2 ^ a\<close> by linarith
  show "unat (ALIGN_MASK x (mask a)) \<le> s" if s: "2 ^ a dvd s" "unat x \<le> s"
  proof -
    obtain k where k: "s = 2 ^ a * k" using s(1) by (elim dvdE)
    have "?y div 2 ^ a \<le> (s + (2 ^ a - 1)) div 2 ^ a" using s(2) by (intro div_le_mono) simp
    also have "\<dots> = s div 2 ^ a"
      unfolding k by (subst div_mult_self4) simp_all
    finally have "?y div 2 ^ a * 2 ^ a \<le> s div 2 ^ a * 2 ^ a" by (rule mult_le_mono1)
    then show ?thesis unfolding idx using s(1) by simp
  qed
qed

text \<open>A place where an area of \<open>nr\<close> clear bits may start.\<close>

definition free_area :: "u64 list \<Rightarrow> nat \<Rightarrow> nat \<Rightarrow> nat \<Rightarrow> nat \<Rightarrow> bool" where
  "free_area m sz nr a s \<longleftrightarrow> 2 ^ a dvd s \<and> s + nr \<le> sz \<and> \<not> some_in m s (s + nr)"

text \<open>The outcome of a search from \<open>start\<close>: the least such place, or a value beyond the size.\<close>

definition first_area :: "u64 list \<Rightarrow> nat \<Rightarrow> nat \<Rightarrow> nat \<Rightarrow> nat \<Rightarrow> nat \<Rightarrow> bool" where
  "first_area m sz start nr a r \<longleftrightarrow>
    (if sz < r then \<forall>s. start \<le> s \<longrightarrow> \<not> free_area m sz nr a s
     else start \<le> r \<and> free_area m sz nr a r \<and> (\<forall>s. start \<le> s \<longrightarrow> s < r \<longrightarrow> \<not> free_area m sz nr a s))"

lemma first_area_later:
  "first_area m sz i nr a r \<Longrightarrow> start \<le> i \<Longrightarrow> (\<And>s. start \<le> s \<Longrightarrow> s < i \<Longrightarrow> \<not> free_area m sz nr a s) \<Longrightarrow> first_area m sz start nr a r"
  unfolding first_area_def by (meson le_trans not_le)

lemma find_next_zero_cases:
  assumes "sz \<le> 64 * length m"
  obtains z where "find_next_zero_bit m sz start = Inr z" "z \<le> sz" "start \<le> z \<or> z = sz" "\<And>n. start \<le> n \<Longrightarrow> n < z \<Longrightarrow> bit_at m n"
proof (cases "start < sz")
  case True
  then show ?thesis
    using find_next_zero_bit_correct [OF assms, of start] first_from_range [of start "\<lambda>n. \<not> bit_at m n" "sz - start"]
    by (cases rule: first_from_cases [of "\<lambda>n. \<not> bit_at m n" start "sz - start"]) (auto intro!: that)
next
  case False
  then show ?thesis using find_next_zero_bit_correct [OF assms, of start] by (intro that) auto
qed

lemma find_next_cases:
  assumes "sz \<le> 64 * length m" "start \<le> sz"
  obtains (none) "find_next_bit m sz start = Inr sz" "\<not> some_in m start sz"
  | (found) i where "find_next_bit m sz start = Inr i" "start \<le> i" "i < sz" "bit_at m i"
proof (cases "start < sz")
  case True
  note eq = find_next_bit_correct [OF assms(1), of start] and goals = none found
  show ?thesis
  proof (cases rule: first_from_cases [of "bit_at m" start "sz - start"])
    case none
    then show ?thesis using True eq by (intro goals(1)) (auto simp: some_in_def)
  next
    case found
    then show ?thesis using True eq by (intro goals(2)) auto
  qed
next
  case False
  then show ?thesis using find_next_bit_correct [OF assms(1), of start] assms(2) by (intro none) auto
qed

text \<open>A pass of the loop either ends with the first area or goes on behind a bit that no area from \<open>start\<close> on avoids.\<close>

lemma area_blocked: "index \<le> s \<Longrightarrow> s \<le> i \<Longrightarrow> i < index + nr \<Longrightarrow> bit_at m i \<Longrightarrow> \<not> free_area m sz nr a s"
  unfolding free_area_def some_in_def by (meson add_le_mono1 less_le_trans)

lemma area_from_zero:
  assumes "\<And>n. start \<le> n \<Longrightarrow> n < z \<Longrightarrow> bit_at m n" "start \<le> z \<or> z = sz" "0 < nr" "free_area m sz nr a s" "start \<le> s"
  shows "z \<le> s"
proof (rule ccontr)
  assume "\<not> z \<le> s"
  then have "bit_at m s" using assms(1,5) by simp
  then show False using assms(3,4) by (auto simp: free_area_def some_in_def)
qed

lemma find_next_zero_area_correct:
  assumes "unat sz \<le> 64 * length m" "0 < unat nr" "unat sz + 2 ^ a + unat nr \<le> 2 ^ 64"
    and "unat sz - unat start < n"
  shows "\<exists>r. find_next_zero_area n m sz start nr (mask a) = Inr r \<and> first_area m (unat sz) (unat start) (unat nr) a (unat r)"
  using assms(4)
proof (induction n arbitrary: start)
  case (Suc n)
  obtain z where z: "find_next_zero_bit m (unat sz) (unat start) = Inr z" "z \<le> unat sz" "unat start \<le> z \<or> z = unat sz"
    "\<And>n. unat start \<le> n \<Longrightarrow> n < z \<Longrightarrow> bit_at m n"
    by (rule find_next_zero_cases [OF assms(1), of "unat start"]) blast
  have "z < 2 ^ 64" using z(2) assms(2,3) by linarith
  then have zw: "unat (of_nat z :: u64) = z" by (simp add: unat_of_nat)
  define index where "index = ALIGN_MASK (of_nat z) (mask a)"
  have small: "unat (of_nat z :: u64) + 2 ^ a \<le> 2 ^ 64" using zw z(2) assms(3) by linarith
  note al = ALIGN_MASK_least [OF small, folded index_def, unfolded zw]
  have from_index: "unat index \<le> s" if "free_area m (unat sz) (unat nr) a s" "unat start \<le> s" for s
    using area_from_zero [OF z(4) z(3) assms(2) that] that(1) by (intro al(4)) (auto simp: free_area_def)
  have stop: "unat (index + nr) = unat index + unat nr" using al(3) z(2) assms(3) by (intro unat_add_lem [THEN iffD1]) simp
  show ?case
  proof (cases "sz < index + nr")
    case True
    have "\<not> free_area m (unat sz) (unat nr) a s" if "unat start \<le> s" for s
      using from_index [OF _ that] True stop by (auto simp: free_area_def word_less_nat_alt)
    then show ?thesis using True z(1) by (simp add: index_def [symmetric] Let_def first_area_def word_less_nat_alt)
  next
    case False
    then have fits: "unat index + unat nr \<le> unat sz" using stop by (simp add: word_less_nat_alt)
    have ge: "unat start \<le> unat index" using z(2,3) al(2) fits assms(2) by linarith
    have le: "unat (index + nr) \<le> 64 * length m" "unat index \<le> unat (index + nr)" using fits assms(1) stop by simp_all
    consider (none) "find_next_bit m (unat (index + nr)) (unat index) = Inr (unat (index + nr))" "\<not> some_in m (unat index) (unat (index + nr))"
      | (found) i where "find_next_bit m (unat (index + nr)) (unat index) = Inr i" "unat index \<le> i" "i < unat (index + nr)" "bit_at m i"
      using find_next_cases [OF le] by blast
    then show ?thesis
    proof cases
      case none
      have "free_area m (unat sz) (unat nr) a (unat index)" using none(2) al(1) fits stop by (simp add: free_area_def)
      then have "first_area m (unat sz) (unat start) (unat nr) a (unat index)"
        using ge fits from_index assms(2) by (auto simp: first_area_def dest: leD)
      then show ?thesis using z(1) none(1) False by (simp add: index_def [symmetric] Let_def)
    next
      case (found i)
      have "i < unat sz" using found(3) fits stop by simp
      then have "i + 1 < 2 ^ 64" using assms(2,3) by linarith
      then have iw: "unat (of_nat i :: u64) = i" "unat (of_nat i + 1 :: u64) = i + 1"
        by (simp_all add: unat_of_nat unat_word_ariths)
      have "unat sz - unat (of_nat i + 1 :: u64) < n" using iw(2) ge found(2) \<open>i < unat sz\<close> Suc.prems by linarith
      from Suc.IH [OF this] obtain r where r: "find_next_zero_area n m sz (of_nat i + 1) nr (mask a) = Inr r"
        "first_area m (unat sz) (i + 1) (unat nr) a (unat r)"
        unfolding iw(2) by blast
      have blocked: "\<not> free_area m (unat sz) (unat nr) a s" if "unat start \<le> s" "s < i + 1" for s
        using from_index [OF _ that(1)] area_blocked [of "unat index" s i "unat nr" m "unat sz" a] that(2) found(3,4) stop by auto
      have "first_area m (unat sz) (unat start) (unat nr) a (unat r)"
        by (rule first_area_later [OF r(2)]) (use ge found(2) blocked in simp_all)
      moreover have "of_nat i < index + nr" using found(3) iw(1) by (simp add: word_less_nat_alt)
      ultimately show ?thesis using z(1) found(1) False r(1) by (simp add: index_def [symmetric] Let_def)
    qed
  qed
qed simp

text \<open>
  C36. The search for a free area ends: with an alignment mask that is one less than a
  power of two and sizes that do not wrap around, it returns within \<open>size + 1\<close>
  passes, with the first aligned start, not before the given one, of \<open>nr\<close>
  clear bits within the bitmap, or with a value beyond the size if there is none.
\<close>

theorem find_next_zero_area_terminates:
  assumes "unat sz \<le> 64 * length m" "0 < unat nr" "unat sz + 2 ^ a + unat nr \<le> 2 ^ 64"
  shows "\<exists>r. bitmap_find_next_zero_area m sz start nr (mask a) = Inr r \<and>
     first_area m (unat sz) (unat start) (unat nr) a (unat r)"
  unfolding bitmap_find_next_zero_area_def by (rule find_next_zero_area_correct [OF assms]) simp

theorem find_next_zero_area_terminates_witness:
  "\<exists>r. bitmap_find_next_zero_area [0x1F, 0] 128 1 8 (mask 2) = Inr r \<and> first_area [0x1F, 0] 128 1 8 2 (unat r)"
  using find_next_zero_area_terminates [of 128 "[0x1F, 0]" 8 2 1] by simp

end
