(* ===== verification/Host_Utils.thy ===== *)
theory Host_Utils
  imports Interfaces "HOL-Library.Signed_Division"
begin

text \<open>
  The wide arithmetic of \<^verbatim>\<open>util/host-utils.c\<close> and \<^verbatim>\<open>include/qemu/host-utils.h\<close>: products of
  64-bit numbers, divisions of 128-bit numbers and shifts of them. Each exists twice: in
  terms of 64-bit words, and, where the compiler has 128-bit integers, in terms of
  those; the latter carry the suffix \<open>_int128\<close>. Signed overflow wraps around, as the
  sources are compiled to do.
\<close>

type_synonym u128 = "128 word"

section \<open>Products\<close>

definition mul64 :: "u64 \<Rightarrow> u64 \<Rightarrow> u64 \<times> u64" where
  "mul64 a b =
    (let rl = ucast (lower_32_bits a) * ucast (lower_32_bits b);
         rm = ucast (lower_32_bits a) * ucast (upper_32_bits b);
         rn = ucast (upper_32_bits a) * ucast (lower_32_bits b);
         rh = ucast (upper_32_bits a) * ucast (upper_32_bits b) :: u64;
         c = ucast (upper_32_bits rl) + ucast (lower_32_bits rm) + ucast (lower_32_bits rn) :: u64;
         rl = merge_u64 (lower_32_bits rl) (ucast c);
         c = drop_bit 32 c;
         c = c + ucast (upper_32_bits rm) + ucast (upper_32_bits rn) + ucast (lower_32_bits rh);
         rh = merge_u64 (ucast c) (upper_32_bits rh);
         rh = merge_u64 (lower_32_bits rh) (upper_32_bits rh + ucast (drop_bit 32 c)) in
     (rl, rh))"

definition mulu64 :: "u64 \<Rightarrow> u64 \<Rightarrow> u64 \<times> u64" where
  "mulu64 a b = mul64 a b"

definition muls64 :: "u64 \<Rightarrow> u64 \<Rightarrow> u64 \<times> u64" where
  "muls64 a b =
    (let (low, rh) = mul64 a b;
         rh = if b <s 0 then rh - a else rh;
         rh = if a <s 0 then rh - b else rh in
     (low, rh))"

definition mulu64_int128 :: "u64 \<Rightarrow> u64 \<Rightarrow> u64 \<times> u64" where
  "mulu64_int128 a b = (let r = ucast a * ucast b :: u128 in (ucast r, ucast (drop_bit 64 r)))"

definition muls64_int128 :: "u64 \<Rightarrow> u64 \<Rightarrow> u64 \<times> u64" where
  "muls64_int128 a b = (let r = scast a * scast b :: u128 in (ucast r, ucast (signed_drop_bit 64 r)))"

section \<open>Divisions\<close>

definition muldiv64 :: "u64 \<Rightarrow> u32 \<Rightarrow> u32 \<Rightarrow> u64 res" where
  "muldiv64 a b c =
    (let rl = ucast (lower_32_bits a) * ucast b :: u64;
         rh = ucast (upper_32_bits a) * ucast b :: u64;
         rh = rh + drop_bit 32 rl in
     if c = 0 then Inl DivByZero
     else let high = ucast (rh div ucast c);
              low = ucast ((push_bit 32 (rh mod ucast c) + (rl AND 0xffffffff)) div ucast c) in
          Inr (merge_u64 low high))"

definition muldiv64_int128 :: "u64 \<Rightarrow> u32 \<Rightarrow> u32 \<Rightarrow> u64 res" where
  "muldiv64_int128 a b c =
    (if c = 0 then Inl DivByZero else Inr (ucast ((ucast a * ucast b :: u128) div ucast c)))"

text \<open>The loop of the long division with \<open>n\<close> passes to go: one bit of the quotient each.\<close>

fun divu_loop :: "u64 \<Rightarrow> nat \<Rightarrow> u64 \<Rightarrow> u64 \<Rightarrow> u64 \<times> u64" where
  "divu_loop divisor 0 dhi dlo = (dlo, dhi)"
| "divu_loop divisor (Suc n) dhi dlo =
    (let carry = drop_bit 63 dhi;
         dhi = push_bit 1 dhi OR drop_bit 63 dlo;
         (dhi, carry) = if carry \<noteq> 0 \<or> divisor \<le> dhi then (dhi - divisor, 1) else (dhi, 0);
         dlo = push_bit 1 dlo OR carry in
     divu_loop divisor n dhi dlo)"

text \<open>The results are the overflow flag, and what the two pointers hold afterwards: quotient and remainder.\<close>

definition divu128 :: "u64 \<Rightarrow> u64 \<Rightarrow> u64 \<Rightarrow> bool \<times> u64 \<times> u64" where
  "divu128 low high divisor =
    (if divisor = 0 then (True, low, high)
     else if high = 0 then (False, low div divisor, low mod divisor)
     else if divisor < high then (True, low, high)
     else (False, divu_loop divisor 64 high low))"

definition divu128_int128 :: "u64 \<Rightarrow> u64 \<Rightarrow> u64 \<Rightarrow> bool \<times> u64 \<times> u64" where
  "divu128_int128 low high divisor =
    (if divisor = 0 then (True, low, high)
     else let dividend = push_bit 64 (ucast high) OR ucast low :: u128; result = dividend div ucast divisor in
       (0xffffffffffffffff < result, ucast result, ucast (dividend mod ucast divisor)))"

definition divs128 :: "u64 \<Rightarrow> u64 \<Rightarrow> u64 \<Rightarrow> bool \<times> u64 \<times> u64" where
  "divs128 low high divisor =
    (let sgn_dvdnd = high <s 0; sgn_divsr = divisor <s 0;
         (low, high) =
           if sgn_dvdnd
           then if NOT low = - 1 then (0, NOT high + 1) else (NOT low + 1, NOT high)
           else (low, high);
         divisor = if sgn_divsr then 0 - divisor else divisor;
         (overflow, low, high) = divu128 low high divisor;
         low = if sgn_dvdnd \<noteq> sgn_divsr then 0 - low else low in
     (overflow \<or> (low <s 0) \<noteq> (sgn_dvdnd \<noteq> sgn_divsr), low, high))"

text \<open>The low half is of a signed type and is extended with its sign.\<close>

definition divs128_int128 :: "u64 \<Rightarrow> u64 \<Rightarrow> u64 \<Rightarrow> bool \<times> u64 \<times> u64" where
  "divs128_int128 low high divisor =
    (if divisor = 0 then (True, low, high)
     else let dividend = push_bit 64 (scast high) OR scast low :: u128;
              result = word_of_int (sint dividend sdiv sint divisor) :: u128;
              low = ucast result in
       (result \<noteq> scast low, low, word_of_int (sint dividend smod sint divisor)))"

section \<open>Shifts\<close>

definition urshift :: "u64 \<Rightarrow> u64 \<Rightarrow> nat \<Rightarrow> u64 \<times> u64" where
  "urshift low high shift =
    (let shift = shift mod 128 in
     if shift = 0 then (low, high)
     else let h = drop_bit (shift mod 64) high in
       if 64 \<le> shift then (h, 0)
       else (drop_bit (shift mod 64) low OR push_bit (64 - shift mod 64) high, h))"

definition ulshift :: "u64 \<Rightarrow> u64 \<Rightarrow> nat \<Rightarrow> bool \<Rightarrow> u64 \<times> u64 \<times> bool" where
  "ulshift low high shift overflow =
    (let shift = shift mod 128 in
     if shift = 0 then (low, high, overflow)
     else let (l, h) = urshift low high (128 - shift);
              overflow = if l OR h \<noteq> 0 then True else overflow in
       if 64 \<le> shift then (0, push_bit (shift mod 64) low, overflow)
       else (push_bit shift low, drop_bit (64 - shift mod 64) low OR push_bit (shift mod 64) high, overflow))"

section \<open>Powers of two\<close>

definition is_power_of_2 :: "u64 \<Rightarrow> bool" where
  "is_power_of_2 val = (if val = 0 then False else val AND (val - 1) = 0)"

section \<open>Two halves as one number\<close>

definition join128 :: "u64 \<Rightarrow> u64 \<Rightarrow> u128" where
  "join128 low high = push_bit 64 (ucast high) OR ucast low"

lemma bit_join128: "n < 128 \<Longrightarrow> bit (join128 low high) n \<longleftrightarrow> (if n < 64 then bit low n else bit high (n - 64))"
  by (auto simp: join128_def bit_simps dest: bit_imp_le_length)

lemma join128_halves: "join128 (ucast r) (ucast (drop_bit 64 r)) = r"
  by (rule bit_word_eqI) (auto simp: bit_join128 bit_simps)

lemma halves_join128 [simp]: "ucast (join128 low high) = low" "ucast (drop_bit 64 (join128 low high)) = high"
  "ucast (signed_drop_bit 64 (join128 low high)) = high"
  by (rule bit_word_eqI, auto simp: bit_join128 bit_simps)+

lemma unat_u64_less: "unat (w :: u64) < 2 ^ 64"
  by (rule order_less_le_trans [OF unsigned_less]) simp

lemma unat_u32_less: "unat (w :: u32) < 2 ^ 32"
  by (rule order_less_le_trans [OF unsigned_less]) simp

lemma unat_ucast_up:
  assumes "LENGTH('a::len) \<le> LENGTH('b::len)"
  shows "unat (ucast (w :: 'a word) :: 'b word) = unat w"
proof -
  have "unat w < 2 ^ LENGTH('b)" by (rule order_less_le_trans [OF unsigned_less]) (use assms in simp)
  then show ?thesis by (simp add: unsigned_ucast_eq take_bit_nat_eq_self)
qed

lemma unat_join128: "unat (join128 low high) = unat high * 2 ^ 64 + unat low"
proof -
  have "join128 low high = push_bit 64 (ucast high) + ucast low"
    unfolding join128_def by (rule disjunctive_add [symmetric]) (auto simp: bit_simps dest: bit_imp_le_length)
  moreover have "unat (push_bit 64 (ucast high) :: u128) = unat high * 2 ^ 64"
    using unat_u64_less [of high] by (simp add: push_bit_eq_mult unat_mult_no_overflow unat_ucast_up mult.commute)
  ultimately show ?thesis
    using unat_u64_less [of high] unat_u64_less [of low] by (simp add: unat_plus_no_overflow unat_ucast_up)
qed

lemma unat_drop_bit: "unat (drop_bit n (w :: 'a::len word)) = unat w div 2 ^ n"
proof -
  have "unat (drop_bit n w) = drop_bit n (unat w)" by (rule bit_eqI) (auto simp: bit_unsigned_iff bit_drop_bit_eq dest: bit_imp_le_length)
  then show ?thesis by (simp only: drop_bit_eq_div)
qed

lemma unat_low32: "unat (ucast (c :: u64) :: u32) = unat c mod 2 ^ 32"
  by (simp add: unsigned_ucast_eq take_bit_eq_mod)

lemma unat_low64: "unat (ucast (c :: u128) :: u64) = unat c mod 2 ^ 64"
  by (simp add: unsigned_ucast_eq take_bit_eq_mod)

lemma unat_halves: "unat x = unat (upper_32_bits x) * 2 ^ 32 + unat (lower_32_bits x)"
proof -
  have "unat x div 2 ^ 32 < 2 ^ 32" using unat_u64_less [of x] by (intro less_mult_imp_div_less) simp
  then have "unat (lower_32_bits x) = unat x mod 2 ^ 32" "unat (upper_32_bits x) = unat x div 2 ^ 32"
    by (simp_all add: lower_32_bits_def upper_32_bits_def unat_low32 unat_drop_bit del: unat_div)
  then show ?thesis by simp
qed

lemma unat_merge_u64: "unat (merge_u64 l h) = unat h * 2 ^ 32 + unat l"
  by (subst unat_halves) simp

section \<open>Products are exact\<close>

lemma mul32_no_overflow: "unat (ucast (v :: u32) * ucast (w :: u32) :: u64) = unat v * unat w"
proof -
  have "unat v * unat w < 2 ^ 32 * 2 ^ 32"
    using unat_u32_less [of v] unat_u32_less [of w] by (intro mult_strict_mono') simp_all
  then show ?thesis by (simp add: unat_mult_no_overflow unat_ucast_up)
qed

lemma mul_split:
  fixes al ah bl bh :: nat
  shows "(ah * 2 ^ 32 + al) * (bh * 2 ^ 32 + bl) = al * bl + (al * bh + ah * bl) * 2 ^ 32 + ah * bh * 2 ^ 64"
  by (simp add: distrib_left distrib_right)

lemma mul64_exact: "unat (snd (mul64 a b)) * 2 ^ 64 + unat (fst (mul64 a b)) = unat a * unat b"
proof -
  define al ah bl bh where parts: "al = lower_32_bits a" "ah = upper_32_bits a" "bl = lower_32_bits b" "bh = upper_32_bits b"
  define rl rm rn rh where r: "rl = (ucast al * ucast bl :: u64)" "rm = (ucast al * ucast bh :: u64)"
    "rn = (ucast ah * ucast bl :: u64)" "rh = (ucast ah * ucast bh :: u64)"
  define c where "c = (ucast (upper_32_bits rl) + ucast (lower_32_bits rm) + ucast (lower_32_bits rn) :: u64)"
  define c' where "c' = drop_bit 32 c + ucast (upper_32_bits rm) + ucast (upper_32_bits rn) + ucast (lower_32_bits rh)"
  define t where "t = upper_32_bits rh + ucast (drop_bit 32 c')"
  have m: "mul64 a b = (merge_u64 (lower_32_bits rl) (ucast c), merge_u64 (ucast c') t)"
    unfolding mul64_def Let_def parts [symmetric] r [symmetric] c_def [symmetric] c'_def [symmetric] by (simp add: t_def)
  note b32 = unat_u32_less [of "upper_32_bits rl"] unat_u32_less [of "lower_32_bits rm"] unat_u32_less [of "lower_32_bits rn"]
    unat_u32_less [of "upper_32_bits rm"] unat_u32_less [of "upper_32_bits rn"] unat_u32_less [of "lower_32_bits rh"]
  have c: "unat c = unat (upper_32_bits rl) + unat (lower_32_bits rm) + unat (lower_32_bits rn)"
    using b32 by (simp add: c_def unat_plus_no_overflow unat_ucast_up)
  define ch where "ch = unat c div 2 ^ 32"
  have "ch < 4" unfolding ch_def using c b32 by (intro less_mult_imp_div_less) simp
  moreover have "unat (drop_bit 32 c) = ch" unfolding ch_def by (rule unat_drop_bit)
  ultimately have c': "unat c' = ch + unat (upper_32_bits rm) + unat (upper_32_bits rn) + unat (lower_32_bits rh)"
    using b32 by (simp add: c'_def unat_plus_no_overflow unat_ucast_up)
  define ch' where "ch' = unat c' div 2 ^ 32"
  have ch': "ch' < 4" unfolding ch'_def using c' b32 \<open>ch < 4\<close> by (intro less_mult_imp_div_less) simp
  have cl: "unat c = ch * 2 ^ 32 + unat (ucast c :: u32)" "unat c' = ch' * 2 ^ 32 + unat (ucast c' :: u32)"
    by (simp_all add: unat_low32 ch_def ch'_def)
  have "unat a * unat b = unat rl + (unat rm + unat rn) * 2 ^ 32 + unat rh * 2 ^ 64"
    unfolding unat_halves [of a] unat_halves [of b] mul_split parts [symmetric] by (simp add: r mul32_no_overflow)
  also have "\<dots> = unat (lower_32_bits rl) + unat (ucast c :: u32) * 2 ^ 32 + unat (ucast c' :: u32) * 2 ^ 64 +
      (unat (upper_32_bits rh) + ch') * 2 ^ 96"
    using c c' cl unat_halves [of rl] unat_halves [of rm] unat_halves [of rn] unat_halves [of rh] by simp
  finally have sum: "unat a * unat b = unat (lower_32_bits rl) + unat (ucast c :: u32) * 2 ^ 32 + unat (ucast c' :: u32) * 2 ^ 64 +
      (unat (upper_32_bits rh) + ch') * 2 ^ 96" .
  have "unat a * unat b < 2 ^ 64 * 2 ^ 64"
    using unat_u64_less [of a] unat_u64_less [of b] by (intro mult_strict_mono') simp_all
  then have "(unat (upper_32_bits rh) + ch') * 2 ^ 96 < 2 ^ 32 * 2 ^ 96" using sum by simp
  then have top: "unat (upper_32_bits rh) + ch' < 2 ^ 32" by (simp only: mult_less_cancel2)
  have "unat (drop_bit 32 c') = ch'" unfolding ch'_def by (rule unat_drop_bit)
  then have "unat (ucast (drop_bit 32 c') :: u32) = ch'" using ch' by (simp add: unat_low32)
  then have "unat t = unat (upper_32_bits rh) + ch'" using top by (simp add: t_def unat_plus_no_overflow)
  then show ?thesis unfolding m using sum by (simp add: unat_merge_u64)
qed

lemma mul64_join: "join128 (fst (mul64 a b)) (snd (mul64 a b)) = ucast a * ucast b"
proof (rule unat_inj_iff [THEN iffD1])
  have "unat a * unat b < 2 ^ 64 * 2 ^ 64"
    using unat_u64_less [of a] unat_u64_less [of b] by (intro mult_strict_mono') simp_all
  then show "unat (join128 (fst (mul64 a b)) (snd (mul64 a b))) = unat (ucast a * ucast b :: u128)"
    unfolding unat_join128 mul64_exact by (simp add: unat_mult_no_overflow unat_ucast_up)
qed

lemma mulu64_equivalent: "mulu64 a b = mulu64_int128 a b"
  unfolding mulu64_def mulu64_int128_def Let_def mul64_join [symmetric] by simp

text \<open>Sign extension subtracts \<open>2 ^ 64\<close>, so a signed factor costs the other one in the high half.\<close>

lemma sless_zero_iff: "(a :: u64) <s 0 \<longleftrightarrow> bit a 63"
  using bit_last_iff [of a] by (simp add: word_sless_alt)

lemma scast_eq_ucast: "(scast (a :: u64) :: u128) = ucast a - (if a <s 0 then 2 ^ 64 else 0)"
proof (cases "a <s 0")
  case True
  have "(scast a :: u128) = push_bit 64 (- 1) OR ucast a"
  proof (rule bit_word_eqI)
    fix n assume "n < LENGTH(128)"
    then show "bit (scast a :: u128) n = bit (push_bit 64 (- 1) OR ucast a :: u128) n"
      using True by (cases "n < 64"; cases "n = 63") (auto simp: sless_zero_iff bit_simps min_def dest: bit_imp_le_length)
  qed
  also have "\<dots> = push_bit 64 (- 1) + ucast a"
    by (rule disjunctive_add [symmetric]) (auto simp: bit_simps dest: bit_imp_le_length)
  finally show ?thesis using True by (simp add: push_bit_eq_mult)
next
  case False
  have "(scast a :: u128) = ucast a"
  proof (rule bit_word_eqI)
    fix n assume "n < LENGTH(128)"
    then show "bit (scast a :: u128) n = bit (ucast a :: u128) n"
      using False by (cases "n < 64"; cases "n = 63") (auto simp: sless_zero_iff bit_simps min_def dest: bit_imp_le_length)
  qed
  then show ?thesis using False by simp
qed

lemma join128_plus: "join128 low high = 2 ^ 64 * ucast high + ucast low"
proof -
  have "join128 low high = push_bit 64 (ucast high) + ucast low"
    unfolding join128_def by (rule disjunctive_add [symmetric]) (auto simp: bit_simps dest: bit_imp_le_length)
  then show ?thesis by (simp add: push_bit_eq_mult mult.commute)
qed

lemma high_plus: "(2 :: u128) ^ 64 * ucast (d + x :: u64) = 2 ^ 64 * ucast d + 2 ^ 64 * ucast x"
proof -
  define X where "X = (2 :: u128) ^ 64"
  have XX: "X * X = 0" by (simp add: X_def)
  have u: "(ucast w :: u128) = of_nat (unat w)" for w :: u64 by simp
  define s where "s = unat d + unat x"
  have "(of_nat s :: u128) = of_nat (s div 2 ^ 64 * 2 ^ 64 + s mod 2 ^ 64)" by (simp only: div_mult_mod_eq)
  then have "(of_nat s :: u128) = of_nat (s div 2 ^ 64) * X + of_nat (s mod 2 ^ 64)"
    by (simp only: of_nat_add of_nat_mult of_nat_power of_nat_numeral X_def)
  then have "X * of_nat s = of_nat (s div 2 ^ 64) * (X * X) + X * of_nat (s mod 2 ^ 64)"
    by (simp only: distrib_left mult.left_commute)
  moreover have "unat (d + x) = s mod 2 ^ 64" by (simp add: s_def unat_word_ariths)
  ultimately have "X * ucast (d + x) = X * of_nat s" unfolding u XX by simp
  then show ?thesis unfolding u s_def X_def by (simp only: of_nat_add distrib_left)
qed

lemma high_minus: "(2 :: u128) ^ 64 * ucast (high - x :: u64) = 2 ^ 64 * ucast high - 2 ^ 64 * ucast x"
  using high_plus [of "high - x" x] by (simp add: eq_diff_eq)

lemma muls64_equivalent: "muls64 a b = muls64_int128 a b"
proof -
  obtain low high where m: "mul64 a b = (low, high)" by fastforce
  have "join128 (fst (muls64 a b)) (snd (muls64 a b)) = scast a * scast b"
  proof -
    define X where "X = (2 :: u128) ^ 64"
    have XX: "X * X = 0" by (simp add: X_def)
    have e: "X * ucast high + ucast low = ucast a * ucast b"
      using mul64_join [of a b] m by (simp only: join128_plus X_def fst_conv snd_conv)
    note minus = high_minus [folded X_def] and join = join128_plus [folded X_def] and ext = scast_eq_ucast [folded X_def]
    have "(ucast a - X) * (ucast b - X) = ucast a * ucast b - X * ucast a - X * ucast b + X * X"
      "(ucast a - X) * ucast b = ucast a * ucast b - X * ucast b" "ucast a * (ucast b - X) = ucast a * ucast b - X * ucast a"
      by (simp_all add: left_diff_distrib right_diff_distrib mult.commute)
    then show ?thesis
      by (cases "a <s 0"; cases "b <s 0") (simp_all add: muls64_def m ext join minus XX flip: e)
  qed
  then show ?thesis
    unfolding muls64_int128_def Let_def by (metis halves_join128 prod.collapse)
qed

lemma div_by_halves:
  fixes h l c :: nat
  assumes "0 < c"
  shows "(h * 2 ^ 32 + l) div c = h div c * 2 ^ 32 + (h mod c * 2 ^ 32 + l) div c"
proof -
  define q k where qk: "q = h div c" "k = h mod c"
  have "h = q * c + k" by (simp add: qk)
  then have "h * 2 ^ 32 + l = q * 2 ^ 32 * c + (k * 2 ^ 32 + l)" by (simp add: distrib_right)
  then show ?thesis unfolding qk [symmetric] using assms by (simp only: div_mult_self3)
qed

lemma unat_int128_quotient: "unat (ucast ((ucast (a :: u64) * ucast (b :: u32) :: u128) div ucast (c :: u32)) :: u64) = (unat a * unat b div unat c) mod 2 ^ 64"
proof -
  have "unat a * unat b < 2 ^ 64 * 2 ^ 32"
    using unat_u64_less [of a] unat_u32_less [of b] by (intro mult_strict_mono') simp_all
  then have "unat (ucast a * ucast b :: u128) = unat a * unat b" by (simp add: unat_mult_no_overflow unat_ucast_up)
  then show ?thesis by (simp add: unat_low64 unat_div unat_ucast_up)
qed

text \<open>The dividend in two parts: what the upper half gives, with the carry of the lower, and the rest.\<close>

lemma muldiv_parts:
  fixes a :: u64 and b :: u32
  defines "rl \<equiv> ucast (lower_32_bits a) * ucast b :: u64"
  defines "rh \<equiv> ucast (upper_32_bits a) * ucast b + drop_bit 32 rl :: u64"
  shows "unat a * unat b = unat rh * 2 ^ 32 + unat rl mod 2 ^ 32"
proof -
  have rl: "unat rl = unat (lower_32_bits a) * unat b" unfolding rl_def by (rule mul32_no_overflow)
  have "unat (upper_32_bits a) * unat b \<le> (2 ^ 32 - 1) * (2 ^ 32 - 1)"
    using unat_u32_less [of "upper_32_bits a"] unat_u32_less [of b] by (intro mult_le_mono) simp_all
  moreover have carry: "unat rl div 2 ^ 32 < 2 ^ 32" using unat_u64_less [of rl] by (intro less_mult_imp_div_less) simp
  ultimately have rh: "unat rh = unat (upper_32_bits a) * unat b + unat rl div 2 ^ 32"
    unfolding rh_def by (subst unat_plus_no_overflow) (simp_all add: mul32_no_overflow unat_drop_bit)
  have "unat a * unat b = unat (upper_32_bits a) * unat b * 2 ^ 32 + unat rl"
    unfolding rl by (subst unat_halves [of a]) (simp add: distrib_right)
  also have "unat rl = unat rl div 2 ^ 32 * 2 ^ 32 + unat rl mod 2 ^ 32" by (rule div_mult_mod_eq [symmetric])
  finally show ?thesis unfolding rh by (simp add: distrib_right)
qed

lemma mod_by_parts: "x < K \<Longrightarrow> q mod K * K + x = (q * K + x) mod (K * (K :: nat))"
  using mod_mult2_eq [of "q * K + x" K K] by (simp add: mult.commute)

lemma mod_by_halves: "x < 2 ^ 32 \<Longrightarrow> q mod 2 ^ 32 * 2 ^ 32 + x = (q * 2 ^ 32 + x) mod (2 ^ 64 :: nat)"
proof -
  have "(2 :: nat) ^ 64 = 2 ^ 32 * 2 ^ 32" by (simp flip: power_add)
  then show "x < 2 ^ 32 \<Longrightarrow> ?thesis" by (simp only: mod_by_parts)
qed

lemma muldiv_words:
  fixes rh rl :: u64 and c :: u32
  assumes "c \<noteq> 0"
  shows "unat (merge_u64 (ucast ((push_bit 32 (rh mod ucast c) + (rl AND 0xffffffff)) div ucast c)) (ucast (rh div ucast c))) =
     (unat rh * 2 ^ 32 + unat rl mod 2 ^ 32) div unat c mod 2 ^ 64"
proof -
  define C where "C = unat c"
  have C: "0 < C" "C < 2 ^ 32" using assms unat_u32_less [of c] by (auto simp: C_def unat_gt_0)
  have ucast_c: "unat (ucast c :: u64) = C" by (simp add: unat_ucast_up C_def)
  define M where "M = unat rh mod C"
  define L where "L = unat rl mod 2 ^ 32"
  have M: "M < C" using C by (simp add: M_def)
  then have "(M + 1) * 2 ^ 32 \<le> C * 2 ^ 32" by (intro mult_le_mono1) simp
  moreover have L: "L < 2 ^ 32" by (simp add: L_def)
  ultimately have small: "M * 2 ^ 32 + L < C * 2 ^ 32" by simp
  then have quot: "(M * 2 ^ 32 + L) div C < 2 ^ 32" by (intro less_mult_imp_div_less) (simp add: mult.commute)
  have "unat (push_bit 32 (rh mod ucast c)) = M * 2 ^ 32"
    using M C by (simp add: push_bit_eq_mult unat_mult_no_overflow unat_mod_distrib ucast_c M_def [symmetric] mult.commute)
  moreover have "unat (rl AND 0xffffffff) = L"
  proof -
    have "rl AND 0xffffffff = take_bit 32 rl" by (simp add: take_bit_eq_mask mask_eq_exp_minus_1)
    moreover have "unat (take_bit 32 rl) = take_bit 32 (unat rl)" by (rule unsigned_take_bit_eq)
    moreover have "take_bit 32 (unat rl) = L" unfolding L_def by (rule take_bit_eq_mod)
    ultimately show ?thesis by (simp only:)
  qed
  ultimately have "unat (push_bit 32 (rh mod ucast c) + (rl AND 0xffffffff)) = M * 2 ^ 32 + L"
    using small C by (simp add: unat_plus_no_overflow)
  then have "unat (merge_u64 (ucast ((push_bit 32 (rh mod ucast c) + (rl AND 0xffffffff)) div ucast c)) (ucast (rh div ucast c))) =
      (unat rh div C) mod 2 ^ 32 * 2 ^ 32 + (M * 2 ^ 32 + L) div C"
    using quot by (simp add: unat_merge_u64 unat_low32 unat_div ucast_c)
  also have "\<dots> = (unat rh div C * 2 ^ 32 + (M * 2 ^ 32 + L) div C) mod 2 ^ 64"
    using quot by (rule mod_by_halves)
  also have "unat rh div C * 2 ^ 32 + (M * 2 ^ 32 + L) div C = (unat rh * 2 ^ 32 + L) div C"
    unfolding M_def by (rule div_by_halves [OF C(1), symmetric])
  finally show ?thesis unfolding L_def C_def .
qed

lemma muldiv64_equivalent: "muldiv64 a b c = muldiv64_int128 a b c"
proof (cases "c = 0")
  case False
  define rl where "rl = (ucast (lower_32_bits a) * ucast b :: u64)"
  define rh where "rh = (ucast (upper_32_bits a) * ucast b :: u64) + drop_bit 32 rl"
  have "unat (merge_u64 (ucast ((push_bit 32 (rh mod ucast c) + (rl AND 0xffffffff)) div ucast c)) (ucast (rh div ucast c))) =
      unat (ucast ((ucast a * ucast b :: u128) div ucast c) :: u64)"
    unfolding muldiv_words [OF False] unat_int128_quotient muldiv_parts [of a b] rl_def rh_def ..
  then have "merge_u64 (ucast ((push_bit 32 (rh mod ucast c) + (rl AND 0xffffffff)) div ucast c)) (ucast (rh div ucast c)) =
      ucast ((ucast a * ucast b :: u128) div ucast c)"
    by (simp only: unat_inj_iff)
  then show ?thesis
    using False unfolding muldiv64_def muldiv64_int128_def Let_def rl_def [symmetric] rh_def [symmetric] by (simp only: if_False)
qed (simp add: muldiv64_def muldiv64_int128_def Let_def)

section \<open>Long division\<close>

text \<open>The loop on natural numbers: \<open>h\<close> is the remainder so far, the bits of the dividend leave \<open>x\<close> at the top as those of the quotient enter at the bottom.\<close>

fun nat_div_loop :: "nat \<Rightarrow> nat \<Rightarrow> nat \<Rightarrow> nat \<Rightarrow> nat \<times> nat" where
  "nat_div_loop d 0 h x = (x, h)"
| "nat_div_loop d (Suc n) h x =
    (let t = 2 * h + x div 2 ^ 63; y = 2 * (x mod 2 ^ 63) in
     if d \<le> t then nat_div_loop d n (t - d) (y + 1) else nat_div_loop d n t y)"

lemma div_shifted:
  fixes y k e :: nat
  assumes "e < 2" "k \<le> 63"
  shows "(2 * y + e) div 2 ^ (64 - k) = y div 2 ^ (63 - k)" "(2 * y + e) mod 2 ^ (64 - k) = 2 * (y mod 2 ^ (63 - k)) + e"
proof -
  have p: "(2 :: nat) ^ (64 - k) = 2 * 2 ^ (63 - k)" using assms(2) by (simp flip: power_Suc add: Suc_diff_le)
  have "(2 * y + e) div 2 = y" "(2 * y + e) mod 2 = e" using assms(1) by simp_all
  then show "(2 * y + e) div 2 ^ (64 - k) = y div 2 ^ (63 - k)" "(2 * y + e) mod 2 ^ (64 - k) = 2 * (y mod 2 ^ (63 - k)) + e"
    unfolding p by (simp_all only: div_mult2_eq mod_mult2_eq)
qed

lemma split_top:
  fixes x k :: nat
  assumes "k \<le> 63"
  shows "x div 2 ^ (63 - k) = x div 2 ^ 63 * 2 ^ k + x mod 2 ^ 63 div 2 ^ (63 - k)" "x mod 2 ^ (63 - k) = x mod 2 ^ 63 mod 2 ^ (63 - k)"
proof -
  have p: "(2 :: nat) ^ 63 = 2 ^ (63 - k) * 2 ^ k" using assms by (simp flip: power_add)
  define q y where qy: "q = x div 2 ^ 63" "y = x mod 2 ^ 63"
  have x: "x = 2 ^ (63 - k) * (q * 2 ^ k) + y" unfolding qy by (metis div_mult_mod_eq mult.assoc mult.commute p)
  show "x div 2 ^ (63 - k) = x div 2 ^ 63 * 2 ^ k + x mod 2 ^ 63 div 2 ^ (63 - k)"
    unfolding qy [symmetric] by (subst x) simp
  show "x mod 2 ^ (63 - k) = x mod 2 ^ 63 mod 2 ^ (63 - k)" unfolding qy [symmetric] by (subst x) simp
qed

lemma nat_div_loop_correct:
  assumes "h < d" "n \<le> 64" "x < 2 ^ 64"
  shows "nat_div_loop d n h x =
     (x mod 2 ^ (64 - n) * 2 ^ n + (h * 2 ^ n + x div 2 ^ (64 - n)) div d, (h * 2 ^ n + x div 2 ^ (64 - n)) mod d)"
  using assms
proof (induction n arbitrary: h x)
  case (Suc k)
  define b y r where byr: "b = x div 2 ^ 63" "y = x mod 2 ^ 63" "r = y div 2 ^ (63 - k)"
  define t where "t = 2 * h + b"
  define e where "e = (if d \<le> t then 1 else 0 :: nat)"
  define h' where "h' = t - e * d"
  have k: "k \<le> 63" "k \<le> 64" "64 - Suc k = 63 - k" using Suc.prems(2) by simp_all
  have "b < 2" unfolding byr using Suc.prems(3) by (intro less_mult_imp_div_less) simp
  then have "t < 2 * d" using Suc.prems(1) by (simp add: t_def)
  then have h': "h' < d" "t = h' + e * d" by (auto simp: h'_def e_def)
  have e: "e < 2" by (simp add: e_def)
  have "y < 2 ^ 63" by (simp add: byr)
  then have y': "2 * y + e < 2 ^ 64" using e by simp
  have step: "nat_div_loop d (Suc k) h x = nat_div_loop d k h' (2 * y + e)"
    unfolding nat_div_loop.simps byr [symmetric] t_def [symmetric] Let_def by (simp add: e_def h'_def)
  define N where "N = h' * 2 ^ k + r"
  have "nat_div_loop d k h' (2 * y + e) = ((2 * (y mod 2 ^ (63 - k)) + e) * 2 ^ k + N div d, N mod d)"
    using Suc.IH [OF h'(1) k(2) y'] div_shifted [OF e k(1), of y] by (simp only: byr N_def)
  moreover have "h * 2 ^ Suc k + x div 2 ^ (64 - Suc k) = N + e * 2 ^ k * d"
  proof -
    have "h * 2 ^ Suc k + x div 2 ^ (64 - Suc k) = t * 2 ^ k + r"
      unfolding k(3) split_top(1) [OF k(1), of x] byr [symmetric] by (simp add: t_def distrib_right)
    also have "\<dots> = N + e * 2 ^ k * d" unfolding h'(2) N_def by (simp add: distrib_right)
    finally show ?thesis .
  qed
  moreover have "x mod 2 ^ (64 - Suc k) = y mod 2 ^ (63 - k)" unfolding k(3) split_top(2) [OF k(1), of x] byr ..
  moreover have "(N + e * 2 ^ k * d) div d = N div d + e * 2 ^ k" "(N + e * 2 ^ k * d) mod d = N mod d"
    using Suc.prems(1) by simp_all
  ultimately show ?case unfolding step by (simp add: distrib_right)
qed simp

text \<open>The words of the loop are the numbers of it.\<close>

lemma shift_in:
  fixes v e :: u64
  assumes "unat e < 2"
  shows "unat (push_bit 1 v OR e) = 2 * (unat v mod 2 ^ 63) + unat e"
proof -
  have "\<not> bit e n" if "0 < n" for n
  proof -
    have "(2 :: nat) ^ 1 \<le> 2 ^ n" using that by (intro power_increasing) simp_all
    then have "unat e < 2 ^ n" using assms by simp
    then show ?thesis by (rule not_bit_small)
  qed
  then have "push_bit 1 v OR e = push_bit 1 v + e"
    by (intro disjunctive_add [symmetric]) (metis bit_push_bit_iff not_one_le_zero neq0_conv)
  moreover have "unat (push_bit 1 v) = 2 * (unat v mod 2 ^ 63)"
  proof -
    have "unat (push_bit 1 v) = 2 * unat v mod (2 * 2 ^ 63)" by (simp add: push_bit_eq_mult unat_word_ariths mult.commute)
    then show ?thesis by (simp only: mult_mod_right)
  qed
  moreover have "unat v mod 2 ^ 63 < 2 ^ 63" by simp
  ultimately show ?thesis using assms by (simp add: unat_plus_no_overflow)
qed

lemma divu_loop_nat:
  assumes "dhi < divisor"
  shows "divu_loop divisor n dhi dlo = (q, r) \<Longrightarrow> nat_div_loop (unat divisor) n (unat dhi) (unat dlo) = (unat q, unat r)"
  using assms
proof (induction n arbitrary: dhi dlo)
  case (Suc n)
  define d t where dt: "d = unat divisor" "t = 2 * unat dhi + unat dlo div 2 ^ 63"
  define w where "w = push_bit 1 dhi OR drop_bit 63 dlo"
  define c where "c = unat dhi div 2 ^ 63"
  define h where "h = (if d \<le> t then w - divisor else w)"
  define e where "e = (if d \<le> t then 1 else 0 :: u64)"
  have dlo: "unat (drop_bit 63 dlo) = unat dlo div 2 ^ 63" by (rule unat_drop_bit)
  have b: "unat dlo div 2 ^ 63 < 2" using unat_u64_less [of dlo] by (intro less_mult_imp_div_less) simp
  have "c < 2" unfolding c_def using unat_u64_less [of dhi] by (intro less_mult_imp_div_less) simp
  then have c: "c = 0 \<or> c = 1" by auto
  have "unat dhi = c * 2 ^ 63 + unat dhi mod 2 ^ 63" unfolding c_def by (rule div_mult_mod_eq [symmetric])
  then have tw: "t = c * 2 ^ 64 + unat w"
    using shift_in [of "drop_bit 63 dlo" dhi] b unfolding dlo w_def dt by simp
  have t: "t < 2 * d" using Suc.prems(2) b unfolding dt by (simp add: word_less_nat_alt)
  have carry: "drop_bit 63 dhi \<noteq> 0 \<longleftrightarrow> c \<noteq> 0" unfolding c_def unat_drop_bit [symmetric] by (metis unat_eq_zero)
  have dW: "d < 2 ^ 64" "unat w < 2 ^ 64" unfolding dt by (rule unat_u64_less)+
  have cond: "drop_bit 63 dhi \<noteq> 0 \<or> divisor \<le> w \<longleftrightarrow> d \<le> t"
    using c dW tw unfolding carry word_le_nat_alt dt(1) [symmetric] by auto
  have h: "unat h = (if d \<le> t then t - d else t)"
    using c tw t dW dt(1) [symmetric] by (auto simp: h_def unat_sub_if')
  have "unat (push_bit 1 dlo OR e) = 2 * (unat dlo mod 2 ^ 63) + (if d \<le> t then 1 else 0)"
    using shift_in [of e dlo] by (auto simp: e_def)
  moreover have "divu_loop divisor (Suc n) dhi dlo = divu_loop divisor n h (push_bit 1 dlo OR e)"
    unfolding divu_loop.simps Let_def w_def [symmetric] cond by (simp only: h_def e_def split: if_split) simp
  moreover have "h < divisor" using h t by (auto simp: word_less_nat_alt dt(1) [symmetric])
  ultimately have "nat_div_loop d n (if d \<le> t then t - d else t) (2 * (unat dlo mod 2 ^ 63) + (if d \<le> t then 1 else 0)) = (unat q, unat r)"
    using Suc.IH [of h "push_bit 1 dlo OR e"] Suc.prems(1) h unfolding dt(1) by simp
  then show ?case unfolding dt(1) [symmetric] nat_div_loop.simps Let_def dt(2) [symmetric] by (auto split: if_splits)
qed simp

lemma divu128_correct:
  assumes "high < divisor"
  obtains q r where "divu128 low high divisor = (False, q, r)"
    "unat q = (unat high * 2 ^ 64 + unat low) div unat divisor" "unat r = (unat high * 2 ^ 64 + unat low) mod unat divisor"
proof (cases "high = 0")
  case True
  then show ?thesis using assms by (intro that) (auto simp: divu128_def unat_div unat_mod_distrib)
next
  case False
  obtain q r where qr: "divu_loop divisor 64 high low = (q, r)" by fastforce
  have "unat high < unat divisor" using assms by (simp add: word_less_nat_alt)
  from nat_div_loop_correct [OF this le_refl unat_u64_less, of low] divu_loop_nat [OF assms qr]
  have "unat q = (unat high * 2 ^ 64 + unat low) div unat divisor" "unat r = (unat high * 2 ^ 64 + unat low) mod unat divisor"
    by simp_all
  moreover have "divu128 low high divisor = (False, q, r)"
    using False assms qr by (auto simp: divu128_def)
  ultimately show ?thesis using that by blast
qed

lemma divu128_int128_unat:
  fixes low high divisor :: u64
  defines "D \<equiv> unat high * 2 ^ 64 + unat low"
  assumes "divisor \<noteq> 0"
  obtains q r where "divu128_int128 low high divisor = (2 ^ 64 \<le> D div unat divisor, q, r)"
    "unat q = D div unat divisor mod 2 ^ 64" "unat r = D mod unat divisor"
proof -
  define w where "w = join128 low high div ucast divisor"
  define v where "v = join128 low high mod ucast divisor"
  have d: "unat (ucast divisor :: u128) = unat divisor" by (simp add: unat_ucast_up)
  have w: "unat w = D div unat divisor" "unat v = D mod unat divisor"
    unfolding w_def v_def D_def by (simp_all only: unat_div unat_mod_distrib unat_join128 d)
  have "unat v < unat divisor" using assms(2) w(2) by (simp add: unat_gt_0)
  then have small: "unat v < 2 ^ 64" using unat_u64_less [of divisor] by simp
  have "0xffffffffffffffff < w \<longleftrightarrow> 2 ^ 64 \<le> unat w" by (simp add: word_less_nat_alt) arith
  then have "divu128_int128 low high divisor = (2 ^ 64 \<le> D div unat divisor, ucast w, ucast v)"
    using assms(2) unfolding w(1) [symmetric] divu128_int128_def Let_def join128_def [symmetric] w_def [symmetric] v_def [symmetric] by simp
  then show ?thesis using that [of "ucast w" "ucast v"] w small by (simp add: unat_low64)
qed

lemma quotient_fits:
  fixes low high divisor :: u64
  assumes "divisor \<noteq> 0"
  shows "2 ^ 64 \<le> (unat high * 2 ^ 64 + unat low) div unat divisor \<longleftrightarrow> divisor \<le> high"
proof -
  define h l d where hld: "h = unat high" "l = unat low" "d = unat divisor"
  define K where "K = (2 :: nat) ^ 64"
  have d: "0 < d" "l < K" using assms unat_u64_less [of low] by (simp_all add: hld K_def unat_gt_0)
  have "K \<le> (h * K + l) div d \<longleftrightarrow> K * d \<le> h * K + l" using d(1) by (rule less_eq_div_iff_mult_less_eq)
  also have "\<dots> \<longleftrightarrow> d \<le> h"
  proof
    assume "K * d \<le> h * K + l"
    then have "K * d < K * (h + 1)" using d(2) by (simp add: mult.commute)
    then show "d \<le> h" by (simp only: mult_less_cancel1) simp
  next
    assume "d \<le> h"
    then have "K * d \<le> K * h" by (rule mult_le_mono2)
    then show "K * d \<le> h * K + l" unfolding mult.commute [of h K] by (rule trans_le_add1)
  qed
  finally show ?thesis unfolding hld K_def word_le_nat_alt .
qed

lemma divu128_equivalent:
  assumes "high \<noteq> divisor \<or> divisor = 0"
  shows "fst (divu128 low high divisor) = fst (divu128_int128 low high divisor) \<and>
     (\<not> fst (divu128 low high divisor) \<longrightarrow> divu128 low high divisor = divu128_int128 low high divisor)"
proof (cases "divisor = 0")
  case True
  then show ?thesis by (simp add: divu128_def divu128_int128_def)
next
  case False
  obtain q r where i: "divu128_int128 low high divisor = (2 ^ 64 \<le> (unat high * 2 ^ 64 + unat low) div unat divisor, q, r)"
    "unat q = (unat high * 2 ^ 64 + unat low) div unat divisor mod 2 ^ 64" "unat r = (unat high * 2 ^ 64 + unat low) mod unat divisor"
    by (rule divu128_int128_unat [OF False, of low high]) blast
  note i = i(1) [unfolded quotient_fits [OF False]] i(2,3)
  show ?thesis
  proof (cases "high < divisor")
    case True
    obtain q' r' where u: "divu128 low high divisor = (False, q', r')"
      "unat q' = (unat high * 2 ^ 64 + unat low) div unat divisor" "unat r' = (unat high * 2 ^ 64 + unat low) mod unat divisor"
      using divu128_correct [OF True] .
    have "unat q = unat q'" using i(2) u(2) unat_u64_less [of q'] by simp
    then have "q = q'" "r = r'" using i(3) u(3) unat_inj_iff by metis+
    then show ?thesis using i(1) u(1) True by simp
  next
    case high: False
    then have "divisor < high" using assms False by simp
    then have "divu128 low high divisor = (True, low, high)" using False by (auto simp: divu128_def)
    then show ?thesis using i(1) high by simp
  qed
qed

text \<open>
  C37. The arithmetic on 64-bit words computes what the arithmetic on 128-bit integers
  computes: the unsigned and the signed product of two words, the quotient of a 96-bit
  product by a 32-bit divisor, and, unless the high half equals the divisor, the overflow
  flag of the unsigned division of 128 by 64 bits and its quotient and remainder. When the
  high half equals the divisor, and in the signed division, the variants differ.
\<close>

theorem wide_arithmetic_equivalent:
  "mulu64 a b = mulu64_int128 a b \<and> muls64 a b = muls64_int128 a b \<and> muldiv64 a m c = muldiv64_int128 a m c \<and>
   (high = divisor \<or> fst (divu128 low high divisor) = fst (divu128_int128 low high divisor) \<and>
     (if fst (divu128 low high divisor) then True else divu128 low high divisor = divu128_int128 low high divisor))"
  using mulu64_equivalent muls64_equivalent muldiv64_equivalent divu128_equivalent [of high divisor low] by auto

text \<open>
  C38. The unsigned division of 128 by 64 bits is exact whenever the quotient fits: quotient
  and remainder satisfy the division equation without any wrap-around, and the remainder
  is less than the divisor.
\<close>

theorem divu128_in_bounds:
  assumes "high < divisor"
  shows "\<exists>q r. divu128 low high divisor = (False, q, r) \<and>
     unat q * unat divisor + unat r = unat high * 2 ^ 64 + unat low \<and> unat r < unat divisor"
proof -
  have "0 < unat divisor" using assms by (simp add: word_less_nat_alt)
  then show ?thesis using divu128_correct [OF assms, of low] by (metis div_mult_mod_eq mod_less_divisor)
qed

theorem divu128_in_bounds_witness:
  "\<exists>q r. divu128 5 6 7 = (False, q, r) \<and> unat q * 7 + unat r = 6 * 2 ^ 64 + 5 \<and> unat r < 7"
  using divu128_in_bounds [of 6 7 5] by simp

lemma minus_one_by:
  fixes d :: u64
  assumes "1 <s d"
  shows "\<not> d <s 0" "d \<noteq> 0" "1 div d = 0" "1 mod d = 1" "- 1 sdiv sint d = 0" "- 1 smod sint d = - 1"
proof -
  have s: "1 < sint d" using assms by (simp add: word_sless_alt)
  then show "\<not> d <s 0" "d \<noteq> 0" by (auto simp: word_sless_alt)
  then have "d \<noteq> 1" using s by auto
  then have u: "1 < unat d" using \<open>d \<noteq> 0\<close> by (metis less_one nat_neq_iff unat_1 unat_eq_zero unat_inj_iff)
  show "1 div d = 0" "1 mod d = 1" using u by (simp_all add: unat_inj_iff [symmetric] unat_div unat_mod_distrib)
  show "- 1 sdiv sint d = 0" using s by (simp add: signed_divide_int_def)
  show "- 1 smod sint d = - 1" using s by (simp add: signed_modulo_int_def)
qed

lemma sign_extended:
  fixes low high :: u64
  assumes "bit low 63"
  shows "(push_bit 64 (scast high) OR scast low :: u128) = scast low"
proof (rule bit_word_eqI)
  fix n assume "n < LENGTH(128)"
  then show "bit (push_bit 64 (scast high) OR scast low :: u128) n = bit (scast low :: u128) n"
    using assms by (auto simp: bit_or_iff bit_push_bit_iff bit_signed_iff min_def)
qed

text \<open>
  C39. The divisions go wrong at three places. When the high half equals the divisor the
  unsigned division by words reports no overflow although the quotient has more than 64
  bits. The signed division by words reports an overflow for a quotient of zero when the
  signs differ. And the signed division by 128-bit integers extends the low half with its
  sign, so that a low half with its top bit set replaces the high half by ones.
\<close>

theorem divisions_go_wrong:
  assumes "divisor \<noteq> 0" "1 <s d" "bit low' 63"
  shows "fst (divu128 low divisor divisor) = False \<and> 2 ^ 64 \<le> (unat divisor * 2 ^ 64 + unat low) div unat divisor \<and>
     fst (divu128_int128 low divisor divisor) \<and>
     divs128 (- 1) (- 1) d = (True, 0, 1) \<and> divs128_int128 (- 1) (- 1) d = (False, 0, - 1) \<and>
     divs128_int128 low' high d = divs128_int128 low' (- 1) d"
proof (intro conjI)
  show "fst (divu128 low divisor divisor) = False" using assms(1) by (simp add: divu128_def)
  show "2 ^ 64 \<le> (unat divisor * 2 ^ 64 + unat low) div unat divisor" using quotient_fits [OF assms(1)] by blast
  then show "fst (divu128_int128 low divisor divisor)"
    by (rule_tac divu128_int128_unat [OF assms(1), of low divisor]) simp
  show "divs128 (- 1) (- 1) d = (True, 0, 1)" using minus_one_by [OF assms(2)] by (simp add: divs128_def divu128_def)
  show "divs128_int128 (- 1) (- 1) d = (False, 0, - 1)" using minus_one_by [OF assms(2)]
    by (simp add: divs128_int128_def Let_def)
  show "divs128_int128 low' high d = divs128_int128 low' (- 1) d"
    unfolding divs128_int128_def sign_extended [OF assms(3)] using minus_one_by(2) [OF assms(2)] by (simp only: if_False)
qed

theorem divisions_go_wrong_witness:
  "fst (divu128 0 3 3) = False \<and> 2 ^ 64 \<le> (unat (3 :: u64) * 2 ^ 64 + unat (0 :: u64)) div unat (3 :: u64) \<and>
   fst (divu128_int128 0 3 3) \<and>
   divs128 (- 1) (- 1) 2 = (True, 0, 1) \<and> divs128_int128 (- 1) (- 1) 2 = (False, 0, - 1) \<and>
   divs128_int128 (- 1) 0 2 = divs128_int128 (- 1) (- 1) 2"
  by (rule divisions_go_wrong) (simp_all add: word_sless_alt)

section \<open>Shifts of 128 bits\<close>

lemma urshift_correct: "(case urshift low high n of (l, h) \<Rightarrow> join128 l h) = drop_bit (n mod 128) (join128 low high)"
proof (rule bit_word_eqI)
  fix i assume i: "i < LENGTH(128)"
  define k where "k = n mod 128"
  have k: "k < 128" by (simp add: k_def)
  have "64 \<le> k \<Longrightarrow> k mod 64 = k - 64" using k by (simp add: mod_if)
  then show "bit (case urshift low high n of (l, h) \<Rightarrow> join128 l h) i = bit (drop_bit (n mod 128) (join128 low high)) i"
    using i k unfolding urshift_def k_def [symmetric] Let_def bit_drop_bit_eq o_apply
    by (cases "k = 0"; cases "64 \<le> k"; cases "i < 64"; cases "k + i < 128")
      (auto simp: bit_join128 bit_or_iff bit_drop_bit_eq bit_push_bit_iff add.commute dest: bit_imp_le_length)
qed

lemma ulshift_correct:
  "(case ulshift low high n ov of (l, h, _) \<Rightarrow> join128 l h) = push_bit (n mod 128) (join128 low high)"
proof (rule bit_word_eqI)
  fix i assume i: "i < LENGTH(128)"
  define k where "k = n mod 128"
  have k: "k < 128" by (simp add: k_def)
  have "64 \<le> k \<Longrightarrow> k mod 64 = k - 64" using k by (simp add: mod_if)
  then show "bit (case ulshift low high n ov of (l, h, _) \<Rightarrow> join128 l h) i = bit (push_bit (n mod 128) (join128 low high)) i"
    using i k unfolding ulshift_def k_def [symmetric] Let_def
    by (cases "k = 0"; cases "64 \<le> k"; cases "i < 64"; cases "k \<le> i"; cases "urshift low high (128 - k)")
      (auto simp: bit_join128 bit_or_iff bit_drop_bit_eq bit_push_bit_iff add.commute dest: bit_imp_le_length)
qed

lemma join128_zero_iff: "join128 l h = 0 \<longleftrightarrow> l OR h = 0"
proof -
  have "join128 l h = 0 \<longleftrightarrow> l = 0 \<and> h = 0"
    using halves_join128(1,2) [of l h] by (metis join128_def drop_bit_of_0 or.right_neutral push_bit_of_0 unsigned_0)
  moreover have "l OR h = 0 \<longleftrightarrow> l = 0 \<and> h = 0" by (auto simp: bit_eq_iff bit_or_iff)
  ultimately show ?thesis by simp
qed

text \<open>The flag is set exactly when a one is shifted out, and is otherwise left alone.\<close>

lemma ulshift_overflow:
  "snd (snd (ulshift low high n ov)) \<longleftrightarrow> ov \<or> n mod 128 \<noteq> 0 \<and> drop_bit (128 - n mod 128) (join128 low high) \<noteq> 0"
proof (cases "n mod 128 = 0")
  case False
  obtain l h where lh: "urshift low high (128 - n mod 128) = (l, h)" by fastforce
  have "(128 - n mod 128) mod 128 = 128 - n mod 128" using False by simp
  then have "join128 l h = drop_bit (128 - n mod 128) (join128 low high)"
    using urshift_correct [of low high "128 - n mod 128"] lh by simp
  then show ?thesis using False lh join128_zero_iff [of l h] by (simp add: ulshift_def Let_def)
qed (simp add: ulshift_def)

section \<open>Powers of two\<close>

lemma top_bit: "2 ^ k \<le> n \<Longrightarrow> n < 2 ^ Suc k \<Longrightarrow> bit (n :: nat) k"
proof -
  assume "2 ^ k \<le> n" "n < 2 ^ Suc k"
  then have "n div 2 ^ k = 1" by (intro div_nat_eqI) simp_all
  then show ?thesis by (simp add: bit_iff_odd)
qed

lemma is_power_of_2_correct: "is_power_of_2 v \<longleftrightarrow> (\<exists>k < 64. v = 2 ^ k)"
proof
  assume p: "is_power_of_2 v"
  then have v: "v \<noteq> 0" "v AND (v - 1) = 0" by (auto simp: is_power_of_2_def split: if_splits)
  have "1 \<le> unat v" using v(1) by (simp add: unat_gt_0 Suc_le_eq)
  then obtain k where k: "2 ^ k \<le> unat v" "unat v < 2 ^ (k + 1)" using ex_power_ivl1 [of 2 "unat v"] by auto
  have "(2 :: nat) ^ k < 2 ^ 64" using k(1) unat_u64_less [of v] by linarith
  then have "k < 64" by (rule power_less_imp_less_exp [rotated]) simp
  have "unat v = 2 ^ k"
  proof (rule ccontr)
    assume "unat v \<noteq> 2 ^ k"
    then have "2 ^ k \<le> unat v - 1" "unat v - 1 < 2 ^ (k + 1)" using k by simp_all
    then have "bit (unat v - 1) k" "bit (unat v) k" using top_bit k by simp_all
    moreover have "unat (v - 1) = unat v - 1" using \<open>1 \<le> unat v\<close> unat_minus_no_underflow [of 1 v] by simp
    ultimately have "bit (v AND (v - 1)) k" using \<open>k < 64\<close> by (metis bit_and_iff bit_unsigned_iff)
    then show False using v(2) by simp
  qed
  then have "of_nat (unat v) = (2 ^ k :: u64)" by simp
  then have "v = 2 ^ k" by simp
  then show "\<exists>k < 64. v = 2 ^ k" using \<open>k < 64\<close> by blast
next
  assume "\<exists>k < 64. v = 2 ^ k"
  then obtain k where k: "k < 64" "v = 2 ^ k" by blast
  have "v AND (v - 1) = 0" unfolding k(2) by (rule bit_word_eqI) (auto simp: bit_simps simp flip: mask_eq_exp_minus_1)
  moreover have "v \<noteq> 0" using k by simp
  ultimately show "is_power_of_2 v" by (simp add: is_power_of_2_def)
qed

end
