(* ===== verification/Spec2Isabelle.thy ===== *)
theory Spec2Isabelle
  imports Address_Space_Device Sub_Allocator Ring_Buffer Sync_Driver Goldfish_Pic Goldfish_Rtc Goldfish_Tty Bitmaps Host_Utils
begin

text \<open>
  This development verifies parts of the Android emulator: devices of the goldfish
  platform (\<^verbatim>\<open>src/qemu/hw\<close>), a driver of the guest for one of them
  (\<^verbatim>\<open>src/virtual-device/goldfish_drivers\<close>), the migration streams that carry their state
  (\<^verbatim>\<open>src/qemu/migration\<close>, \<^verbatim>\<open>src/qemu/io\<close>), utilities of the emulator (\<^verbatim>\<open>src/qemu/util\<close>), and the
  allocators, ring buffers and serialization streams through which guest and host
  share memory (\<^verbatim>\<open>src/aemu/base\<close>).

  \<^bold>\<open>How code becomes definitions.\<close> A C structure is a record with its fields, an enum a
  datatype or a set of constants, a machine integer a word of its width. An operation is
  a function from the state to the state after it, with its results. What would stop the
  program or is undefined (a failed assertion, an access outside an array, a null or
  freed pointer, a division by zero, an abort of the emulator, an endless loop) is the
  left summand of the result type \<open>'a res\<close>; every array access goes through \<open>aread\<close>,
  \<open>awrite\<close> and the copies of \<^verbatim>\<open>Prelude.thy\<close>, which check their bounds, so a theorem that
  an operation returns \<open>Inr\<close> says that it makes none of these mistakes. Signed overflow
  wraps around where the sources are compiled to do so (\<^verbatim>\<open>-fwrapv\<close>). What the code
  obtains from outside of it (the clock, the memory map, callbacks of host services, the
  answers of the kernel) is an argument of the definitions. Locks are not modelled where an
  operation holds one throughout: it is one step.

  \<^bold>\<open>Shared parts.\<close>
  \<^item> \<^verbatim>\<open>Prelude\<close>: faults, arrays, the merging of register halves, lemmas on words.
  \<^item> \<^verbatim>\<open>Interfaces\<close>: what components promise each other, as locales: \<open>range_release\<close> and
    \<open>range_allocator\<close>, \<open>bounded_queue\<close>, \<open>irq_source\<close> and \<open>level_irq\<close>. They and the locales of the stream
    theories are interpreted on definitions of the model, and the properties of clients
    rest on the interpretations.

  \<^bold>\<open>Memory shared by guest and host.\<close>
  \<^item> \<^verbatim>\<open>Address_Allocator\<close> (\<^verbatim>\<open>address_space.h\<close>): the array of blocks, splitting, merging, growing,
    allocation anywhere and at an offset. Every reachable allocator tiles its area, hands
    out disjoint ranges, best fit first, and releases just the range named; a request at an
    offset can overlap a range in use.
  \<^item> \<^verbatim>\<open>Address_Space_Device\<close> (\<^verbatim>\<open>goldfish_address_space.c\<close>): the registers, commands and host
    regions. It is a client of the allocator through \<open>range_allocator\<close>. Pings and destroyed
    handles run programs of calls (\<open>hw_calls\<close>) back into the host interface, made of the
    calls the memory contexts of \<^verbatim>\<open>src/aemu/host-common\<close> make; no register
    write breaks the device as long as the page size is not zero and these calls respect
    the allocator (\<open>calls_ok\<close>).
  \<^item> \<^verbatim>\<open>Sub_Allocator\<close> (\<^verbatim>\<open>SubAllocator.cpp\<close>): page sized allocation on the same allocator, and its
    snapshot through \<^verbatim>\<open>Streams\<close> (\<^verbatim>\<open>Stream.cpp\<close>, \<^verbatim>\<open>MemStream.cpp\<close>, \<^verbatim>\<open>StreamSerializing.cpp\<close>), whose
    encodings round trip; a snapshot of more than 32 blocks overruns the array.
  \<^item> \<^verbatim>\<open>Ring_Buffer\<close> (\<^verbatim>\<open>ring_buffer.cpp\<close>): the ring refines a bounded queue, also when the
    steps of one producer and one consumer interleave; sending and hanging up exclude each
    other.

  \<^bold>\<open>Migration streams.\<close> \<^verbatim>\<open>Qemu_File\<close> (\<^verbatim>\<open>qemu-file.c\<close>) has the buffer of 1 MB and the vector of 64
  pending writes, over any sink or source of bytes (locales \<open>file_sink\<close>, \<open>file_source\<close>);
  \<^verbatim>\<open>Channel_Buffer\<close> (\<^verbatim>\<open>channel-buffer.c\<close>, \<^verbatim>\<open>qemu-file-channel.c\<close>) interprets these on the memory
  channel and proves that what is written is read back, and that a read cut short by the end
  of the stream returns bytes from the wrong place.

  \<^bold>\<open>Devices.\<close> \<^verbatim>\<open>Guest_Memory\<close> has the memory of the guest.
  \<^item> \<^verbatim>\<open>Goldfish_Sync\<close> (\<^verbatim>\<open>hw/misc/goldfish_sync.c\<close>): the queue of commands as a linked list in a
    heap; accesses in any order never follow a dangling pointer, and the line is up while
    commands wait. A snapshot keeps only the last command.
  \<^item> \<^verbatim>\<open>Sync_Driver\<close> (\<^verbatim>\<open>goldfish_drivers/goldfish_sync.c\<close>): timelines, fences and reference counts
    of the guest driver, run against the device. The interrupt handler takes all commands,
    processes never make the driver use freed memory while the host signals open
    timelines and the results of the ioctl can be copied to them; three ways to break it are
    proved too. A file whose last reference is dropped is released on the return to user
    space, as the kernel does it; all answers of the kernel to a probe are covered.
  \<^item> \<^verbatim>\<open>Goldfish_Pic\<close>, \<^verbatim>\<open>Goldfish_Rtc\<close>, \<^verbatim>\<open>Goldfish_Tty\<close>: interrupt controller, clock and serial port.

  \<^bold>\<open>Utilities.\<close> \<^verbatim>\<open>Bit_Ops\<close> (\<^verbatim>\<open>bitops.h\<close>, \<^verbatim>\<open>bitops.c\<close>): searches by words equal searches by bits.
  \<^verbatim>\<open>Bitmaps\<close> (\<^verbatim>\<open>bitmap.h\<close>, \<^verbatim>\<open>bitmap.c\<close>): set operations, ranges, and the search for a free area, which
  ends with the first. \<^verbatim>\<open>Host_Utils\<close> (\<^verbatim>\<open>host-utils.h\<close>, \<^verbatim>\<open>host-utils.c\<close>): products and divisions of 128
  bits in both variants.

  \<^bold>\<open>Loops and fuel.\<close> Loops are recursive functions with a termination proof where one
  exists for all inputs. The others take fuel and return \<open>Inl Hang\<close> without it: the walks
  of the linked lists of \<^verbatim>\<open>Goldfish_Sync\<close> (as much as the heap has cells), the interrupt
  handler of \<^verbatim>\<open>Sync_Driver\<close> (one pass per waiting command and one more is proved enough), the
  search of \<^verbatim>\<open>Bitmaps\<close> (the size plus one, proved enough), the shift of a view in
  \<^verbatim>\<open>Ring_Buffer\<close> (the width of an int), and the transfer loops of \<^verbatim>\<open>Qemu_File\<close> and
  \<^verbatim>\<open>Channel_Buffer\<close> (one pass per byte is proved enough).

  \<^bold>\<open>Not modelled.\<close> Within the modelled files: registration of devices with the object
  model and of drivers with the kernel, debug output, and the interpreter of tables of
  saved fields; the RAM hooks, compressed pages and return paths of migration streams;
  the remapping of memory regions of the address space device; blocking waits of the
  ring buffer; names and locks of the sync driver. Outside of them: the processor, memory
  map and block layer of the emulator, and the graphics, media and user interface code,
  which calls drivers and services of the host or is generated; third party libraries;
  the pipe, display, audio and storage devices, whose behaviour is mostly that of the
  host services behind them.
\<close>

end
